(* ===== verification/Prelude.thy ===== *)
theory Prelude
  imports Main "HOL-Library.Word"
begin

text \<open>
  What every component of the model shares.

  The C++ program computes with machine integers, raw pointers and fixed arrays, so an
  operation of the model returns \<open>ub + 'a\<close>: \<open>Inr x\<close> is a normal return and \<open>Inl e\<close>
  says that the C++ code has reached undefined behaviour (a null dereference, an access
  outside an array, signed overflow, a use after free). \<open>rbind\<close> sequences such operations.
  A theorem of the form \<open>f s = Inr _\<close> therefore says, among other things, that the code
  does not run into undefined behaviour there.

  The second half holds the integer conversions (\<open>int\<close> is 32 bits wide) and decimal
  printing and scanning, which the response writer and the option parser use.
\<close>

named_theorems frames \<open>fields that an operation leaves as they were\<close>
named_theorems inv_intros \<open>operations preserve the invariant of their component\<close>

section \<open>Undefined behaviour as a value\<close>

datatype ub =
    Null_Deref
  | Out_Of_Bounds
  | Signed_Overflow
  | Use_After_Free
  | Uninitialised
  | Div_By_Zero

type_synonym 'a res = "ub + 'a"

definition rbind :: "'a res \<Rightarrow> ('a \<Rightarrow> 'b res) \<Rightarrow> 'b res" where
  "rbind m f = (case m of Inl e \<Rightarrow> Inl e | Inr x \<Rightarrow> f x)"

lemma rbind_Inl [simp]: "rbind (Inl e) f = Inl e"
  by (simp add: rbind_def)

lemma rbind_Inr [simp]: "rbind (Inr x) f = f x"
  by (simp add: rbind_def)

lemma rbind_eq_Inr: "rbind m f = Inr y \<longleftrightarrow> (\<exists>x. m = Inr x \<and> f x = Inr y)"
  by (cases m) simp_all

lemma rbind_eq_Inl: "rbind m f = Inl e \<longleftrightarrow> m = Inl e \<or> (\<exists>x. m = Inr x \<and> f x = Inl e)"
  by (cases m) simp_all

lemma rbindE: "rbind m f = Inr y \<Longrightarrow> (\<And>x. m = Inr x \<Longrightarrow> f x = Inr y \<Longrightarrow> P) \<Longrightarrow> P"
  by (cases m) simp_all

lemma rbind_cong [fundef_cong]:
  "m = m' \<Longrightarrow> (\<And>x. m' = Inr x \<Longrightarrow> f x = g x) \<Longrightarrow> rbind m f = rbind m' g"
  by (cases m') simp_all

definition is_ok :: "'a res \<Rightarrow> bool" where
  "is_ok m = (case m of Inl _ \<Rightarrow> False | Inr _ \<Rightarrow> True)"

lemma is_ok_simps [simp]: "\<not> is_ok (Inl e)" "is_ok (Inr x)"
  by (simp_all add: is_ok_def)

lemma is_ok_iff: "is_ok m \<longleftrightarrow> (\<exists>x. m = Inr x)"
  by (cases m) simp_all

section \<open>Machine integers\<close>

text \<open>\<open>int\<close> has 32 bits; a conversion to it keeps the low 32 bits (two's complement).\<close>

definition INT_MAX :: int where "INT_MAX = 2147483647"
definition INT_MIN :: int where "INT_MIN = - 2147483648"
definition LONG_MAX :: int where "LONG_MAX = 9223372036854775807"
definition LONG_MIN :: int where "LONG_MIN = - 9223372036854775808"

definition to_int32 :: "int \<Rightarrow> int" where
  "to_int32 x = (x + 2147483648) mod 4294967296 - 2147483648"

lemma to_int32_id: "INT_MIN \<le> x \<Longrightarrow> x \<le> INT_MAX \<Longrightarrow> to_int32 x = x"
  by (simp add: to_int32_def INT_MIN_def INT_MAX_def)

lemma to_int32_range: "INT_MIN \<le> to_int32 x \<and> to_int32 x \<le> INT_MAX"
  by (simp add: to_int32_def INT_MIN_def INT_MAX_def)

lemma to_int32_sint: "to_int32 x = sint (word_of_int x :: 32 word)"
  by (simp add: to_int32_def sint_uint uint_word_of_int signed_take_bit_eq_take_bit_shift take_bit_eq_mod
      mod_simps)

text \<open>Addition of two \<open>int\<close>s: overflow is undefined behaviour.\<close>

definition int_add :: "int \<Rightarrow> int \<Rightarrow> int res" where
  "int_add a b = (if INT_MIN \<le> a + b \<and> a + b \<le> INT_MAX then Inr (a + b) else Inl Signed_Overflow)"

lemma int_add_ok: "INT_MIN \<le> a + b \<Longrightarrow> a + b \<le> INT_MAX \<Longrightarrow> int_add a b = Inr (a + b)"
  by (simp add: int_add_def)

lemma int_add_eq_Inr: "int_add a b = Inr c \<longleftrightarrow> c = a + b \<and> INT_MIN \<le> c \<and> c \<le> INT_MAX"
  by (auto simp: int_add_def)

section \<open>Decimal numbers\<close>

definition digit_char :: "nat \<Rightarrow> char" where
  "digit_char d = char_of (48 + d)"

definition is_digit :: "char \<Rightarrow> bool" where
  "is_digit c = (48 \<le> (of_char c :: nat) \<and> (of_char c :: nat) \<le> 57)"

definition digit_val :: "char \<Rightarrow> int" where
  "digit_val c = int (of_char c) - 48"

lemma digit_char_props:
  assumes "d < 10"
  shows "is_digit (digit_char d)" and "digit_val (digit_char d) = int d"
  using assms by (simp_all add: digit_char_def is_digit_def digit_val_def)

fun show_nat :: "nat \<Rightarrow> string" where
  "show_nat n = (if n < 10 then [digit_char n] else show_nat (n div 10) @ [digit_char (n mod 10)])"

declare show_nat.simps [simp del]

definition show_int :: "int \<Rightarrow> string" where
  "show_int i = (if i < 0 then CHR ''-'' # show_nat (nat (- i)) else show_nat (nat i))"

definition scan_digits :: "int \<Rightarrow> string \<Rightarrow> int" where
  "scan_digits acc s = foldl (\<lambda>n c. 10 * n + digit_val c) acc (takeWhile is_digit s)"

lemma show_nat_nonempty [simp]: "show_nat n \<noteq> []"
  by (subst show_nat.simps) simp

lemma show_nat_digits: "\<forall>c \<in> set (show_nat n). is_digit c"
proof (induction n rule: show_nat.induct)
  case (1 n)
  then show ?case
    by (cases "n < 10") (simp_all add: show_nat.simps [of n] digit_char_props)
qed

lemma foldl_show_nat: "foldl (\<lambda>n c. 10 * n + digit_val c) 0 (show_nat n) = int n"
proof (induction n rule: show_nat.induct)
  case (1 n)
  show ?case
  proof (cases "n < 10")
    case True
    then show ?thesis by (simp add: show_nat.simps [of n] digit_char_props)
  next
    case False
    with "1.IH" show ?thesis
      by (simp add: show_nat.simps [of n] digit_char_props zdiv_int zmod_int flip: of_nat_mult)
  qed
qed

lemma scan_digits_show_nat: "scan_digits 0 (show_nat n @ s) = int n"
  if "s = [] \<or> \<not> is_digit (hd s)"
proof -
  have "takeWhile is_digit (show_nat n @ s) = show_nat n"
    using that show_nat_digits [of n] by (cases s) (auto simp: takeWhile_append2)
  then show ?thesis by (simp add: scan_digits_def foldl_show_nat)
qed

lemma length_show_nat: "n < 10 ^ k \<Longrightarrow> 0 < k \<Longrightarrow> length (show_nat n) \<le> k"
proof (induction n arbitrary: k rule: show_nat.induct)
  case (1 n)
  show ?case
  proof (cases "n < 10")
    case True
    with "1.prems" show ?thesis by (simp add: show_nat.simps [of n])
  next
    case False
    then have "k \<noteq> 1" using "1.prems"(1) by auto
    then obtain j where j: "k = Suc j" "0 < j" using "1.prems"(2) by (cases k) auto
    then have "n div 10 < 10 ^ j" using "1.prems"(1) by (simp add: less_mult_imp_div_less mult.commute)
    with "1.IH" [OF False] j have "length (show_nat (n div 10)) \<le> j" by simp
    with False j show ?thesis by (simp add: show_nat.simps [of n])
  qed
qed

lemma length_show_int32: "INT_MIN \<le> i \<Longrightarrow> i \<le> INT_MAX \<Longrightarrow> length (show_int i) \<le> 11"
  using length_show_nat [of "nat i" 10] length_show_nat [of "nat (- i)" 10]
  by (simp add: show_int_def INT_MIN_def INT_MAX_def) linarith

section \<open>Lists\<close>

lemma takeWhile_all: "(\<forall>x \<in> set xs. P x) \<Longrightarrow> takeWhile P (xs @ y # ys) = xs" if "\<not> P y"
  using that by (simp add: takeWhile_append2)

lemma length_takeWhile_less: "x \<in> set xs \<Longrightarrow> \<not> P x \<Longrightarrow> length (takeWhile P xs) < length xs"
  by (induction xs) auto

lemma nth_length_takeWhile_not:
  "length (takeWhile P xs) < length xs \<Longrightarrow> \<not> P (xs ! length (takeWhile P xs))"
  by (rule nth_length_takeWhile)

lemma split_first_cases [case_names none some]:
  obtains "\<forall>x \<in> set xs. \<not> P x"
  | pre x post where "xs = pre @ x # post" and "P x" and "\<forall>y \<in> set pre. \<not> P y"
  using split_list_first_prop [of xs P] by (metis (full_types))

lemma takeWhile_split:
  "\<forall>y \<in> set pre. P y \<Longrightarrow> \<not> P x \<Longrightarrow> takeWhile P (pre @ x # post) = pre"
  by (simp add: takeWhile_append2)

lemma takeWhile_id: "\<forall>y \<in> set xs. P y \<Longrightarrow> takeWhile P xs = xs"
  by (simp add: takeWhile_eq_all_conv)

end
