(* ===== verification/CString.thy ===== *)
theory CString
  imports Prelude
begin

text \<open>
  Character arrays and the part of the C string library that the program calls
  (\<open>strpbrk\<close>, \<open>strspn\<close>, \<open>strcasecmp\<close>, \<open>strncasecmp\<close>, \<open>strchr\<close>, \<open>strrchr\<close>, \<open>strcpy\<close>,
  \<open>strncpy\<close>, \<open>atoi\<close>, \<open>atol\<close>).

  A \<open>char\<close> array is a function from its index to the byte stored there; its size is given
  where it is accessed, and an access outside \<open>0 ..< n\<close> is undefined behaviour. A pointer
  into the array is its index, and \<open>int option\<close> where it may be null. A C string at index
  \<open>i\<close> is read by \<open>c_str\<close>: the bytes from \<open>i\<close> up to the first NUL, or undefined behaviour
  when the array holds no NUL from there on.
\<close>

type_synonym chars = "int \<Rightarrow> char"

abbreviation NUL :: char where "NUL \<equiv> CHR 0x00"
abbreviation TAB :: char where "TAB \<equiv> CHR 0x09"
abbreviation LF :: char where "LF \<equiv> CHR 0x0A"
abbreviation CR :: char where "CR \<equiv> CHR 0x0D"
abbreviation SPC :: char where "SPC \<equiv> CHR 0x20"

definition blank :: chars where
  "blank = (\<lambda>_. NUL)"

definition rd :: "int \<Rightarrow> chars \<Rightarrow> int \<Rightarrow> char res" where
  "rd n a i = (if 0 \<le> i \<and> i < n then Inr (a i) else Inl Out_Of_Bounds)"

definition wr :: "int \<Rightarrow> chars \<Rightarrow> int \<Rightarrow> char \<Rightarrow> chars res" where
  "wr n a i c = (if 0 \<le> i \<and> i < n then Inr (a(i := c)) else Inl Out_Of_Bounds)"

text \<open>Storing the bytes of \<open>s\<close> from index \<open>i\<close> on (no bounds check: \<open>memcpy\<close>).\<close>

definition put :: "chars \<Rightarrow> int \<Rightarrow> string \<Rightarrow> chars" where
  "put a i s = (\<lambda>k. if i \<le> k \<and> k < i + int (length s) then s ! nat (k - i) else a k)"

definition get :: "chars \<Rightarrow> int \<Rightarrow> nat \<Rightarrow> string" where
  "get a i k = map (\<lambda>j. a (i + int j)) [0..<k]"

function c_str :: "int \<Rightarrow> chars \<Rightarrow> int \<Rightarrow> string res" where
  "c_str n a i =
     (if 0 \<le> i \<and> i < n
      then if a i = NUL then Inr []
           else (case c_str n a (i + 1) of Inl e \<Rightarrow> Inl e | Inr s \<Rightarrow> Inr (a i # s))
      else Inl Out_Of_Bounds)"
  by pat_completeness auto
termination
  by (relation "measure (\<lambda>(n, a, i). nat (n - i))") auto

declare c_str.simps [simp del]

section \<open>Library functions\<close>

definition strpbrk :: "int \<Rightarrow> chars \<Rightarrow> int \<Rightarrow> string \<Rightarrow> int option res" where
  "strpbrk n a i accept = rbind (c_str n a i) (\<lambda>s.
     let k = length (takeWhile (\<lambda>c. c \<notin> set accept) s)
     in Inr (if k < length s then Some (i + int k) else None))"

definition strspn :: "int \<Rightarrow> chars \<Rightarrow> int \<Rightarrow> string \<Rightarrow> int res" where
  "strspn n a i accept = rbind (c_str n a i) (\<lambda>s.
     Inr (int (length (takeWhile (\<lambda>c. c \<in> set accept) s))))"

definition strchr :: "int \<Rightarrow> chars \<Rightarrow> int \<Rightarrow> char \<Rightarrow> int option res" where
  "strchr n a i c = strpbrk n a i [c]"

fun last_index :: "char \<Rightarrow> string \<Rightarrow> nat option" where
  "last_index c [] = None"
| "last_index c (x # xs) =
     (case last_index c xs of Some k \<Rightarrow> Some (Suc k) | None \<Rightarrow> if x = c then Some 0 else None)"

definition strrchr :: "int \<Rightarrow> chars \<Rightarrow> int \<Rightarrow> char \<Rightarrow> int option res" where
  "strrchr n a i c = rbind (c_str n a i) (\<lambda>s.
     Inr (map_option (\<lambda>k. i + int k) (last_index c s)))"

definition tolower :: "char \<Rightarrow> char" where
  "tolower c = (let k = (of_char c :: nat) in if 65 \<le> k \<and> k \<le> 90 then char_of (k + 32) else c)"

definition casecmp_eq :: "string \<Rightarrow> string \<Rightarrow> bool" where
  "casecmp_eq s t = (map tolower s = map tolower t)"

text \<open>\<open>strcasecmp(p, lit) == 0\<close> and \<open>strncasecmp(p, lit, k) == 0\<close> for a literal of length \<open>k\<close>.\<close>

definition strcasecmp :: "int \<Rightarrow> chars \<Rightarrow> int \<Rightarrow> string \<Rightarrow> bool res" where
  "strcasecmp n a i lit = rbind (c_str n a i) (\<lambda>s. Inr (casecmp_eq s lit))"

definition strncasecmp :: "int \<Rightarrow> chars \<Rightarrow> int \<Rightarrow> string \<Rightarrow> bool res" where
  "strncasecmp n a i lit = rbind (c_str n a i) (\<lambda>s. Inr (casecmp_eq (take (length lit) s) lit))"

definition strcpy :: "int \<Rightarrow> chars \<Rightarrow> int \<Rightarrow> string \<Rightarrow> chars res" where
  "strcpy n a i s =
     (if 0 \<le> i \<and> i + int (length s) < n then Inr (put a i (s @ [NUL])) else Inl Out_Of_Bounds)"

text \<open>\<open>strncpy(a + i, s, k)\<close> stores exactly \<open>k\<close> bytes: \<open>s\<close> cut to \<open>k\<close>, padded with NULs.\<close>

definition strncpy_bytes :: "string \<Rightarrow> nat \<Rightarrow> string" where
  "strncpy_bytes s k = take k s @ replicate (k - length s) NUL"

definition strncpy :: "int \<Rightarrow> chars \<Rightarrow> int \<Rightarrow> string \<Rightarrow> int \<Rightarrow> chars res" where
  "strncpy n a i s k =
     (if 0 \<le> i \<and> 0 \<le> k \<and> i + k \<le> n then Inr (put a i (strncpy_bytes s (nat k))) else Inl Out_Of_Bounds)"

definition is_space :: "char \<Rightarrow> bool" where
  "is_space c = (let k = (of_char c :: nat) in k = 32 \<or> (9 \<le> k \<and> k \<le> 13))"

text \<open>
  \<open>strtol(s, 0, 10)\<close>: blanks, an optional sign, digits; out of range values saturate.
  \<open>atol\<close> is that value, \<open>atoi\<close> its conversion to \<open>int\<close> (as glibc defines them).
\<close>

definition strtol10 :: "string \<Rightarrow> int" where
  "strtol10 s = (let t = dropWhile is_space s in
     max LONG_MIN (min LONG_MAX
       (case t of
          [] \<Rightarrow> 0
        | c # cs \<Rightarrow> if c = CHR ''-'' then - scan_digits 0 cs
                    else if c = CHR ''+'' then scan_digits 0 cs
                    else scan_digits 0 t)))"

definition atol :: "string \<Rightarrow> int" where "atol s = strtol10 s"

definition atoi :: "string \<Rightarrow> int" where "atoi s = to_int32 (strtol10 s)"

section \<open>Reading and writing\<close>

lemma rd_eq_Inr [simp]: "rd n a i = Inr c \<longleftrightarrow> 0 \<le> i \<and> i < n \<and> c = a i"
  by (auto simp: rd_def)

lemma wr_eq_Inr [simp]: "wr n a i c = Inr b \<longleftrightarrow> 0 \<le> i \<and> i < n \<and> b = a(i := c)"
  by (auto simp: wr_def)

lemma rd_ok: "0 \<le> i \<Longrightarrow> i < n \<Longrightarrow> rd n a i = Inr (a i)"
  by (simp add: rd_def)

lemma wr_ok: "0 \<le> i \<Longrightarrow> i < n \<Longrightarrow> wr n a i c = Inr (a(i := c))"
  by (simp add: wr_def)

lemma put_Nil [simp]: "put a i [] = a"
  by (auto simp: put_def fun_eq_iff)

lemma put_outside: "k < i \<or> i + int (length s) \<le> k \<Longrightarrow> put a i s k = a k"
  by (auto simp: put_def)

lemma put_inside: "j < length s \<Longrightarrow> put a i s (i + int j) = s ! j"
  by (simp add: put_def)

lemma put_append: "put a i (s @ t) = put (put a i s) (i + int (length s)) t"
  by (auto simp: put_def fun_eq_iff nth_append nat_less_iff nat_diff_distrib' algebra_simps
      intro!: arg_cong [where f = "nth t"])

lemma length_get [simp]: "length (get a i k) = k"
  by (simp add: get_def)

lemma get_0 [simp]: "get a i 0 = []"
  by (simp add: get_def)

lemma nth_get [simp]: "j < k \<Longrightarrow> get a i k ! j = a (i + int j)"
  by (simp add: get_def)

lemma get_put_same: "get (put a i s) i (length s) = s"
  by (rule nth_equalityI) (simp_all add: put_def)

lemma get_put_disjoint: "i + int k \<le> j \<or> j + int (length s) \<le> i \<Longrightarrow> get (put a j s) i k = get a i k"
  by (rule nth_equalityI) (auto simp: put_def)

lemma get_add: "get a i (k + l) = get a i k @ get a (i + int k) l"
  by (rule nth_equalityI) (auto simp: nth_append of_nat_diff)

lemma get_Suc: "get a i (Suc k) = a i # get a (i + 1) k"
  using get_add [of a i 1 k] by (simp add: get_def)

lemma get_cong: "(\<And>j. i \<le> j \<Longrightarrow> j < i + int k \<Longrightarrow> a j = b j) \<Longrightarrow> get a i k = get b i k"
  by (rule nth_equalityI) auto

section \<open>Reading C strings\<close>

text \<open>What \<open>c_str\<close> returns, in terms of the bytes of the array.\<close>

lemma c_str_Inr_iff:
  "c_str n a i = Inr s \<longleftrightarrow>
     0 \<le> i \<and> i + int (length s) < n \<and> get a i (length s) = s \<and> NUL \<notin> set s
     \<and> a (i + int (length s)) = NUL"
proof (induction n a i arbitrary: s rule: c_str.induct)
  case (1 n a i)
  show ?case
  proof (cases "0 \<le> i \<and> i < n \<and> a i \<noteq> NUL")
    case True
    then have IH: "c_str n a (i + 1) = Inr t \<longleftrightarrow> i + (1 + int (length t)) < n \<and> get a (i + 1) (length t) = t
        \<and> NUL \<notin> set t \<and> a (i + (1 + int (length t))) = NUL" for t
      using "1.IH" [of t] by (simp add: add.assoc)
    show ?thesis
    proof (cases s)
      case Nil
      with True show ?thesis by (auto simp: c_str.simps [of n a i] split: sum.splits)
    next
      case (Cons x t)
      with True IH [of t] show ?thesis
        by (cases "c_str n a (i + 1)") (auto simp: c_str.simps [of n a i] get_Suc)
    qed
  next
    case False
    then show ?thesis
      by (cases s) (auto simp: c_str.simps [of n a i] get_Suc)
  qed
qed

lemma c_strI:
  "0 \<le> i \<Longrightarrow> i + int (length s) < n \<Longrightarrow> get a i (length s) = s \<Longrightarrow> NUL \<notin> set s
   \<Longrightarrow> a (i + int (length s)) = NUL \<Longrightarrow> c_str n a i = Inr s"
  by (simp add: c_str_Inr_iff)

lemma c_str_terminated:
  assumes "0 \<le> i" and "i \<le> j" and "j < n" and "a j = NUL"
  shows "\<exists>s. c_str n a i = Inr s \<and> int (length s) \<le> j - i"
  using assms
proof (induction n a i rule: c_str.induct)
  case (1 n a i)
  show ?case
  proof (cases "a i = NUL")
    case True
    with "1.prems" show ?thesis by (simp add: c_str.simps [of n a i])
  next
    case False
    with "1.prems" have "i \<noteq> j" by auto
    with False "1.prems" obtain t where "c_str n a (i + 1) = Inr t" "int (length t) \<le> j - (i + 1)"
      using "1.IH" by auto
    with False "1.prems" show ?thesis by (auto simp: c_str.simps [of n a i])
  qed
qed

lemma c_str_nth:
  assumes "c_str n a i = Inr s" and "k < length s"
  shows "a (i + int k) = s ! k" and "s ! k \<noteq> NUL"
proof -
  from assms have "get a i (length s) ! k = s ! k" and "NUL \<notin> set s"
    by (simp_all add: c_str_Inr_iff)
  with assms(2) show "a (i + int k) = s ! k" and "s ! k \<noteq> NUL"
    by (auto dest: nth_mem)
qed

lemma c_str_drop:
  assumes "c_str n a i = Inr s" and "k \<le> length s"
  shows "c_str n a (i + int k) = Inr (drop k s)"
proof (rule c_strI)
  from assms have s: "0 \<le> i" "i + int (length s) < n" "get a i (length s) = s" "NUL \<notin> set s"
      "a (i + int (length s)) = NUL"
    by (simp_all add: c_str_Inr_iff)
  with assms show "0 \<le> i + int k" "i + int k + int (length (drop k s)) < n" "NUL \<notin> set (drop k s)"
      "a (i + int k + int (length (drop k s))) = NUL"
    by (auto dest: in_set_dropD simp: of_nat_diff)
  show "get a (i + int k) (length (drop k s)) = drop k s"
  proof (rule nth_equalityI)
    fix m
    assume "m < length (get a (i + int k) (length (drop k s)))"
    then have "k + m < length s" by simp
    then show "get a (i + int k) (length (drop k s)) ! m = drop k s ! m"
      using c_str_nth(1) [OF assms(1), of "k + m"] assms(2) by (simp add: add.assoc)
  qed simp
qed

lemma c_str_end:
  assumes "c_str n a i = Inr s"
  shows "a (i + int (length s)) = NUL" and "0 \<le> i" and "i + int (length s) < n"
  using assms by (simp_all add: c_str_Inr_iff)

text \<open>Overwriting a byte of the string with NUL cuts it there; bytes before it do not matter.\<close>

lemma c_str_cut:
  assumes "c_str n a i = Inr s" and "k \<le> length s"
  shows "c_str n (a(i + int k := NUL)) i = Inr (take k s)"
proof (rule c_strI)
  show "get (a(i + int k := NUL)) i (length (take k s)) = take k s"
    using assms by (intro nth_equalityI) (auto simp: c_str_nth)
qed (use assms in \<open>auto simp: c_str_Inr_iff dest: in_set_takeD\<close>)

lemma c_str_suffix_cong:
  assumes "\<And>k. i \<le> k \<Longrightarrow> b k = a k"
  shows "c_str n b i = c_str n a i"
  using assms
proof (induction n a i rule: c_str.induct)
  case (1 n a i)
  then have "0 \<le> i \<and> i < n \<Longrightarrow> a i \<noteq> NUL \<Longrightarrow> c_str n b (i + 1) = c_str n a (i + 1)" and "b i = a i"
    by simp_all
  then show ?case
    by (cases "c_str n a (i + 1)") (simp_all add: c_str.simps [of n a i] c_str.simps [of n b i])
qed

lemma c_str_before: "j < i \<Longrightarrow> c_str n (a(j := c)) i = c_str n a i"
  by (rule c_str_suffix_cong) simp

lemma c_str_cong:
  assumes "c_str n a i = Inr s" and "\<And>j. i \<le> j \<Longrightarrow> j \<le> i + int (length s) \<Longrightarrow> b j = a j"
  shows "c_str n b i = Inr s"
proof -
  have "get b i (length s) = get a i (length s)"
    using assms(2) by (intro get_cong) auto
  with assms show ?thesis by (simp add: c_str_Inr_iff)
qed

section \<open>The library functions on a known string\<close>

lemma strpbrk_c_str:
  assumes "c_str n a i = Inr s"
  shows "strpbrk n a i accept =
    (let k = length (takeWhile (\<lambda>c. c \<notin> set accept) s)
     in Inr (if k < length s then Some (i + int k) else None))"
  by (simp add: strpbrk_def assms)

lemma strpbrk_Some:
  assumes "strpbrk n a i accept = Inr (Some j)"
  obtains s k where "c_str n a i = Inr s" and "j = i + int k" and "k < length s"
    and "k = length (takeWhile (\<lambda>c. c \<notin> set accept) s)" and "s ! k \<in> set accept" and "a j = s ! k"
proof -
  from assms obtain s where s: "c_str n a i = Inr s"
    and k: "length (takeWhile (\<lambda>c. c \<notin> set accept) s) < length s"
      "j = i + int (length (takeWhile (\<lambda>c. c \<notin> set accept) s))"
    by (auto simp: strpbrk_def rbind_eq_Inr Let_def split: if_splits)
  from k(1) have "s ! length (takeWhile (\<lambda>c. c \<notin> set accept) s) \<in> set accept"
    using nth_length_takeWhile by fastforce
  with s k show ?thesis by (auto intro!: that simp: c_str_nth)
qed

lemma strspn_c_str:
  "c_str n a i = Inr s \<Longrightarrow>
   strspn n a i accept = Inr (int (length (takeWhile (\<lambda>c. c \<in> set accept) s)))"
  by (simp add: strspn_def)

lemma strcasecmp_c_str: "c_str n a i = Inr s \<Longrightarrow> strcasecmp n a i lit = Inr (casecmp_eq s lit)"
  by (simp add: strcasecmp_def)

lemma strncasecmp_c_str:
  "c_str n a i = Inr s \<Longrightarrow> strncasecmp n a i lit = Inr (casecmp_eq (take (length lit) s) lit)"
  by (simp add: strncasecmp_def)

lemma casecmp_eq_refl [simp]: "casecmp_eq s s"
  by (simp add: casecmp_eq_def)

lemma casecmp_eq_length: "casecmp_eq s t \<Longrightarrow> length s = length t"
  unfolding casecmp_eq_def by (metis length_map)

lemma last_index_Some:
  "last_index c s = Some k \<Longrightarrow> k < length s \<and> s ! k = c \<and> c \<notin> set (drop (Suc k) s)"
proof (induction s arbitrary: k)
  case (Cons x xs)
  show ?case
  proof (cases "last_index c xs")
    case None
    have "c \<notin> set ys" if "last_index c ys = None" for ys
      using that by (induction ys) (auto split: option.splits if_splits)
    with None Cons.prems show ?thesis by (auto split: if_splits)
  next
    case (Some j)
    with Cons show ?thesis by auto
  qed
qed simp

lemma last_index_None: "last_index c s = None \<longleftrightarrow> c \<notin> set s"
  by (induction s) (auto split: option.splits)

section \<open>Decimal round trips\<close>

lemma is_space_digit: "is_digit c \<Longrightarrow> \<not> is_space c \<and> c \<noteq> CHR ''-'' \<and> c \<noteq> CHR ''+''"
  by (auto simp: is_digit_def is_space_def Let_def)

lemma strtol10_show_int:
  assumes "LONG_MIN \<le> i" and "i \<le> LONG_MAX" and "s = [] \<or> \<not> is_digit (hd s)"
  shows "strtol10 (show_int i @ s) = i"
proof (cases "i < 0")
  case True
  with assms show ?thesis
    by (simp add: strtol10_def show_int_def scan_digits_show_nat LONG_MIN_def LONG_MAX_def is_space_def)
next
  case False
  obtain c cs where c: "show_nat (nat i) = c # cs" by (cases "show_nat (nat i)") auto
  with show_nat_digits [of "nat i"] have "is_digit c" by simp
  note d = is_space_digit [OF this]
  have "scan_digits 0 (c # cs @ s) = i"
    using scan_digits_show_nat [OF assms(3), of "nat i"] False by (simp add: c)
  with False assms(1,2) c d show ?thesis
    by (simp add: strtol10_def show_int_def LONG_MIN_def LONG_MAX_def)
qed

lemma atoi_show_int:
  "INT_MIN \<le> i \<Longrightarrow> i \<le> INT_MAX \<Longrightarrow> atoi (show_int i) = i"
  using strtol10_show_int [of i "[]"]
  by (simp add: atoi_def to_int32_id INT_MIN_def INT_MAX_def LONG_MIN_def LONG_MAX_def)

end
