(* ===== verification/Epoll.thy ===== *)
theory Epoll
  imports Prelude
begin

unbundle bit_operations_syntax

text \<open>
  The file descriptors of the process and its epoll table, as far as the server uses them
  (\<open>setnonblocking\<close>, \<open>addfd\<close>, \<open>removefd\<close>, \<open>modfd\<close> of \<open>http/http_conn.cpp\<close>, and their copies in
  class \<open>Utils\<close> of \<open>timer/lst_timer.cpp\<close>).

  The server ignores the results of \<open>epoll_ctl\<close> and \<open>close\<close>, so the kernel's refusals (adding a
  descriptor twice, modifying one that is not in the table, closing one that is not open) leave
  the table as it is. Event masks are 32 bits wide, with the values of \<open>sys/epoll.h\<close>.
  \<open>m_user_count\<close> is the atomic counter \<open>http_conn::m_user_count\<close>.
\<close>

type_synonym events = "32 word"

definition EPOLLIN :: events where "EPOLLIN = 0x001"
definition EPOLLOUT :: events where "EPOLLOUT = 0x004"
definition EPOLLERR :: events where "EPOLLERR = 0x008"
definition EPOLLHUP :: events where "EPOLLHUP = 0x010"
definition EPOLLRDHUP :: events where "EPOLLRDHUP = 0x2000"
definition EPOLLONESHOT :: events where "EPOLLONESHOT = 0x40000000"
definition EPOLLET :: events where "EPOLLET = 0x80000000"

lemmas epoll_flags = EPOLLIN_def EPOLLOUT_def EPOLLERR_def EPOLLHUP_def EPOLLRDHUP_def
  EPOLLONESHOT_def EPOLLET_def

record os =
  fd_open :: "int \<Rightarrow> bool"
  fd_nonblock :: "int \<Rightarrow> bool"
  ep_table :: "int \<Rightarrow> events option"
  m_user_count :: int

section \<open>System calls\<close>

definition epoll_ctl_add :: "os \<Rightarrow> int \<Rightarrow> events \<Rightarrow> os" where
  "epoll_ctl_add k fd ev =
     (if fd_open k fd \<and> ep_table k fd = None then k\<lparr>ep_table := (ep_table k)(fd := Some ev)\<rparr> else k)"

definition epoll_ctl_mod :: "os \<Rightarrow> int \<Rightarrow> events \<Rightarrow> os" where
  "epoll_ctl_mod k fd ev =
     (if ep_table k fd \<noteq> None then k\<lparr>ep_table := (ep_table k)(fd := Some ev)\<rparr> else k)"

definition epoll_ctl_del :: "os \<Rightarrow> int \<Rightarrow> os" where
  "epoll_ctl_del k fd = k\<lparr>ep_table := (ep_table k)(fd := None)\<rparr>"

text \<open>Closing the last descriptor of a socket also takes it out of the epoll table.\<close>

definition close_fd :: "os \<Rightarrow> int \<Rightarrow> os" where
  "close_fd k fd = k\<lparr>fd_open := (fd_open k)(fd := False), ep_table := (ep_table k)(fd := None)\<rparr>"

section \<open>The wrappers of the server\<close>

definition setnonblocking :: "os \<Rightarrow> int \<Rightarrow> os" where
  "setnonblocking k fd = (if fd_open k fd then k\<lparr>fd_nonblock := (fd_nonblock k)(fd := True)\<rparr> else k)"

definition addfd_events :: "bool \<Rightarrow> int \<Rightarrow> events" where
  "addfd_events one_shot TRIGMode =
     (let ev = (if 1 = TRIGMode then EPOLLIN OR EPOLLET OR EPOLLRDHUP else EPOLLIN OR EPOLLRDHUP)
      in if one_shot then ev OR EPOLLONESHOT else ev)"

definition addfd :: "os \<Rightarrow> int \<Rightarrow> bool \<Rightarrow> int \<Rightarrow> os" where
  "addfd k fd one_shot TRIGMode =
     setnonblocking (epoll_ctl_add k fd (addfd_events one_shot TRIGMode)) fd"

definition removefd :: "os \<Rightarrow> int \<Rightarrow> os" where
  "removefd k fd = close_fd (epoll_ctl_del k fd) fd"

definition modfd_events :: "events \<Rightarrow> int \<Rightarrow> events" where
  "modfd_events ev TRIGMode =
     (if 1 = TRIGMode then ev OR EPOLLET OR EPOLLONESHOT OR EPOLLRDHUP
      else ev OR EPOLLONESHOT OR EPOLLRDHUP)"

definition modfd :: "os \<Rightarrow> int \<Rightarrow> events \<Rightarrow> int \<Rightarrow> os" where
  "modfd k fd ev TRIGMode = epoll_ctl_mod k fd (modfd_events ev TRIGMode)"

definition has_event :: "events \<Rightarrow> events \<Rightarrow> bool" where
  "has_event evs e = (evs AND e \<noteq> 0)"

section \<open>What the wrappers keep\<close>

text \<open>A descriptor in the epoll table is open: closing removes the entry, adding needs it open.\<close>

definition os_inv :: "os \<Rightarrow> bool" where
  "os_inv k \<longleftrightarrow> (\<forall>fd. ep_table k fd \<noteq> None \<longrightarrow> fd_open k fd)"

lemmas os_ops = epoll_ctl_add_def epoll_ctl_mod_def epoll_ctl_del_def close_fd_def
  setnonblocking_def addfd_def removefd_def modfd_def

lemma os_inv_ops [inv_intros]:
  assumes "os_inv k"
  shows "os_inv (addfd k fd b t)" and "os_inv (removefd k fd)" and "os_inv (modfd k fd ev t)"
    and "os_inv (close_fd k fd)" and "os_inv (epoll_ctl_del k fd)" and "os_inv (setnonblocking k fd)"
  using assms by (auto simp: os_inv_def os_ops)

lemma user_count_os [simp]:
  "m_user_count (addfd k fd b t) = m_user_count k"
  "m_user_count (removefd k fd) = m_user_count k"
  "m_user_count (modfd k fd ev t) = m_user_count k"
  "m_user_count (close_fd k fd) = m_user_count k"
  "m_user_count (epoll_ctl_del k fd) = m_user_count k"
  by (simp_all add: os_ops)

lemma fd_open_os [simp]:
  "fd_open (addfd k fd b t) = fd_open k"
  "fd_open (removefd k fd) = (fd_open k)(fd := False)"
  "fd_open (modfd k fd ev t) = fd_open k"
  "fd_open (close_fd k fd) = (fd_open k)(fd := False)"
  "fd_open (epoll_ctl_del k fd) = fd_open k"
  by (simp_all add: os_ops)

lemma ep_table_other:
  "fd' \<noteq> fd \<Longrightarrow> ep_table (addfd k fd b t) fd' = ep_table k fd'"
  "fd' \<noteq> fd \<Longrightarrow> ep_table (removefd k fd) fd' = ep_table k fd'"
  "fd' \<noteq> fd \<Longrightarrow> ep_table (modfd k fd ev t) fd' = ep_table k fd'"
  "fd' \<noteq> fd \<Longrightarrow> ep_table (close_fd k fd) fd' = ep_table k fd'"
  by (simp_all add: os_ops)

lemma ep_table_removefd [simp]: "ep_table (removefd k fd) fd = None"
  by (simp add: os_ops)

text \<open>
  Every mask the server installs watches for the peer's hang-up, and a connection's mask is
  one-shot, so one worker at a time handles a connection.
\<close>

lemma addfd_events_rdhup: "has_event (addfd_events b t) EPOLLRDHUP"
  by (simp add: addfd_events_def has_event_def epoll_flags)

lemma connection_events_one_shot:
  "has_event (addfd_events True t) EPOLLONESHOT"
  "has_event (modfd_events EPOLLIN t) EPOLLONESHOT"
  "has_event (modfd_events EPOLLOUT t) EPOLLONESHOT"
  by (simp_all add: addfd_events_def modfd_events_def has_event_def epoll_flags)

lemma connection_events_edge:
  "has_event (addfd_events b t) EPOLLET \<longleftrightarrow> t = 1"
  "has_event (modfd_events EPOLLIN t) EPOLLET \<longleftrightarrow> t = 1"
  "has_event (modfd_events EPOLLOUT t) EPOLLET \<longleftrightarrow> t = 1"
  by (simp_all add: addfd_events_def modfd_events_def has_event_def epoll_flags)

end
