(* ===== verification/Http_Conn.thy ===== *)
theory Http_Conn
  imports CString Epoll
begin

text \<open>
  Class \<open>http_conn\<close> (\<open>http/http_conn.h\<close>): its enumerations, its state and the operations that
  set a connection up and shut it down.

  \<open>m_read_buf\<close>, \<open>m_write_buf\<close>, \<open>m_real_file\<close> and the \<open>sql_\<close> fields are fixed \<open>char\<close> arrays.
  \<open>m_url\<close>, \<open>m_version\<close>, \<open>m_host\<close> and \<open>m_string\<close> are pointers into \<open>m_read_buf\<close>, that is,
  indices; \<open>None\<close> is the null pointer, and for \<open>m_string\<close>, which no constructor or \<open>init\<close>
  sets, the value it has before the first assignment. \<open>m_file_address\<close> is the mapped file,
  null, \<open>MAP_FAILED\<close>, or not yet set. The base of an \<open>iovec\<close> points into the write buffer, into the
  mapped file or into the CSV string.
\<close>

definition FILENAME_LEN :: int where "FILENAME_LEN = 200"
definition READ_BUFFER_SIZE :: int where "READ_BUFFER_SIZE = 65536"
definition WRITE_BUFFER_SIZE :: int where "WRITE_BUFFER_SIZE = 65536"

datatype METHOD = GET | POST | HEAD | PUT | DELETE | TRACE | OPTIONS | CONNECT | PATH

datatype CHECK_STATE = CHECK_STATE_REQUESTLINE | CHECK_STATE_HEADER | CHECK_STATE_CONTENT

datatype HTTP_CODE =
    NO_REQUEST | GET_REQUEST | BAD_REQUEST | NO_RESOURCE | FORBIDDEN_REQUEST | FILE_REQUEST
  | INTERNAL_ERROR | CLOSED_CONNECTION | DIAGNOSE_REQUEST | DIAGNOSE_CSV_REQUEST | REDIRECT_REQUEST

datatype LINE_STATUS = LINE_OK | LINE_BAD | LINE_OPEN

record stat =
  st_size :: int
  st_iroth :: bool
  st_isdir :: bool

datatype file_addr = FA_Unset | FA_Null | FA_Failed | FA_Mapped string

datatype iov_base = Write_Buf int | File_Addr int | Csv_Data int

record iovec =
  iov_base :: iov_base
  iov_len :: int

record http_conn =
  timer_flag :: int
  improv :: int
  mysql :: "nat option"
  m_state :: int
  m_sockfd :: int
  m_address :: nat
  m_read_buf :: chars
  m_read_idx :: int
  m_checked_idx :: int
  m_start_line :: int
  m_write_buf :: chars
  m_write_idx :: int
  m_check_state :: CHECK_STATE
  m_method :: METHOD
  m_real_file :: chars
  m_url :: "int option"
  m_version :: "int option"
  m_host :: "int option"
  m_content_length :: int
  m_linger :: bool
  m_file_address :: file_addr
  m_file_stat :: stat
  m_iv0 :: iovec
  m_iv1 :: iovec
  m_iv_count :: int
  cgi :: int
  m_string :: "int option"
  bytes_to_send :: int
  bytes_have_send :: int
  doc_root :: string
  m_TRIGMode :: int
  m_close_log :: int
  sql_user :: chars
  sql_passwd :: chars
  sql_name :: chars
  m_response_json :: string
  m_response_csv :: string
  m_cookie :: string

section \<open>Setting up and closing\<close>

text \<open>The private \<open>init()\<close>: the per-request fields, and \<open>memset\<close> on the three buffers.\<close>

definition init :: "http_conn \<Rightarrow> http_conn" where
  "init c = c\<lparr>
     mysql := None,
     bytes_to_send := 0,
     bytes_have_send := 0,
     m_check_state := CHECK_STATE_REQUESTLINE,
     m_linger := False,
     m_method := GET,
     m_url := None,
     m_version := None,
     m_content_length := 0,
     m_host := None,
     m_start_line := 0,
     m_checked_idx := 0,
     m_read_idx := 0,
     m_write_idx := 0,
     cgi := 0,
     m_state := 0,
     timer_flag := 0,
     improv := 0,
     m_response_json := [],
     m_response_csv := [],
     m_cookie := [],
     m_read_buf := blank,
     m_write_buf := blank,
     m_real_file := blank\<rparr>"

text \<open>
  The public \<open>init\<close>. The descriptor is registered before \<open>m_TRIGMode\<close> is assigned, so the
  registration uses the value the object had before (whatever the memory held the first time).
\<close>

definition init_conn ::
    "os \<Rightarrow> http_conn \<Rightarrow> int \<Rightarrow> nat \<Rightarrow> string \<Rightarrow> int \<Rightarrow> int \<Rightarrow> string \<Rightarrow> string \<Rightarrow> string
     \<Rightarrow> (os \<times> http_conn) res" where
  "init_conn k c sockfd addr root TRIGMode close_log user passwd sqlname =
     (let k1 = addfd k sockfd True (m_TRIGMode c);
          k2 = k1\<lparr>m_user_count := m_user_count k1 + 1\<rparr>
      in rbind (strcpy 100 (sql_user c) 0 user) (\<lambda>u.
         rbind (strcpy 100 (sql_passwd c) 0 passwd) (\<lambda>p.
         rbind (strcpy 100 (sql_name c) 0 sqlname) (\<lambda>d.
         Inr (k2, init (c\<lparr>m_sockfd := sockfd, m_address := addr, doc_root := root,
           m_TRIGMode := TRIGMode, m_close_log := close_log,
           sql_user := u, sql_passwd := p, sql_name := d\<rparr>))))))"

definition close_conn :: "os \<Rightarrow> http_conn \<Rightarrow> bool \<Rightarrow> os \<times> http_conn" where
  "close_conn k c real_close =
     (if real_close \<and> m_sockfd c \<noteq> - 1
      then let k1 = removefd k (m_sockfd c)
           in (k1\<lparr>m_user_count := m_user_count k1 - 1\<rparr>, c\<lparr>m_sockfd := - 1\<rparr>)
      else (k, c))"

text \<open>An object whose memory is zero, for concrete inputs.\<close>

definition zero_conn :: http_conn where
  "zero_conn = \<lparr>timer_flag = 0, improv = 0, mysql = None, m_state = 0, m_sockfd = 0, m_address = 0,
     m_read_buf = blank, m_read_idx = 0, m_checked_idx = 0, m_start_line = 0, m_write_buf = blank,
     m_write_idx = 0, m_check_state = CHECK_STATE_REQUESTLINE, m_method = GET, m_real_file = blank,
     m_url = None, m_version = None, m_host = None, m_content_length = 0, m_linger = False,
     m_file_address = FA_Null, m_file_stat = \<lparr>st_size = 0, st_iroth = False, st_isdir = False\<rparr>,
     m_iv0 = \<lparr>iov_base = Write_Buf 0, iov_len = 0\<rparr>, m_iv1 = \<lparr>iov_base = Write_Buf 0, iov_len = 0\<rparr>,
     m_iv_count = 0, cgi = 0, m_string = None, bytes_to_send = 0, bytes_have_send = 0,
     doc_root = [], m_TRIGMode = 0, m_close_log = 0, sql_user = blank, sql_passwd = blank,
     sql_name = blank, m_response_json = [], m_response_csv = [], m_cookie = []\<rparr>"

section \<open>The reading side of a connection: its invariant\<close>

text \<open>
  \<open>m_start_line \<le> m_checked_idx \<le> m_read_idx \<le> READ_BUFFER_SIZE\<close>: the bytes up to \<open>m_checked_idx\<close>
  have been scanned, those up to \<open>m_read_idx\<close> have been received.
\<close>

definition read_inv :: "http_conn \<Rightarrow> bool" where
  "read_inv c \<longleftrightarrow> 0 \<le> m_start_line c \<and> m_start_line c \<le> m_checked_idx c
     \<and> m_checked_idx c \<le> m_read_idx c \<and> m_read_idx c \<le> READ_BUFFER_SIZE"

lemma read_inv_init [inv_intros, simp]: "read_inv (init c)"
  by (simp add: read_inv_def init_def READ_BUFFER_SIZE_def)

lemma init_frames [frames]:
  "m_sockfd (init c) = m_sockfd c" "m_TRIGMode (init c) = m_TRIGMode c"
  "doc_root (init c) = doc_root c" "m_file_address (init c) = m_file_address c"
  "m_string (init c) = m_string c"
  by (simp_all add: init_def)

text \<open>Closing twice closes once: the second call finds \<open>m_sockfd = -1\<close>.\<close>

lemma close_conn_idempotent:
  "close_conn k c b = (k', c') \<Longrightarrow> b \<Longrightarrow> close_conn k' c' b' = (k', c')"
  by (auto simp: close_conn_def Let_def split: if_splits)

end
