(* ===== verification/Http_Parse.thy ===== *)
theory Http_Parse
  imports Http_Conn
begin

text \<open>
  The reading side of \<open>http_conn\<close> (\<open>http/http_conn.cpp\<close>): \<open>read_once\<close>, the line scanner
  \<open>parse_line\<close>, the parsers of the request line, of a header and of the body, and the loop of
  \<open>process_read\<close>.

  The loop ends either with a code or with the call \<open>return do_request()\<close>: \<open>read_loop\<close> returns
  \<open>Return code\<close> or \<open>Dispatch\<close>, and \<open>process_read\<close> (theory \<open>Http_Process\<close>) makes that call.
  The calls of \<open>LOG_INFO\<close> leave the connection as it is and are left out here.
\<close>

section \<open>Receiving\<close>

text \<open>
  What one \<open>recv\<close> of a non-blocking socket delivers: bytes (none when the peer has closed), or
  an error. A script of results stands for the kernel; when it is used up there is nothing more
  to read and \<open>recv\<close> fails with \<open>EAGAIN\<close>. \<open>recv\<close> delivers at most as many bytes as asked for.
\<close>

datatype recv_result = Recv string | Recv_EAGAIN | Recv_Error

definition store :: "http_conn \<Rightarrow> string \<Rightarrow> http_conn" where
  "store c s = c\<lparr>m_read_buf := put (m_read_buf c) (m_read_idx c) s,
                 m_read_idx := m_read_idx c + int (length s)\<rparr>"

definition recv_asked :: "http_conn \<Rightarrow> nat" where
  "recv_asked c = nat (READ_BUFFER_SIZE - m_read_idx c)"

fun read_once_et :: "http_conn \<Rightarrow> recv_result list \<Rightarrow> http_conn \<times> bool" where
  "read_once_et c [] = (c, True)"
| "read_once_et c (Recv_EAGAIN # rs) = (c, True)"
| "read_once_et c (Recv_Error # rs) = (c, False)"
| "read_once_et c (Recv s # rs) =
     (let b = take (recv_asked c) s
      in if b = [] then (c, False) else read_once_et (store c b) rs)"

fun read_once_lt :: "http_conn \<Rightarrow> recv_result list \<Rightarrow> http_conn \<times> bool" where
  "read_once_lt c (Recv s # rs) =
     (let b = take (recv_asked c) s
      in (store c b, b \<noteq> []))"
| "read_once_lt c rs = (c\<lparr>m_read_idx := m_read_idx c - 1\<rparr>, False)"

definition read_once :: "http_conn \<Rightarrow> recv_result list \<Rightarrow> http_conn \<times> bool" where
  "read_once c rs =
     (if m_read_idx c \<ge> READ_BUFFER_SIZE then (c, False)
      else if 0 = m_TRIGMode c then read_once_lt c rs
      else read_once_et c rs)"

section \<open>Lines\<close>

abbreviation rdb :: "http_conn \<Rightarrow> int \<Rightarrow> char res" where
  "rdb c i \<equiv> rd READ_BUFFER_SIZE (m_read_buf c) i"

abbreviation wrb :: "http_conn \<Rightarrow> int \<Rightarrow> char \<Rightarrow> http_conn res" where
  "wrb c i x \<equiv> rbind (wr READ_BUFFER_SIZE (m_read_buf c) i x) (\<lambda>b. Inr (c\<lparr>m_read_buf := b\<rparr>))"

function parse_line :: "http_conn \<Rightarrow> (http_conn \<times> LINE_STATUS) res" where
  "parse_line c =
     (if m_checked_idx c < m_read_idx c
      then rbind (rdb c (m_checked_idx c)) (\<lambda>temp.
        if temp = CR then
          (if m_checked_idx c + 1 = m_read_idx c then Inr (c, LINE_OPEN)
           else rbind (rdb c (m_checked_idx c + 1)) (\<lambda>nx.
             if nx = LF then
               rbind (wrb c (m_checked_idx c) NUL) (\<lambda>c1.
               rbind (wrb c1 (m_checked_idx c + 1) NUL) (\<lambda>c2.
               Inr (c2\<lparr>m_checked_idx := m_checked_idx c + 2\<rparr>, LINE_OK)))
             else Inr (c, LINE_BAD)))
        else if temp = LF then
          (if m_checked_idx c > 1 then
             rbind (rdb c (m_checked_idx c - 1)) (\<lambda>pv.
             if pv = CR then
               rbind (wrb c (m_checked_idx c - 1) NUL) (\<lambda>c1.
               rbind (wrb c1 (m_checked_idx c) NUL) (\<lambda>c2.
               Inr (c2\<lparr>m_checked_idx := m_checked_idx c + 1\<rparr>, LINE_OK)))
             else Inr (c, LINE_BAD))
           else Inr (c, LINE_BAD))
        else parse_line (c\<lparr>m_checked_idx := m_checked_idx c + 1\<rparr>))
      else Inr (c, LINE_OPEN))"
  by pat_completeness auto
termination
  by (relation "measure (\<lambda>c. nat (m_read_idx c - m_checked_idx c))") auto

declare parse_line.simps [simp del]

definition get_line :: "http_conn \<Rightarrow> int" where
  "get_line c = m_start_line c"

section \<open>The request line\<close>

abbreviation BLANKS :: string where "BLANKS \<equiv> [SPC, TAB]"

text \<open>Cutting the method off the line (up to \<open>cgi = 1\<close>); \<open>None\<close> is \<open>return BAD_REQUEST\<close>.\<close>

definition request_method :: "http_conn \<Rightarrow> int \<Rightarrow> (http_conn \<times> int option) res" where
  "request_method c text =
     rbind (strpbrk READ_BUFFER_SIZE (m_read_buf c) text BLANKS) (\<lambda>u. case u of
       None \<Rightarrow> Inr (c\<lparr>m_url := None\<rparr>, None)
     | Some u \<Rightarrow>
        rbind (wrb c u NUL) (\<lambda>c1.
        let c2 = c1\<lparr>m_url := Some (u + 1)\<rparr> in
        rbind (strcasecmp READ_BUFFER_SIZE (m_read_buf c2) text ''GET'') (\<lambda>is_get.
        if is_get then Inr (c2\<lparr>m_method := GET\<rparr>, Some (u + 1))
        else rbind (strcasecmp READ_BUFFER_SIZE (m_read_buf c2) text ''POST'') (\<lambda>is_post.
        if is_post then Inr (c2\<lparr>m_method := POST, cgi := 1\<rparr>, Some (u + 1))
        else Inr (c2, None)))))"

text \<open>Separating the URL from the version and checking the version.\<close>

definition request_version :: "http_conn \<Rightarrow> int \<Rightarrow> (http_conn \<times> int option) res" where
  "request_version c u =
     rbind (strspn READ_BUFFER_SIZE (m_read_buf c) u BLANKS) (\<lambda>k.
     let url = u + k; c1 = c\<lparr>m_url := Some url\<rparr> in
     rbind (strpbrk READ_BUFFER_SIZE (m_read_buf c1) url BLANKS) (\<lambda>v. case v of
       None \<Rightarrow> Inr (c1\<lparr>m_version := None\<rparr>, None)
     | Some v \<Rightarrow>
        rbind (wrb c1 v NUL) (\<lambda>c2.
        rbind (strspn READ_BUFFER_SIZE (m_read_buf c2) (v + 1) BLANKS) (\<lambda>k2.
        let c3 = c2\<lparr>m_version := Some (v + 1 + k2)\<rparr> in
        rbind (strcasecmp READ_BUFFER_SIZE (m_read_buf c3) (v + 1 + k2) ''HTTP/1.1'') (\<lambda>ok.
        Inr (c3, if ok then Some url else None))))))"

text \<open>
  \<open>if (strncasecmp(m_url, scheme, k) == 0) { m_url += k; m_url = strchr(m_url, '/'); }\<close>.
  \<open>strncasecmp\<close> dereferences its argument, so a null \<open>m_url\<close> is undefined behaviour.
\<close>

definition strip_scheme :: "http_conn \<Rightarrow> string \<Rightarrow> http_conn res" where
  "strip_scheme c scheme =
     (case m_url c of
        None \<Rightarrow> Inl Null_Deref
      | Some u \<Rightarrow>
          rbind (strncasecmp READ_BUFFER_SIZE (m_read_buf c) u scheme) (\<lambda>m.
          if m then
            rbind (strchr READ_BUFFER_SIZE (m_read_buf c) (u + int (length scheme)) (CHR ''/''))
              (\<lambda>r. Inr (c\<lparr>m_url := r\<rparr>))
          else Inr c))"

definition parse_request_line :: "http_conn \<Rightarrow> int \<Rightarrow> (http_conn \<times> HTTP_CODE) res" where
  "parse_request_line c text =
     rbind (request_method c text) (\<lambda>(c1, r1). case r1 of
       None \<Rightarrow> Inr (c1, BAD_REQUEST)
     | Some u \<Rightarrow>
        rbind (request_version c1 u) (\<lambda>(c2, r2). case r2 of
          None \<Rightarrow> Inr (c2, BAD_REQUEST)
        | Some _ \<Rightarrow>
           rbind (strip_scheme c2 ''http://'') (\<lambda>c3.
           rbind (strip_scheme c3 ''https://'') (\<lambda>c4.
           case m_url c4 of
             None \<Rightarrow> Inr (c4, BAD_REQUEST)
           | Some url \<Rightarrow>
              rbind (rdb c4 url) (\<lambda>ch.
              if ch \<noteq> CHR ''/'' then Inr (c4, BAD_REQUEST)
              else Inr (c4\<lparr>m_check_state := CHECK_STATE_HEADER\<rparr>, NO_REQUEST))))))"

section \<open>Headers and body\<close>

abbreviation hdr_is :: "http_conn \<Rightarrow> int \<Rightarrow> string \<Rightarrow> bool res" where
  "hdr_is c text name \<equiv> strncasecmp READ_BUFFER_SIZE (m_read_buf c) text name"

text \<open>\<open>text += k; text += strspn(text, " \t")\<close>, and the string that is there.\<close>

definition hdr_value :: "http_conn \<Rightarrow> int \<Rightarrow> string \<Rightarrow> (int \<times> string) res" where
  "hdr_value c text name =
     rbind (strspn READ_BUFFER_SIZE (m_read_buf c) (text + int (length name)) BLANKS) (\<lambda>k.
     let t = text + int (length name) + k in
     rbind (c_str READ_BUFFER_SIZE (m_read_buf c) t) (\<lambda>s. Inr (t, s)))"

definition parse_headers :: "http_conn \<Rightarrow> int \<Rightarrow> (http_conn \<times> HTTP_CODE) res" where
  "parse_headers c text =
     rbind (rdb c text) (\<lambda>c0.
     if c0 = NUL then
       (if m_content_length c \<noteq> 0
        then Inr (c\<lparr>m_check_state := CHECK_STATE_CONTENT\<rparr>, NO_REQUEST)
        else Inr (c, GET_REQUEST))
     else rbind (hdr_is c text ''Connection:'') (\<lambda>b.
     if b then rbind (hdr_value c text ''Connection:'') (\<lambda>(t, s).
       if casecmp_eq s ''keep-alive'' then Inr (c\<lparr>m_linger := True\<rparr>, NO_REQUEST)
       else Inr (c, NO_REQUEST))
     else rbind (hdr_is c text ''Content-length:'') (\<lambda>b.
     if b then rbind (hdr_value c text ''Content-length:'') (\<lambda>(t, s).
       Inr (c\<lparr>m_content_length := to_int32 (atol s)\<rparr>, NO_REQUEST))
     else rbind (hdr_is c text ''Host:'') (\<lambda>b.
     if b then rbind (hdr_value c text ''Host:'') (\<lambda>(t, s).
       Inr (c\<lparr>m_host := Some t\<rparr>, NO_REQUEST))
     else rbind (hdr_is c text ''Cookie:'') (\<lambda>b.
     if b then rbind (hdr_value c text ''Cookie:'') (\<lambda>(t, s).
       Inr (c\<lparr>m_cookie := s\<rparr>, NO_REQUEST))
     else Inr (c, NO_REQUEST))))))"

definition parse_content :: "http_conn \<Rightarrow> int \<Rightarrow> (http_conn \<times> HTTP_CODE) res" where
  "parse_content c text =
     rbind (int_add (m_content_length c) (m_checked_idx c)) (\<lambda>need.
     if m_read_idx c \<ge> need then
       rbind (wrb c (text + m_content_length c) NUL) (\<lambda>c1.
       Inr (c1\<lparr>m_string := Some text\<rparr>, GET_REQUEST))
     else Inr (c, NO_REQUEST))"

section \<open>The loop of process_read\<close>

lemma parse_line_frame:
  "parse_line c = Inr (c1, st) \<Longrightarrow>
   c1 = c\<lparr>m_read_buf := m_read_buf c1, m_checked_idx := m_checked_idx c1\<rparr>
   \<and> m_checked_idx c \<le> m_checked_idx c1
   \<and> (st = LINE_OK \<longrightarrow> m_checked_idx c < m_checked_idx c1 \<and> m_checked_idx c1 \<le> m_read_idx c)"
proof (induction c arbitrary: c1 st rule: parse_line.induct)
  case (1 c)
  let ?x = "m_read_buf c (m_checked_idx c)" and ?n = "c\<lparr>m_checked_idx := m_checked_idx c + 1\<rparr>"
  show ?case
  proof (cases "m_checked_idx c < m_read_idx c \<and> is_ok (rdb c (m_checked_idx c)) \<and> ?x \<noteq> CR \<and> ?x \<noteq> LF")
    case True
    then have "parse_line c = parse_line ?n"
      by (simp add: parse_line.simps [of c] is_ok_iff rd_ok)
    with "1.prems" have n: "parse_line ?n = Inr (c1, st)" by simp
    from True "1.IH" [OF _ _ _ _ n, of ?x] show ?thesis
      by (simp add: is_ok_iff rd_ok)
  next
    case False
    with "1.prems" show ?thesis
      by (auto simp: parse_line.simps [of c] is_ok_iff elim!: rbindE split: if_splits)
  qed
qed

lemma parse_line_frames [frames]:
  assumes "parse_line c = Inr (c1, st)"
  shows "m_read_idx c1 = m_read_idx c" and "m_start_line c1 = m_start_line c"
    and "m_check_state c1 = m_check_state c" and "m_checked_idx c \<le> m_checked_idx c1"
    and "st = LINE_OK \<Longrightarrow> m_checked_idx c < m_checked_idx c1 \<and> m_checked_idx c1 \<le> m_read_idx c1"
proof -
  define b k where "b = m_read_buf c1" and "k = m_checked_idx c1"
  with parse_line_frame [OF assms] have "c1 = c\<lparr>m_read_buf := b, m_checked_idx := k\<rparr>"
    and *: "m_checked_idx c \<le> k" "st = LINE_OK \<longrightarrow> m_checked_idx c < k \<and> k \<le> m_read_idx c"
    by simp_all
  then show "m_read_idx c1 = m_read_idx c" "m_start_line c1 = m_start_line c"
    "m_check_state c1 = m_check_state c" "m_checked_idx c \<le> m_checked_idx c1"
    "st = LINE_OK \<Longrightarrow> m_checked_idx c < m_checked_idx c1 \<and> m_checked_idx c1 \<le> m_read_idx c1"
    by simp_all
qed

text \<open>The parsers of a line move none of the three positions.\<close>

definition same_pos :: "http_conn \<Rightarrow> http_conn \<Rightarrow> bool" where
  "same_pos c c1 \<longleftrightarrow> m_read_idx c1 = m_read_idx c \<and> m_checked_idx c1 = m_checked_idx c
     \<and> m_start_line c1 = m_start_line c"

lemma same_pos_trans: "same_pos a b \<Longrightarrow> same_pos b c \<Longrightarrow> same_pos a c"
  by (simp add: same_pos_def)

lemma request_method_pos [frames]: "request_method c text = Inr (c1, r) \<Longrightarrow> same_pos c c1"
  by (auto simp: request_method_def same_pos_def Let_def elim!: rbindE split: option.splits if_splits)

lemma request_version_pos [frames]: "request_version c u = Inr (c1, r) \<Longrightarrow> same_pos c c1"
  by (auto simp: request_version_def same_pos_def Let_def elim!: rbindE split: option.splits)

lemma strip_scheme_pos [frames]: "strip_scheme c sch = Inr c1 \<Longrightarrow> same_pos c c1"
  by (auto simp: strip_scheme_def same_pos_def elim!: rbindE split: option.splits if_splits)

lemma parse_request_line_cases:
  assumes "parse_request_line c text = Inr (c', r)"
  obtains (no_method) "request_method c text = Inr (c', None)" and "r = BAD_REQUEST"
  | (no_version) c1 u where "request_method c text = Inr (c1, Some u)"
      and "request_version c1 u = Inr (c', None)" and "r = BAD_REQUEST"
  | (no_path) c1 u c2 v c3 where "request_method c text = Inr (c1, Some u)"
      and "request_version c1 u = Inr (c2, Some v)" and "strip_scheme c2 ''http://'' = Inr c3"
      and "strip_scheme c3 ''https://'' = Inr c'" and "r = BAD_REQUEST"
  | (path) c1 u c2 v c3 c4 url where "request_method c text = Inr (c1, Some u)"
      and "request_version c1 u = Inr (c2, Some v)" and "strip_scheme c2 ''http://'' = Inr c3"
      and "strip_scheme c3 ''https://'' = Inr c4" and "m_url c4 = Some url"
      and "m_read_buf c4 url = CHR ''/''" and "0 \<le> url" and "url < READ_BUFFER_SIZE"
      and "c' = c4\<lparr>m_check_state := CHECK_STATE_HEADER\<rparr>" and "r = NO_REQUEST"
proof -
  from assms obtain c1 r1 where m: "request_method c text = Inr (c1, r1)"
    by (auto simp: parse_request_line_def rbind_eq_Inr)
  show thesis
  proof (cases r1)
    case None
    with m assms show ?thesis by (auto simp: parse_request_line_def intro: no_method)
  next
    case (Some u)
    with m assms obtain c2 r2 where v: "request_version c1 u = Inr (c2, r2)"
      by (auto simp: parse_request_line_def rbind_eq_Inr)
    show ?thesis
    proof (cases r2)
      case None
      with m v Some assms show ?thesis by (auto simp: parse_request_line_def intro: no_version)
    next
      case v2: (Some v)
      with m v Some assms obtain c3 c4 where s: "strip_scheme c2 ''http://'' = Inr c3"
          "strip_scheme c3 ''https://'' = Inr c4"
        by (auto simp: parse_request_line_def rbind_eq_Inr)
      with m v v2 Some assms show ?thesis
        by (auto simp: parse_request_line_def rbind_eq_Inr split: option.splits if_splits
            intro: no_path path)
    qed
  qed
qed

lemma parse_request_line_pos [frames]: "parse_request_line c text = Inr (c1, r) \<Longrightarrow> same_pos c c1"
  by (erule parse_request_line_cases)
    (auto dest!: request_method_pos request_version_pos strip_scheme_pos simp: same_pos_def)

lemma parse_headers_pos [frames]:
  "parse_headers c text = Inr (c1, r) \<Longrightarrow> same_pos c c1 \<and> m_read_buf c1 = m_read_buf c"
  unfolding parse_headers_def
  by (auto simp: same_pos_def elim!: rbindE split: if_splits)

lemma parse_content_pos [frames]:
  "parse_content c text = Inr (c1, r) \<Longrightarrow> same_pos c c1 \<and> m_check_state c1 = m_check_state c"
  by (auto simp: parse_content_def same_pos_def elim!: rbindE split: if_splits)

datatype read_result = Return HTTP_CODE | Dispatch

text \<open>
  The loop's condition: \<open>(m_check_state == CHECK_STATE_CONTENT && line_status == LINE_OK) ||
  (line_status = parse_line()) == LINE_OK\<close>, whose first half skips the scanner.
\<close>

definition loop_guard :: "http_conn \<Rightarrow> LINE_STATUS \<Rightarrow> (http_conn \<times> LINE_STATUS) res" where
  "loop_guard c line_status =
     (if m_check_state c = CHECK_STATE_CONTENT \<and> line_status = LINE_OK then Inr (c, LINE_OK)
      else parse_line c)"

function read_loop :: "http_conn \<Rightarrow> LINE_STATUS \<Rightarrow> (http_conn \<times> read_result) res" where
  "read_loop c line_status =
     rbind (loop_guard c line_status) (\<lambda>r.
     if snd r \<noteq> LINE_OK then Inr (fst r, Return NO_REQUEST)
     else
       let text = get_line (fst r); c1 = (fst r)\<lparr>m_start_line := m_checked_idx (fst r)\<rparr> in
       (case m_check_state c1 of
          CHECK_STATE_REQUESTLINE \<Rightarrow>
            rbind (parse_request_line c1 text) (\<lambda>p.
            if snd p = BAD_REQUEST then Inr (fst p, Return BAD_REQUEST)
            else read_loop (fst p) LINE_OK)
        | CHECK_STATE_HEADER \<Rightarrow>
            rbind (parse_headers c1 text) (\<lambda>p.
            if snd p = BAD_REQUEST then Inr (fst p, Return BAD_REQUEST)
            else if snd p = GET_REQUEST then Inr (fst p, Dispatch)
            else read_loop (fst p) LINE_OK)
        | CHECK_STATE_CONTENT \<Rightarrow>
            rbind (parse_content c1 text) (\<lambda>p.
            if snd p = GET_REQUEST then Inr (fst p, Dispatch)
            else read_loop (fst p) LINE_OPEN)))"
  by pat_completeness auto
termination
proof (relation "measures [\<lambda>(c, ls). nat (m_read_idx c - m_checked_idx c),
      \<lambda>(c, ls). if ls = LINE_OK then 1 else 0]", goal_cases)
  case 1
  show ?case by simp
next
  case (2 c ls r t c1 p)
  then have "parse_line c = Inr (fst r, LINE_OK)"
    by (cases r) (auto simp: loop_guard_def split: if_splits)
  from parse_line_frames [OF this] 2 show ?case
    by (cases p) (auto dest!: parse_request_line_pos simp: same_pos_def)
next
  case (3 c ls r t c1 p)
  then have "parse_line c = Inr (fst r, LINE_OK)"
    by (cases r) (auto simp: loop_guard_def split: if_splits)
  from parse_line_frames [OF this] 3 show ?case
    by (cases p) (auto dest!: parse_headers_pos simp: same_pos_def)
next
  case (4 c ls r t c1 p)
  from 4 have p: "same_pos c1 (fst p)" by (cases p) (auto dest: parse_content_pos)
  show ?case
  proof (cases "m_check_state c = CHECK_STATE_CONTENT \<and> ls = LINE_OK")
    case True
    with 4 p show ?thesis by (cases r) (auto simp: loop_guard_def same_pos_def)
  next
    case False
    with 4 have "parse_line c = Inr (fst r, LINE_OK)"
      by (cases r) (auto simp: loop_guard_def split: if_splits)
    from parse_line_frames [OF this] 4 p show ?thesis by (auto simp: same_pos_def)
  qed
qed

declare read_loop.simps [simp del]

section \<open>The line scanner against a reference on strings\<close>

text \<open>
  \<open>scan_line s\<close> is what \<open>parse_line\<close> should find in the unscanned bytes \<open>s\<close>: how many of
  them it passes and with which status.
\<close>

fun scan_line :: "string \<Rightarrow> nat \<times> LINE_STATUS" where
  "scan_line [] = (0, LINE_OPEN)"
| "scan_line [x] =
     (if x = CR then (0, LINE_OPEN) else if x = LF then (0, LINE_BAD) else (1, LINE_OPEN))"
| "scan_line (x # y # s) =
     (if x = CR then (if y = LF then (2, LINE_OK) else (0, LINE_BAD))
      else if x = LF then (0, LINE_BAD)
      else (case scan_line (y # s) of (k, st) \<Rightarrow> (Suc k, st)))"

definition pending :: "http_conn \<Rightarrow> string" where
  "pending c = get (m_read_buf c) (m_checked_idx c) (nat (m_read_idx c - m_checked_idx c))"

text \<open>
  The scanner's invariant: besides \<open>read_inv\<close>, the last scanned byte is not a carriage return
  (the scanner stops in front of one).
\<close>

definition line_inv :: "http_conn \<Rightarrow> bool" where
  "line_inv c \<longleftrightarrow> read_inv c \<and> (0 < m_checked_idx c \<longrightarrow> m_read_buf c (m_checked_idx c - 1) \<noteq> CR)"

definition after_line :: "http_conn \<Rightarrow> nat \<times> LINE_STATUS \<Rightarrow> http_conn \<times> LINE_STATUS" where
  "after_line c r = (case r of (k, st) \<Rightarrow>
     if st = LINE_OK
     then (c\<lparr>m_read_buf := put (m_read_buf c) (m_checked_idx c + int k - 2) [NUL, NUL],
             m_checked_idx := m_checked_idx c + int k\<rparr>, st)
     else (c\<lparr>m_checked_idx := m_checked_idx c + int k\<rparr>, st))"

lemma pending_Nil: "m_read_idx c \<le> m_checked_idx c \<Longrightarrow> pending c = []"
  by (simp add: pending_def)

lemma pending_Cons:
  assumes "m_checked_idx c < m_read_idx c"
  shows "pending c = m_read_buf c (m_checked_idx c) # pending (c\<lparr>m_checked_idx := m_checked_idx c + 1\<rparr>)"
proof -
  have "nat (m_read_idx c - m_checked_idx c) = Suc (nat (m_read_idx c - (m_checked_idx c + 1)))"
    using assms by simp
  then show ?thesis by (simp add: pending_def get_Suc)
qed

lemma length_pending: "length (pending c) = nat (m_read_idx c - m_checked_idx c)"
  by (simp add: pending_def)

lemma put_two: "put a i [x, y] = a(i := x, i + 1 := y)"
proof
  fix k
  consider "k = i" | "k = i + 1" | "k < i \<or> i + 2 \<le> k" by linarith
  then show "put a i [x, y] k = (a(i := x, i + 1 := y)) k"
    by cases (auto simp: put_def)
qed

lemma line_inv_first:
  "line_inv c \<Longrightarrow> m_checked_idx c < m_read_idx c \<Longrightarrow>
   0 \<le> m_checked_idx c \<and> m_checked_idx c < READ_BUFFER_SIZE \<and> m_read_idx c \<le> READ_BUFFER_SIZE"
  by (auto simp: line_inv_def read_inv_def)

theorem parse_line_scan:
  assumes "line_inv c"
  shows "parse_line c = Inr (after_line c (scan_line (pending c)))"
  using assms
proof (induction c rule: parse_line.induct)
  case (1 c)
  let ?x = "m_read_buf c (m_checked_idx c)" and ?c1 = "c\<lparr>m_checked_idx := m_checked_idx c + 1\<rparr>"
  show ?case
  proof (cases "m_checked_idx c < m_read_idx c")
    case False
    then show ?thesis by (simp add: parse_line.simps [of c] pending_Nil after_line_def)
  next
    case lt: True
    note bounds = line_inv_first [OF "1.prems" lt]
    have LF_bad: "?x = LF \<Longrightarrow> m_checked_idx c > 1 \<Longrightarrow> m_read_buf c (m_checked_idx c - 1) \<noteq> CR"
      using "1.prems" by (simp add: line_inv_def)
    show ?thesis
    proof (cases "?x = CR \<or> ?x = LF")
      case True
      then show ?thesis
      proof (cases "m_checked_idx c + 1 = m_read_idx c")
        case True
        then show ?thesis using bounds lt LF_bad \<open>?x = CR \<or> ?x = LF\<close>
          by (auto simp: parse_line.simps [of c] pending_Cons [OF lt] pending_Nil rd_ok after_line_def)
      next
        case False
        with lt have lt1: "m_checked_idx ?c1 < m_read_idx ?c1" by simp
        show ?thesis using bounds lt lt1 LF_bad \<open>?x = CR \<or> ?x = LF\<close> False
          by (auto simp: parse_line.simps [of c] pending_Cons [OF lt] pending_Cons [OF lt1] rd_ok wr_ok
              after_line_def put_two)
      qed
    next
      case False
      have "line_inv ?c1" using "1.prems" lt False by (simp add: line_inv_def read_inv_def)
      with "1.IH" [OF lt _] False bounds
      have IH: "parse_line ?c1 = Inr (after_line ?c1 (scan_line (pending ?c1)))" by (simp add: rd_ok)
      have step: "parse_line c = parse_line ?c1"
        using False lt bounds by (simp add: parse_line.simps [of c] rd_ok)
      have "scan_line (pending c) = (case scan_line (pending ?c1) of (k, st) \<Rightarrow> (Suc k, st))"
        using False by (cases "pending ?c1") (simp_all add: pending_Cons [OF lt])
      then show ?thesis
        unfolding step IH by (cases "scan_line (pending ?c1)") (simp add: after_line_def algebra_simps)
    qed
  qed
qed

text \<open>What \<open>scan_line\<close> does, by the first line end of the string.\<close>

definition no_eol :: "string \<Rightarrow> bool" where
  "no_eol s \<longleftrightarrow> CR \<notin> set s \<and> LF \<notin> set s"

lemma no_eol_simps [simp]:
  "no_eol []" "no_eol (x # s) \<longleftrightarrow> x \<noteq> CR \<and> x \<noteq> LF \<and> no_eol s" "no_eol (s @ t) \<longleftrightarrow> no_eol s \<and> no_eol t"
  by (auto simp: no_eol_def)

lemma scan_line_Cons:
  "x \<noteq> CR \<Longrightarrow> x \<noteq> LF \<Longrightarrow> scan_line (x # s) = (case scan_line s of (k, st) \<Rightarrow> (Suc k, st))"
  by (cases s) simp_all

lemma scan_line_no_eol: "no_eol s \<Longrightarrow> scan_line s = (length s, LINE_OPEN)"
  by (induction s) (simp_all add: scan_line_Cons)

lemma scan_line_skip:
  "no_eol l \<Longrightarrow> scan_line (l @ s) = (case scan_line s of (k, st) \<Rightarrow> (length l + k, st))"
  by (induction l) (simp_all add: scan_line_Cons split: prod.splits)

lemma scan_line_eol: "no_eol l \<Longrightarrow> scan_line (l @ CR # LF # s) = (length l + 2, LINE_OK)"
  by (simp add: scan_line_skip)

lemma scan_line_cases [case_names none ok split bad]:
  obtains "no_eol s" and "scan_line s = (length s, LINE_OPEN)"
  | l t where "s = l @ CR # LF # t" and "no_eol l" and "scan_line s = (length l + 2, LINE_OK)"
  | l where "s = l @ [CR]" and "no_eol l" and "scan_line s = (length l, LINE_OPEN)"
  | l x t where "s = l @ x # t" and "no_eol l" and "scan_line s = (length l, LINE_BAD)"
      and "x = LF \<or> x = CR \<and> t \<noteq> [] \<and> hd t \<noteq> LF"
proof (cases rule: split_first_cases [of s "\<lambda>x. x = CR \<or> x = LF"])
  case none
  then have "no_eol s" by (auto simp: no_eol_def)
  then show ?thesis using that(1) scan_line_no_eol by blast
next
  case (some l x t)
  then have l: "no_eol l" by (auto simp: no_eol_def)
  show ?thesis
  proof (cases "x = LF \<or> t = []")
    case True
    have "scan_line (x # t) = (0, if x = LF then LINE_BAD else LINE_OPEN)"
      using some(2) True by (cases t) auto
    with l some(1) have "scan_line s = (length l, if x = LF then LINE_BAD else LINE_OPEN)"
      by (simp add: scan_line_skip)
    with some(1,2) l True that(3) [of l] that(4) [of l x t] show ?thesis
      by (cases "x = LF") simp_all
  next
    case False
    with some(2) have x: "x = CR" by simp
    from False obtain y u where t: "t = y # u" by (cases t) auto
    have "scan_line s = (if y = LF then (length l + 2, LINE_OK) else (length l, LINE_BAD))"
      using l x t some(1) by (simp add: scan_line_skip)
    with some(1) l x t that(2) [of l u] that(4) [of l x t] show ?thesis
      by (cases "y = LF") simp_all
  qed
qed

text \<open>Scanning can stop anywhere short of a line end and resume when more bytes have come.\<close>

lemma scan_line_ok_append: "scan_line s = (k, LINE_OK) \<Longrightarrow> scan_line (s @ t) = (k, LINE_OK)"
  by (cases s rule: scan_line_cases) (auto simp: scan_line_eol)

lemma scan_line_resume:
  assumes "scan_line s = (k, st)" and "st \<noteq> LINE_OK"
  shows "k \<le> length s"
    and "scan_line (s @ t) = (case scan_line (drop k s @ t) of (j, st') \<Rightarrow> (k + j, st'))"
  using assms by (cases s rule: scan_line_cases; auto simp: scan_line_skip)+

lemma scan_line_bound: "scan_line s = (k, st) \<Longrightarrow> k \<le> length s"
  by (cases s rule: scan_line_cases) auto

lemma scan_line_passed: "scan_line s = (k, st) \<Longrightarrow> st \<noteq> LINE_OK \<Longrightarrow> no_eol (take k s)"
  by (cases s rule: scan_line_cases) auto

end
