(* ===== verification/Http_Request.thy ===== *)
theory Http_Request
  imports Http_Parse
begin

text \<open>
  What the parsers of \<open>Http_Parse\<close> compute, in terms of the strings in the buffer: each parser
  on a NUL-terminated line, the whole loop on a request as a client writes it, and the loop on a
  request that arrives in several segments.
\<close>

abbreviation N :: int where "N \<equiv> READ_BUFFER_SIZE"

definition no_blank :: "string \<Rightarrow> bool" where
  "no_blank s \<longleftrightarrow> SPC \<notin> set s \<and> TAB \<notin> set s"

definition all_blank :: "string \<Rightarrow> bool" where
  "all_blank s \<longleftrightarrow> set s \<subseteq> {SPC, TAB}"

lemma strpbrk_blank_none:
  assumes "c_str N a t = Inr s" and "no_blank s"
  shows "strpbrk N a t BLANKS = Inr None"
proof -
  have "takeWhile (\<lambda>c. c \<notin> set BLANKS) s = s"
    using assms(2) by (intro takeWhile_id) (auto simp: no_blank_def)
  then show ?thesis unfolding strpbrk_c_str [OF assms(1)] by (simp only: Let_def) simp
qed

lemma strpbrk_blank_some:
  assumes "c_str N a t = Inr (m @ b # r)" and "no_blank m" and "b = SPC \<or> b = TAB"
  shows "strpbrk N a t BLANKS = Inr (Some (t + int (length m)))"
proof -
  have "takeWhile (\<lambda>c. c \<notin> set BLANKS) (m @ b # r) = m"
    using assms(2,3) by (intro takeWhile_split) (auto simp: no_blank_def)
  then show ?thesis unfolding strpbrk_c_str [OF assms(1)] by (simp only: Let_def) simp
qed

lemma strspn_blank:
  assumes "c_str N a t = Inr (bl @ s)" and "all_blank bl" and "s = [] \<or> hd s \<notin> set BLANKS"
  shows "strspn N a t BLANKS = Inr (int (length bl))"
proof -
  have bl: "\<forall>c \<in> set bl. c \<in> set BLANKS" using assms(2) by (auto simp: all_blank_def)
  have "takeWhile (\<lambda>c. c \<in> set BLANKS) (bl @ s) = bl"
  proof (cases s)
    case Nil
    with bl show ?thesis by (metis append_Nil2 takeWhile_id)
  next
    case (Cons x xs)
    with bl assms(3) show ?thesis by (metis list.sel(1) list.distinct(1) takeWhile_split)
  qed
  with assms(1) show ?thesis unfolding strspn_c_str [OF assms(1)] by simp
qed

lemma blank_split:
  obtains "no_blank s"
  | pre b post where "s = pre @ b # post" and "no_blank pre" and "b = SPC \<or> b = TAB"
  by (cases rule: split_first_cases [of s "\<lambda>c. c = SPC \<or> c = TAB"]) (auto simp: no_blank_def)

lemma leading_blanks:
  obtains bl t where "s = bl @ t" and "all_blank bl" and "t = [] \<or> hd t \<notin> set BLANKS"
proof -
  let ?P = "\<lambda>c. c \<in> set BLANKS"
  have "s = takeWhile ?P s @ dropWhile ?P s" by (simp only: takeWhile_dropWhile_id)
  moreover have "all_blank (takeWhile ?P s)"
    unfolding all_blank_def by (auto dest: set_takeWhileD)
  moreover have "dropWhile ?P s = [] \<or> hd (dropWhile ?P s) \<notin> set BLANKS"
    using hd_dropWhile [of ?P s] by blast
  ultimately show thesis by (rule that)
qed

lemma hd_no_blank: "no_blank s \<Longrightarrow> s = [] \<or> hd s \<notin> set BLANKS"
  by (cases s) (auto simp: no_blank_def)

section \<open>The request line\<close>

text \<open>The three stages on the string at the cursor.\<close>

lemma request_method_none:
  assumes "c_str N (m_read_buf c) t = Inr s" and "no_blank s"
  shows "request_method c t = Inr (c\<lparr>m_url := None\<rparr>, None)"
  by (simp add: request_method_def strpbrk_blank_none [OF assms])

definition set_method :: "http_conn \<Rightarrow> string \<Rightarrow> http_conn option" where
  "set_method c m =
     (if casecmp_eq m ''GET'' then Some (c\<lparr>m_method := GET\<rparr>)
      else if casecmp_eq m ''POST'' then Some (c\<lparr>m_method := POST, cgi := 1\<rparr>)
      else None)"

lemma cut_string:
  assumes "c_str N a t = Inr (m @ b # r)"
  shows "0 \<le> t + int (length m)" and "t + int (length m) < N"
    and "c_str N (a(t + int (length m) := NUL)) t = Inr m"
    and "c_str N (a(t + int (length m) := NUL)) (t + int (length m) + 1) = Inr r"
proof -
  show "0 \<le> t + int (length m)" and "t + int (length m) < N"
    using c_str_end [OF assms] by simp_all
  show "c_str N (a(t + int (length m) := NUL)) t = Inr m"
    using c_str_cut [OF assms, of "length m"] by simp
  show "c_str N (a(t + int (length m) := NUL)) (t + int (length m) + 1) = Inr r"
    using c_str_drop [OF assms, of "Suc (length m)"] by (simp add: c_str_before algebra_simps)
qed

lemma request_method_some:
  assumes "c_str N (m_read_buf c) t = Inr (m @ b # r)" and "no_blank m" and "b = SPC \<or> b = TAB"
  defines "c2 \<equiv> c\<lparr>m_read_buf := (m_read_buf c)(t + int (length m) := NUL),
                   m_url := Some (t + int (length m) + 1)\<rparr>"
  shows "request_method c t = Inr (case set_method c2 m of
      Some c3 \<Rightarrow> (c3, Some (t + int (length m) + 1)) | None \<Rightarrow> (c2, None))"
proof -
  show ?thesis using cut_string [OF assms(1)]
    by (simp add: request_method_def strpbrk_blank_some [OF assms(1-3)] wr_ok strcasecmp_c_str
        set_method_def c2_def Let_def)
qed

lemma request_version_none:
  assumes "c_str N (m_read_buf c) u = Inr (bl @ s)" and "all_blank bl" and "no_blank s"
  shows "request_version c u = Inr (c\<lparr>m_url := Some (u + int (length bl)), m_version := None\<rparr>, None)"
proof -
  have "c_str N (m_read_buf c) (u + int (length bl)) = Inr s"
    using c_str_drop [OF assms(1), of "length bl"] by simp
  from strpbrk_blank_none [OF this assms(3)] show ?thesis
    by (simp add: request_version_def strspn_blank [OF assms(1,2) hd_no_blank [OF assms(3)]] Let_def)
qed

lemma request_version_some:
  assumes "c_str N (m_read_buf c) u = Inr (bl @ url @ b # bl2 @ ver)"
    and "all_blank bl" and "url \<noteq> []" and "no_blank url" and "b = SPC \<or> b = TAB"
    and "all_blank bl2" and "ver = [] \<or> hd ver \<notin> set BLANKS"
  defines "v \<equiv> u + int (length bl) + int (length url) + 1 + int (length bl2)"
  shows "request_version c u =
    Inr (c\<lparr>m_read_buf := (m_read_buf c)(u + int (length bl) + int (length url) := NUL),
           m_url := Some (u + int (length bl)), m_version := Some v\<rparr>,
         if casecmp_eq ver ''HTTP/1.1'' then Some (u + int (length bl)) else None)"
proof -
  let ?p = "u + int (length bl)"
  let ?a = "(m_read_buf c)(?p + int (length url) := NUL)"
  have "url @ b # bl2 @ ver = [] \<or> hd (url @ b # bl2 @ ver) \<notin> set BLANKS"
    using assms(3) hd_no_blank [OF assms(4)] by simp
  from strspn_blank [OF assms(1,2) this]
  have skip: "strspn N (m_read_buf c) u BLANKS = Inr (int (length bl))" .
  have s: "c_str N (m_read_buf c) ?p = Inr (url @ b # bl2 @ ver)"
    using c_str_drop [OF assms(1), of "length bl"] by simp
  note cut = cut_string [OF s]
  note pbrk = strpbrk_blank_some [OF s assms(4,5)]
  note skip2 = strspn_blank [OF cut(4) assms(6,7)]
  have "c_str N ?a v = Inr ver"
    using c_str_drop [OF cut(4), of "length bl2"] by (simp add: v_def algebra_simps)
  from strcasecmp_c_str [OF this] skip pbrk skip2 cut(1,2) show ?thesis
    unfolding v_def by (simp add: request_version_def wr_ok Let_def)
qed

lemma strip_scheme_str:
  assumes "m_url c = Some u" and "c_str N (m_read_buf c) u = Inr s"
  shows "strip_scheme c scheme = Inr
    (if casecmp_eq (take (length scheme) s) scheme
     then c\<lparr>m_url := (let r = drop (length scheme) s; k = length (takeWhile (\<lambda>x. x \<noteq> CHR ''/'') r)
                      in if k < length r then Some (u + int (length scheme) + int k) else None)\<rparr>
     else c)"
proof (cases "casecmp_eq (take (length scheme) s) scheme")
  case True
  then have "length scheme \<le> length s" using casecmp_eq_length by fastforce
  then have "c_str N (m_read_buf c) (u + int (length scheme)) = Inr (drop (length scheme) s)"
    by (rule c_str_drop [OF assms(2)])
  with assms True show ?thesis
    by (simp add: strip_scheme_def strncasecmp_c_str strchr_def strpbrk_c_str Let_def)
next
  case False
  with assms show ?thesis by (simp add: strip_scheme_def strncasecmp_c_str)
qed

text \<open>The whole request line, when it is well formed: both schemes absent.\<close>

lemma parse_request_line_ok:
  assumes line: "c_str N (m_read_buf c) t = Inr (m @ b # bl @ url @ b' # bl2 @ ver)"
    and m: "no_blank m" "b = SPC \<or> b = TAB" "set_method c m \<noteq> None"
    and url: "all_blank bl" "url \<noteq> []" "hd url = CHR ''/''" "no_blank url" "b' = SPC \<or> b' = TAB"
    and ver: "all_blank bl2" "ver = [] \<or> hd ver \<notin> set BLANKS" "casecmp_eq ver ''HTTP/1.1''"
  defines "u \<equiv> t + int (length m) + 1 + int (length bl)"
  shows "parse_request_line c t =
    Inr ((the (set_method c m))\<lparr>
      m_read_buf := (m_read_buf c)(t + int (length m) := NUL, u + int (length url) := NUL),
      m_url := Some u, m_version := Some (u + int (length url) + 1 + int (length bl2)),
      m_check_state := CHECK_STATE_HEADER\<rparr>, NO_REQUEST)"
proof -
  let ?c2 = "c\<lparr>m_read_buf := (m_read_buf c)(t + int (length m) := NUL),
                m_url := Some (t + int (length m) + 1)\<rparr>"
  obtain c3 where c3: "set_method ?c2 m = Some c3" and c3': "the (set_method c m) = c3\<lparr>m_read_buf := m_read_buf c, m_url := m_url c\<rparr>"
    using m(3) by (auto simp: set_method_def split: if_splits)
  have buf3: "m_read_buf c3 = (m_read_buf c)(t + int (length m) := NUL)"
    using c3 by (auto simp: set_method_def split: if_splits)
  note cut = cut_string [OF line]
  have s3: "c_str N (m_read_buf c3) (t + int (length m) + 1) = Inr (bl @ url @ b' # bl2 @ ver)"
    using cut(4) by (simp add: buf3)
  let ?c4 = "c3\<lparr>m_read_buf := (m_read_buf c3)(u + int (length url) := NUL),
    m_url := Some u, m_version := Some (u + int (length url) + 1 + int (length bl2))\<rparr>"
  have v: "request_version c3 (t + int (length m) + 1) = Inr (?c4, Some u)"
    using request_version_some [OF s3 url(1,2,4,5) ver(1,2)] ver(3) by (simp add: u_def)
  have "c_str N (m_read_buf c3) u = Inr (url @ b' # bl2 @ ver)"
    using c_str_drop [OF s3, of "length bl"] by (simp add: u_def)
  from cut_string(3) [OF this] have s4: "c_str N (m_read_buf ?c4) u = Inr url" by simp
  obtain url' where url': "url = CHR ''/'' # url'" using url(2,3) by (cases url) auto
  have strip: "strip_scheme ?c4 sch = Inr ?c4" if "sch \<noteq> []" "hd sch = CHR ''h''" for sch
    using strip_scheme_str [OF _ s4, of sch] that by (cases sch) (auto simp: url' casecmp_eq_def tolower_def)
  have "m_read_buf ?c4 u = CHR ''/''" "0 \<le> u" "u < N"
    using c_str_nth(1) [OF s4, of 0] c_str_end [OF s4] by (simp_all add: url')
  then show ?thesis
    using request_method_some [OF line m(1,2)] c3 v strip
    by (simp add: parse_request_line_def rd_ok c3' buf3)
qed

text \<open>
  Undefined behaviour: the only way for \<open>parse_request_line\<close> to go wrong on a line of the buffer
  is the second \<open>strncasecmp\<close> on the null pointer that \<open>strchr\<close> returned.
\<close>

lemma request_method_ok:
  assumes "c_str N (m_read_buf c) t = Inr s"
  shows "\<exists>c1 r. request_method c t = Inr (c1, r)
    \<and> (\<forall>u. r = Some u \<longrightarrow> (\<exists>s'. c_str N (m_read_buf c1) u = Inr s'))"
proof (cases rule: blank_split [of s])
  case 1
  with request_method_none [OF assms] show ?thesis by simp
next
  case (2 m b r)
  with assms have line: "c_str N (m_read_buf c) t = Inr (m @ b # r)" by simp
  let ?c2 = "c\<lparr>m_read_buf := (m_read_buf c)(t + int (length m) := NUL), m_url := Some (t + int (length m) + 1)\<rparr>"
  have "m_read_buf c3 = m_read_buf ?c2" if "set_method ?c2 m = Some c3" for c3
    using that by (auto simp: set_method_def split: if_splits)
  with request_method_some [OF line 2(2,3)] cut_string(4) [OF line] show ?thesis
    by (cases "set_method ?c2 m") auto
qed

lemma request_version_ok:
  assumes "c_str N (m_read_buf c) u = Inr s"
  shows "\<exists>c1 r. request_version c u = Inr (c1, r)
    \<and> (\<forall>v. r = Some v \<longrightarrow> m_url c1 = Some v \<and> (\<exists>s'. c_str N (m_read_buf c1) v = Inr s'))"
proof -
  obtain bl s1 where s: "s = bl @ s1" "all_blank bl" "s1 = [] \<or> hd s1 \<notin> set BLANKS"
    by (rule leading_blanks)
  show ?thesis
  proof (cases rule: blank_split [of s1])
    case 1
    with request_version_none [of c u bl s1] assms s show ?thesis by simp
  next
    case (2 url b r)
    obtain bl2 ver where r: "r = bl2 @ ver" "all_blank bl2" "ver = [] \<or> hd ver \<notin> set BLANKS"
      by (rule leading_blanks)
    from 2 s(3) have "url \<noteq> []" by auto
    with assms s 2 r have line: "c_str N (m_read_buf c) u = Inr (bl @ url @ b # bl2 @ ver)" by simp
    from cut_string(3) [of "m_read_buf c" "u + int (length bl)" url b "bl2 @ ver"]
      c_str_drop [OF line, of "length bl"]
      request_version_some [OF line s(2) \<open>url \<noteq> []\<close> 2(2,3) r(2,3)]
    show ?thesis by auto
  qed
qed

lemma strip_scheme_ok:
  assumes "m_url c = Some u" and "c_str N (m_read_buf c) u = Inr s"
  shows "\<exists>c1. strip_scheme c sch = Inr c1 \<and> m_read_buf c1 = m_read_buf c
    \<and> (\<forall>v. m_url c1 = Some v \<longrightarrow> (\<exists>s'. c_str N (m_read_buf c1) v = Inr s'))"
proof -
  have "\<exists>s'. c_str N (m_read_buf c) (u + int (length sch) + int k) = Inr s'"
    if "casecmp_eq (take (length sch) s) sch" "k < length (drop (length sch) s)" for k
    using c_str_drop [OF assms(2), of "length sch + k"] that by (auto simp: algebra_simps)
  with strip_scheme_str [OF assms, of sch] assms show ?thesis by (auto simp: Let_def)
qed

theorem parse_request_line_only_null:
  assumes "c_str N (m_read_buf c) t = Inr s"
  shows "is_ok (parse_request_line c t) \<or> parse_request_line c t = Inl Null_Deref"
proof -
  obtain c1 r1 where m: "request_method c t = Inr (c1, r1)"
    and m': "\<And>u. r1 = Some u \<Longrightarrow> \<exists>s'. c_str N (m_read_buf c1) u = Inr s'"
    using request_method_ok [OF assms] by blast
  show ?thesis
  proof (cases r1)
    case (Some u)
    from m' [OF this] obtain c2 r2 where v: "request_version c1 u = Inr (c2, r2)"
      and v': "\<And>v. r2 = Some v \<Longrightarrow> m_url c2 = Some v \<and> (\<exists>s'. c_str N (m_read_buf c2) v = Inr s')"
      using request_version_ok by blast
    show ?thesis
    proof (cases r2)
      case v2: (Some v)
      obtain c3 where s3: "strip_scheme c2 ''http://'' = Inr c3"
        and s3': "\<And>w. m_url c3 = Some w \<Longrightarrow> \<exists>s'. c_str N (m_read_buf c3) w = Inr s'"
        using v' [OF v2] strip_scheme_ok by blast
      show ?thesis
      proof (cases "m_url c3")
        case None
        then have "strip_scheme c3 ''https://'' = Inl Null_Deref" by (simp add: strip_scheme_def)
        with m v v2 s3 Some show ?thesis by (simp add: parse_request_line_def)
      next
        case w: (Some w)
        obtain c4 where s4: "strip_scheme c3 ''https://'' = Inr c4"
          and s4': "\<And>x. m_url c4 = Some x \<Longrightarrow> \<exists>s'. c_str N (m_read_buf c4) x = Inr s'"
          using s3' [OF w] w strip_scheme_ok by blast
        then have "\<And>x. m_url c4 = Some x \<Longrightarrow> 0 \<le> x \<and> x < N"
          using c_str_end by fastforce
        with m v v2 s3 s4 Some show ?thesis
          by (cases "m_url c4") (auto simp: parse_request_line_def rd_ok)
      qed
    qed (use m v Some in \<open>simp add: parse_request_line_def\<close>)
  qed (use m in \<open>simp add: parse_request_line_def\<close>)
qed

text \<open>An absolute URI without a path, \<open>GET http://host HTTP/1.1\<close>, is a null dereference.\<close>

theorem absolute_uri_null_deref:
  assumes line: "c_str N (m_read_buf c) t = Inr (m @ b # bl @ url @ b' # bl2 @ ver)"
    and m: "no_blank m" "b = SPC \<or> b = TAB" "set_method c m \<noteq> None"
    and url: "all_blank bl" "url = ''http://'' @ host" "CHR ''/'' \<notin> set host" "no_blank host"
      "b' = SPC \<or> b' = TAB"
    and ver: "all_blank bl2" "ver = [] \<or> hd ver \<notin> set BLANKS" "casecmp_eq ver ''HTTP/1.1''"
  shows "parse_request_line c t = Inl Null_Deref"
proof -
  let ?c2 = "c\<lparr>m_read_buf := (m_read_buf c)(t + int (length m) := NUL),
                m_url := Some (t + int (length m) + 1)\<rparr>"
  obtain c3 where c3: "set_method ?c2 m = Some c3"
    using m(3) by (auto simp: set_method_def split: if_splits)
  have buf3: "m_read_buf c3 = (m_read_buf c)(t + int (length m) := NUL)"
    using c3 by (auto simp: set_method_def split: if_splits)
  note cut = cut_string [OF line]
  have s3: "c_str N (m_read_buf c3) (t + int (length m) + 1) = Inr (bl @ url @ b' # bl2 @ ver)"
    using cut(4) by (simp add: buf3)
  have url': "url \<noteq> []" "no_blank url" using url(2,4) by (auto simp: no_blank_def)
  obtain c4 v where v: "request_version c3 (t + int (length m) + 1) = Inr (c4, Some v)"
    and c4: "m_url c4 = Some v" "m_read_buf c4 = (m_read_buf c3)(v + int (length url) := NUL)"
    and v_def: "v = t + int (length m) + 1 + int (length bl)"
    using request_version_some [OF s3 url(1) url' url(5) ver(1,2)] ver(3) by simp
  have "c_str N (m_read_buf c3) v = Inr (url @ b' # bl2 @ ver)"
    using c_str_drop [OF s3, of "length bl"] by (simp add: v_def)
  from cut_string(3) [OF this] have s4: "c_str N (m_read_buf c4) v = Inr (''http://'' @ host)"
    by (simp add: c4 url(2))
  have "length (takeWhile (\<lambda>x. x \<noteq> CHR ''/'') host) = length host"
    using url(3) by (intro arg_cong [where f = length] takeWhile_id) auto
  then have "strip_scheme c4 ''http://'' = Inr (c4\<lparr>m_url := None\<rparr>)"
    using strip_scheme_str [OF c4(1) s4, of "''http://''"] by (simp add: Let_def)
  with request_method_some [OF line m(1,2)] c3 v show ?thesis
    by (simp add: parse_request_line_def strip_scheme_def)
qed

section \<open>Headers\<close>

text \<open>The effect of one header line \<open>h\<close> that starts at index \<open>t\<close> of the buffer.\<close>

definition is_header :: "string \<Rightarrow> string \<Rightarrow> bool" where
  "is_header name h = casecmp_eq (take (length name) h) name"

definition header_value :: "string \<Rightarrow> string \<Rightarrow> string" where
  "header_value name h = dropWhile (\<lambda>c. c \<in> set BLANKS) (drop (length name) h)"

definition apply_header :: "int \<Rightarrow> string \<Rightarrow> http_conn \<Rightarrow> http_conn" where
  "apply_header t h c =
     (if is_header ''Connection:'' h then
        (if casecmp_eq (header_value ''Connection:'' h) ''keep-alive'' then c\<lparr>m_linger := True\<rparr> else c)
      else if is_header ''Content-length:'' h then
        c\<lparr>m_content_length := to_int32 (atol (header_value ''Content-length:'' h))\<rparr>
      else if is_header ''Host:'' h then
        c\<lparr>m_host := Some (t + int (length h) - int (length (header_value ''Host:'' h)))\<rparr>
      else if is_header ''Cookie:'' h then c\<lparr>m_cookie := header_value ''Cookie:'' h\<rparr>
      else c)"

lemma hdr_is_str: "c_str N (m_read_buf c) t = Inr h \<Longrightarrow> hdr_is c t name = Inr (is_header name h)"
  by (simp add: strncasecmp_c_str is_header_def)

lemma hdr_value_str:
  assumes "c_str N (m_read_buf c) t = Inr h" and "is_header name h"
  shows "hdr_value c t name =
    Inr (t + int (length h) - int (length (header_value name h)), header_value name h)"
proof -
  have len: "length name \<le> length h"
    using assms(2) casecmp_eq_length by (fastforce simp: is_header_def)
  let ?r = "drop (length name) h"
  obtain bl v where r: "?r = bl @ v" "all_blank bl" "v = [] \<or> hd v \<notin> set BLANKS"
    by (rule leading_blanks)
  have s: "c_str N (m_read_buf c) (t + int (length name)) = Inr (bl @ v)"
    using c_str_drop [OF assms(1) len] r(1) by simp
  have v: "header_value name h = v"
  proof -
    have "\<forall>c \<in> set bl. c \<in> set BLANKS" using r(2) by (auto simp: all_blank_def)
    then have "dropWhile (\<lambda>c. c \<in> set BLANKS) (bl @ v) = dropWhile (\<lambda>c. c \<in> set BLANKS) v"
      by (simp add: dropWhile_append2)
    also have "\<dots> = v" using r(3) by (cases v) auto
    finally show ?thesis unfolding header_value_def r(1) .
  qed
  have "length h = length name + length bl + length v"
    using len arg_cong [OF r(1), of length] by simp
  then have t: "t + int (length name) + int (length bl) = t + int (length h) - int (length v)"
    by simp
  have "c_str N (m_read_buf c) (t + int (length name) + int (length bl)) = Inr v"
    using c_str_drop [OF s, of "length bl"] by simp
  then show ?thesis
    unfolding hdr_value_def by (simp add: strspn_blank [OF s r(2,3)] Let_def v t)
qed

theorem parse_headers_line:
  assumes "c_str N (m_read_buf c) t = Inr h" and "h \<noteq> []"
  shows "parse_headers c t = Inr (apply_header t h c, NO_REQUEST)"
proof -
  have "m_read_buf c t \<noteq> NUL" and "0 \<le> t" and "t < N"
    using c_str_nth [OF assms(1), of 0] c_str_end [OF assms(1)] assms(2) by simp_all
  then show ?thesis
    unfolding parse_headers_def
    by (simp add: rd_ok hdr_is_str [OF assms(1)] hdr_value_str [OF assms(1)] apply_header_def)
qed

lemma parse_headers_blank_line:
  assumes "c_str N (m_read_buf c) t = Inr []"
  shows "parse_headers c t =
    (if m_content_length c \<noteq> 0 then Inr (c\<lparr>m_check_state := CHECK_STATE_CONTENT\<rparr>, NO_REQUEST)
     else Inr (c, GET_REQUEST))"
  using c_str_end [OF assms] by (simp add: parse_headers_def rd_ok)

lemma parse_headers_ok:
  "c_str N (m_read_buf c) t = Inr h \<Longrightarrow> is_ok (parse_headers c t)"
  using parse_headers_line parse_headers_blank_line by (cases "h = []") auto

section \<open>The loop, one line at a time\<close>

text \<open>
  \<open>at_line c\<close>: the scanner stands at the start of a line. \<open>end_line c l\<close> is the connection after
  the line \<open>l\<close> and its CRLF have been scanned and \<open>m_start_line\<close> has moved on.
\<close>

definition at_line :: "http_conn \<Rightarrow> bool" where
  "at_line c \<longleftrightarrow> line_inv c \<and> m_start_line c = m_checked_idx c"

definition end_line :: "http_conn \<Rightarrow> string \<Rightarrow> http_conn" where
  "end_line c l = c\<lparr>m_read_buf := put (m_read_buf c) (m_checked_idx c + int (length l)) [NUL, NUL],
     m_checked_idx := m_checked_idx c + int (length l) + 2,
     m_start_line := m_checked_idx c + int (length l) + 2\<rparr>"

lemma pending_bytes:
  assumes "pending c = l @ r"
  shows "get (m_read_buf c) (m_checked_idx c) (length l) = l"
    and "get (m_read_buf c) (m_checked_idx c + int (length l)) (length r) = r"
proof -
  have "get (m_read_buf c) (m_checked_idx c) (length l + length r) = l @ r"
    using arg_cong [OF assms, of length] assms by (simp add: pending_def)
  then show "get (m_read_buf c) (m_checked_idx c) (length l) = l"
    and "get (m_read_buf c) (m_checked_idx c + int (length l)) (length r) = r"
    by (simp_all add: get_add)
qed

lemma pending_room:
  assumes "line_inv c" and "pending c = l @ r"
  shows "0 \<le> m_checked_idx c" and "m_checked_idx c + int (length l) + int (length r) = m_read_idx c"
    and "m_read_idx c \<le> N"
proof -
  from assms(1) show c: "0 \<le> m_checked_idx c" and "m_read_idx c \<le> N" by (simp_all add: line_inv_def read_inv_def)
  from assms(1) have "m_checked_idx c \<le> m_read_idx c" by (simp add: line_inv_def read_inv_def)
  with arg_cong [OF assms(2), of length]
  show "m_checked_idx c + int (length l) + int (length r) = m_read_idx c"
    by (simp add: length_pending)
qed

lemma end_line_step:
  assumes c: "at_line c" and p: "pending c = l @ CR # LF # rest" and l: "no_eol l"
  shows "parse_line c = Inr ((end_line c l)\<lparr>m_start_line := m_checked_idx c\<rparr>, LINE_OK)"
    and "at_line (end_line c l)" and "pending (end_line c l) = rest"
    and "NUL \<notin> set l \<Longrightarrow> c_str N (m_read_buf (end_line c l)) (m_checked_idx c) = Inr l"
proof -
  from c have li: "line_inv c" and st: "m_start_line c = m_checked_idx c" by (simp_all add: at_line_def)
  note room = pending_room [OF li p]
  have "after_line c (scan_line (pending c)) =
      ((end_line c l)\<lparr>m_start_line := m_checked_idx c\<rparr>, LINE_OK)"
    using st by (simp add: p scan_line_eol [OF l] after_line_def end_line_def)
  then show "parse_line c = Inr ((end_line c l)\<lparr>m_start_line := m_checked_idx c\<rparr>, LINE_OK)"
    using parse_line_scan [OF li] by simp
  show "at_line (end_line c l)"
    using room by (auto simp: at_line_def line_inv_def read_inv_def end_line_def put_def)
  have "get (m_read_buf c) (m_checked_idx c + int (length l) + 2) (length rest) = rest"
    using pending_bytes(2) [of c "l @ [CR, LF]" rest] p by (simp add: algebra_simps)
  moreover have "nat (m_read_idx c - (m_checked_idx c + int (length l) + 2)) = length rest"
    using room by simp
  ultimately show "pending (end_line c l) = rest"
    by (simp add: pending_def end_line_def get_put_disjoint)
  show "c_str N (m_read_buf (end_line c l)) (m_checked_idx c) = Inr l" if "NUL \<notin> set l"
  proof (rule c_strI)
    show "m_read_buf (end_line c l) (m_checked_idx c + int (length l)) = NUL"
      by (simp add: end_line_def put_def)
  qed (use that room pending_bytes(1) [OF p] in \<open>simp_all add: end_line_def get_put_disjoint\<close>)
qed

lemma end_line_frames [frames, simp]:
  "m_check_state (end_line c l) = m_check_state c" "m_content_length (end_line c l) = m_content_length c"
  "m_linger (end_line c l) = m_linger c" "m_cookie (end_line c l) = m_cookie c"
  "m_method (end_line c l) = m_method c" "cgi (end_line c l) = cgi c" "m_url (end_line c l) = m_url c"
  "m_read_idx (end_line c l) = m_read_idx c" "m_checked_idx (end_line c l) = m_checked_idx c + int (length l) + 2"
  "m_host (end_line c l) = m_host c" "m_string (end_line c l) = m_string c"
  by (simp_all add: end_line_def)

lemma end_line_restart:
  "(end_line c l)\<lparr>m_start_line := m_checked_idx c + int (length l) + 2\<rparr> = end_line c l"
  by (simp add: end_line_def)

lemma read_loop_request_line:
  assumes "at_line c" and "pending c = l @ CR # LF # rest" and "no_eol l"
    and "m_check_state c = CHECK_STATE_REQUESTLINE"
  shows "read_loop c ls = rbind (parse_request_line (end_line c l) (m_checked_idx c)) (\<lambda>p.
     if snd p = BAD_REQUEST then Inr (fst p, Return BAD_REQUEST) else read_loop (fst p) LINE_OK)"
  using assms by (subst read_loop.simps) (simp add: loop_guard_def end_line_step(1) get_line_def end_line_restart)

lemma read_loop_header:
  assumes "at_line c" and "pending c = l @ CR # LF # rest" and "no_eol l"
    and "m_check_state c = CHECK_STATE_HEADER"
  shows "read_loop c ls = rbind (parse_headers (end_line c l) (m_checked_idx c)) (\<lambda>p.
     if snd p = BAD_REQUEST then Inr (fst p, Return BAD_REQUEST)
     else if snd p = GET_REQUEST then Inr (fst p, Dispatch)
     else read_loop (fst p) LINE_OK)"
  using assms by (subst read_loop.simps) (simp add: loop_guard_def end_line_step(1) get_line_def end_line_restart)

section \<open>All headers\<close>

lemma apply_header_frames [frames, simp]:
  "m_check_state (apply_header t h c) = m_check_state c" "m_read_buf (apply_header t h c) = m_read_buf c"
  "m_method (apply_header t h c) = m_method c" "cgi (apply_header t h c) = cgi c"
  "m_url (apply_header t h c) = m_url c" "m_read_idx (apply_header t h c) = m_read_idx c"
  "m_checked_idx (apply_header t h c) = m_checked_idx c" "m_start_line (apply_header t h c) = m_start_line c"
  "m_string (apply_header t h c) = m_string c"
  by (simp_all add: apply_header_def)

definition linger_step :: "bool \<Rightarrow> string \<Rightarrow> bool" where
  "linger_step b h = (b \<or> is_header ''Connection:'' h
     \<and> casecmp_eq (header_value ''Connection:'' h) ''keep-alive'')"

definition clen_step :: "int \<Rightarrow> string \<Rightarrow> int" where
  "clen_step n h =
     (if is_header ''Connection:'' h then n
      else if is_header ''Content-length:'' h then to_int32 (atol (header_value ''Content-length:'' h))
      else n)"

definition cookie_step :: "string \<Rightarrow> string \<Rightarrow> string" where
  "cookie_step s h =
     (if is_header ''Connection:'' h \<or> is_header ''Content-length:'' h \<or> is_header ''Host:'' h then s
      else if is_header ''Cookie:'' h then header_value ''Cookie:'' h else s)"

lemma apply_header_fields [simp]:
  "m_linger (apply_header t h c) = linger_step (m_linger c) h"
  "m_content_length (apply_header t h c) = clen_step (m_content_length c) h"
  "m_cookie (apply_header t h c) = cookie_step (m_cookie c) h"
  by (simp_all add: apply_header_def linger_step_def clen_step_def cookie_step_def)

fun headers_done :: "http_conn \<Rightarrow> string list \<Rightarrow> http_conn" where
  "headers_done c [] = end_line c []"
| "headers_done c (h # hs) = headers_done (apply_header (m_checked_idx c) h (end_line c h)) hs"

lemma headers_done_fields:
  "m_linger (headers_done c hs) = foldl linger_step (m_linger c) hs"
  "m_content_length (headers_done c hs) = foldl clen_step (m_content_length c) hs"
  "m_cookie (headers_done c hs) = foldl cookie_step (m_cookie c) hs"
  "m_check_state (headers_done c hs) = m_check_state c" "m_method (headers_done c hs) = m_method c"
  "cgi (headers_done c hs) = cgi c" "m_url (headers_done c hs) = m_url c"
  "m_read_idx (headers_done c hs) = m_read_idx c" "m_string (headers_done c hs) = m_string c"
  by (induction hs arbitrary: c) simp_all

lemma headers_done_prefix:
  "i < m_checked_idx c \<Longrightarrow> m_read_buf (headers_done c hs) i = m_read_buf c i"
  by (induction hs arbitrary: c) (simp_all add: end_line_def put_outside)

definition render_headers :: "string list \<Rightarrow> string" where
  "render_headers hs = concat (map (\<lambda>h. h @ [CR, LF]) hs)"

definition wf_header :: "string \<Rightarrow> bool" where
  "wf_header h \<longleftrightarrow> h \<noteq> [] \<and> no_eol h \<and> NUL \<notin> set h"

lemma at_line_cong:
  assumes "at_line c" and "\<And>i. m_checked_idx c - 1 \<le> i \<Longrightarrow> m_read_buf c' i = m_read_buf c i"
    and "m_read_idx c' = m_read_idx c" and "m_checked_idx c' = m_checked_idx c"
    and "m_start_line c' = m_start_line c"
  shows "at_line c'" and "pending c' = pending c"
proof -
  from assms show "at_line c'" by (simp add: at_line_def line_inv_def read_inv_def)
  from assms(2-) show "pending c' = pending c" by (auto simp: pending_def intro!: get_cong)
qed

theorem read_loop_headers:
  assumes "at_line c" and "pending c = render_headers hs @ CR # LF # body"
    and "\<forall>h \<in> set hs. wf_header h" and "m_check_state c = CHECK_STATE_HEADER"
  shows "at_line (headers_done c hs) \<and> pending (headers_done c hs) = body \<and>
    read_loop c ls =
      (if m_content_length (headers_done c hs) \<noteq> 0
       then read_loop ((headers_done c hs)\<lparr>m_check_state := CHECK_STATE_CONTENT\<rparr>) LINE_OK
       else Inr (headers_done c hs, Dispatch))"
  using assms
proof (induction hs arbitrary: c ls)
  case Nil
  then have p: "pending c = [] @ CR # LF # body" by (simp add: render_headers_def)
  note step = end_line_step [OF Nil.prems(1) p, simplified]
  from read_loop_header [OF Nil.prems(1) p _ Nil.prems(4)] step show ?case
    by (simp add: parse_headers_blank_line)
next
  case (Cons h hs)
  let ?e = "end_line c h" and ?c1 = "apply_header (m_checked_idx c) h (end_line c h)"
  from Cons.prems(2) have p: "pending c = h @ CR # LF # render_headers hs @ CR # LF # body"
    by (simp add: render_headers_def)
  from Cons.prems(3) have h: "no_eol h" "NUL \<notin> set h" "h \<noteq> []" by (simp_all add: wf_header_def)
  note step = end_line_step [OF Cons.prems(1) p h(1)]
  have c1: "at_line ?c1" "pending ?c1 = render_headers hs @ CR # LF # body"
    using at_line_cong [OF step(2), of ?c1] step(3) by simp_all
  have IH: "at_line (headers_done ?c1 hs) \<and> pending (headers_done ?c1 hs) = body \<and>
    read_loop ?c1 LINE_OK =
      (if m_content_length (headers_done ?c1 hs) \<noteq> 0
       then read_loop ((headers_done ?c1 hs)\<lparr>m_check_state := CHECK_STATE_CONTENT\<rparr>) LINE_OK
       else Inr (headers_done ?c1 hs, Dispatch))"
    using Cons.IH [OF c1] Cons.prems(3,4) by simp
  from read_loop_header [OF Cons.prems(1) p h(1) Cons.prems(4)] parse_headers_line [OF step(4) h(3)] h(2) IH
  show ?case by simp
qed

section \<open>The body and whole requests\<close>

lemma read_loop_content:
  assumes c: "at_line c" and st: "m_check_state c = CHECK_STATE_CONTENT"
    and len: "m_content_length c = int n" and room: "m_checked_idx c + int n < N"
  shows "read_loop c LINE_OK =
    (if m_checked_idx c + int n \<le> m_read_idx c
     then Inr (c\<lparr>m_read_buf := (m_read_buf c)(m_checked_idx c + int n := NUL),
                 m_string := Some (m_checked_idx c)\<rparr>, Dispatch)
     else read_loop c LINE_OPEN)"
proof -
  from c have "0 \<le> m_checked_idx c" and st_line: "m_start_line c = m_checked_idx c"
    by (simp_all add: at_line_def line_inv_def read_inv_def)
  with room have add: "int_add (int n) (m_checked_idx c) = Inr (int n + m_checked_idx c)"
    by (intro int_add_ok) (simp_all add: INT_MIN_def INT_MAX_def READ_BUFFER_SIZE_def)
  have same: "c\<lparr>m_start_line := m_checked_idx c\<rparr> = c"
    "c\<lparr>m_start_line := m_checked_idx c, m_read_buf := b, m_string := p\<rparr> = c\<lparr>m_read_buf := b, m_string := p\<rparr>" for b p
    using st_line by (cases c; simp)+
  have pc: "parse_content c (m_checked_idx c) =
      (if m_checked_idx c + int n \<le> m_read_idx c
       then Inr (c\<lparr>m_read_buf := (m_read_buf c)(m_checked_idx c + int n := NUL),
                   m_string := Some (m_checked_idx c)\<rparr>, GET_REQUEST)
       else Inr (c, NO_REQUEST))"
    using len add room \<open>0 \<le> m_checked_idx c\<close> by (simp add: parse_content_def wr_ok add.commute)
  show ?thesis
    by (subst read_loop.simps) (simp add: st loop_guard_def get_line_def st_line same pc Let_def)
qed

definition wf_url :: "string \<Rightarrow> bool" where
  "wf_url u \<longleftrightarrow> u \<noteq> [] \<and> hd u = CHR ''/'' \<and> no_blank u \<and> no_eol u \<and> NUL \<notin> set u"

definition render_request :: "string \<Rightarrow> string \<Rightarrow> string list \<Rightarrow> string \<Rightarrow> string" where
  "render_request m url hs body =
     (m @ [SPC] @ url @ [SPC] @ ''HTTP/1.1'') @ [CR, LF] @ render_headers hs @ [CR, LF] @ body"

definition method_name :: "METHOD \<Rightarrow> string" where
  "method_name m = (case m of GET \<Rightarrow> ''GET'' | POST \<Rightarrow> ''POST'' | _ \<Rightarrow> [])"

lemma method_names:
  assumes "m = GET \<or> m = POST"
  shows "no_blank (method_name m)" "no_eol (method_name m)" "NUL \<notin> set (method_name m)"
    and "set_method c (method_name m) =
      Some (if m = POST then c\<lparr>m_method := POST, cgi := 1\<rparr> else c\<lparr>m_method := GET\<rparr>)"
proof -
  have "\<not> casecmp_eq ''POST'' ''GET''" by (auto dest: casecmp_eq_length)
  with assms show "set_method c (method_name m) =
      Some (if m = POST then c\<lparr>m_method := POST, cgi := 1\<rparr> else c\<lparr>m_method := GET\<rparr>)"
    by (elim disjE) (simp_all add: method_name_def set_method_def)
qed (use assms in \<open>elim disjE; simp add: method_name_def no_blank_def\<close>)+

lemma store_init:
  assumes "int (length s) \<le> N"
  shows "at_line (store (init c) s)" and "pending (store (init c) s) = s"
  using assms by (simp_all add: at_line_def line_inv_def read_inv_def store_def init_def pending_def
      get_put_same READ_BUFFER_SIZE_def)

text \<open>The request line of a request as a client writes it.\<close>

lemma read_loop_first_line:
  assumes c: "at_line c" "pending c = (method_name m @ [SPC] @ url @ [SPC] @ ''HTTP/1.1'') @ CR # LF # rest"
    and st: "m_check_state c = CHECK_STATE_REQUESTLINE" and m: "m = GET \<or> m = POST" and url: "wf_url url"
  obtains c1 u where "read_loop c ls = read_loop c1 LINE_OK" and "at_line c1" and "pending c1 = rest"
    and "m_check_state c1 = CHECK_STATE_HEADER" and "m_method c1 = m"
    and "cgi c1 = (if m = POST then 1 else cgi c)" and "m_url c1 = Some u"
    and "c_str N (m_read_buf c1) u = Inr url" and "u + int (length url) < m_checked_idx c1"
    and "m_content_length c1 = m_content_length c" and "m_linger c1 = m_linger c"
    and "m_cookie c1 = m_cookie c" and "m_string c1 = m_string c" and "m_read_idx c1 = m_read_idx c"
proof -
  let ?l = "method_name m @ [SPC] @ url @ [SPC] @ ''HTTP/1.1''" and ?t = "m_checked_idx c"
  let ?k = "?t + int (length (method_name m))"
  let ?u = "?k + 1"
  have l: "no_eol ?l" "NUL \<notin> set ?l" using url method_names(2,3) [OF m] by (auto simp: wf_url_def)
  note step = end_line_step [OF c l(1)]
  let ?e = "end_line c ?l"
  obtain e where e: "set_method ?e (method_name m) = Some e" "m_method e = m"
      "cgi e = (if m = POST then 1 else cgi c)"
    and e_same: "m_read_buf e = m_read_buf ?e" "m_read_idx e = m_read_idx ?e"
      "m_checked_idx e = m_checked_idx ?e" "m_start_line e = m_start_line ?e"
      "m_content_length e = m_content_length c" "m_linger e = m_linger c" "m_cookie e = m_cookie c"
      "m_string e = m_string c"
    using method_names(4) [OF m, of ?e] m by (cases "m = POST") auto
  let ?b = "(m_read_buf ?e)(?k := NUL, ?u + int (length url) := NUL)"
  let ?c1 = "e\<lparr>m_read_buf := ?b, m_url := Some ?u,
      m_version := Some (?u + int (length url) + 1), m_check_state := CHECK_STATE_HEADER\<rparr>"
  have line: "c_str N (m_read_buf ?e) ?t = Inr (method_name m @ SPC # [] @ url @ SPC # [] @ ''HTTP/1.1'')"
    using step(4) [OF l(2)] by simp
  have prl: "parse_request_line ?e ?t = Inr (?c1, NO_REQUEST)"
    using parse_request_line_ok [OF line method_names(1) [OF m]] e(1) url
    by (simp add: wf_url_def all_blank_def)
  note cut = cut_string [OF line]
  have "c_str N ((m_read_buf ?e)(?k := NUL)) ?u = Inr (url @ SPC # ''HTTP/1.1'')" using cut(4) by simp
  from cut_string(3) [OF this] have u: "c_str N ?b ?u = Inr url" by simp
  have "?b i = m_read_buf ?e i" if "m_checked_idx ?e - 1 \<le> i" for i using that by auto
  then have at: "at_line ?c1" "pending ?c1 = rest"
    using at_line_cong [OF step(2), of ?c1] step(3) by (simp_all add: e_same)
  have "read_loop c ls = read_loop ?c1 LINE_OK"
    using read_loop_request_line [OF c l(1) st] prl by simp
  with at u e show ?thesis
    by (intro that [of ?c1 ?u]) (simp_all add: e_same)
qed

text \<open>The headers and the body, once the request line has been read.\<close>

lemma headers_done_mono: "m_checked_idx c \<le> m_checked_idx (headers_done c hs)"
proof (induction hs arbitrary: c)
  case (Cons h hs)
  from Cons [of "apply_header (m_checked_idx c) h (end_line c h)"] show ?case by simp
qed simp

lemma read_loop_headers_body:
  assumes c: "at_line c" "pending c = render_headers hs @ CR # LF # body"
    and hs: "\<forall>h \<in> set hs. wf_header h" and st: "m_check_state c = CHECK_STATE_HEADER"
    and len: "foldl clen_step (m_content_length c) hs = int (length body)"
    and room: "m_read_idx c < N"
  obtains c2 where "read_loop c ls = Inr (c2, Dispatch)" and "m_method c2 = m_method c"
    and "cgi c2 = cgi c" and "m_url c2 = m_url c"
    and "m_linger c2 = foldl linger_step (m_linger c) hs"
    and "m_cookie c2 = foldl cookie_step (m_cookie c) hs"
    and "m_content_length c2 = int (length body)"
    and "\<And>i. i < m_checked_idx c \<Longrightarrow> m_read_buf c2 i = m_read_buf c i"
    and "body \<noteq> [] \<Longrightarrow> \<exists>p. m_string c2 = Some p \<and> get (m_read_buf c2) p (length body) = body
           \<and> m_read_buf c2 (p + int (length body)) = NUL"
    and "body = [] \<Longrightarrow> m_string c2 = m_string c"
proof (cases "body = []")
  case True
  let ?d = "headers_done c hs"
  have "read_loop c ls = Inr (?d, Dispatch)"
    using read_loop_headers [OF c hs st, of ls] len True by (simp add: headers_done_fields)
  then show ?thesis
    by (rule that) (use True len in \<open>simp_all add: headers_done_fields headers_done_prefix\<close>)
next
  case False
  define d where "d = (headers_done c hs)\<lparr>m_check_state := CHECK_STATE_CONTENT\<rparr>"
  define p where "p = m_checked_idx d"
  define e where "e = d\<lparr>m_read_buf := (m_read_buf d)(p + int (length body) := NUL), m_string := Some p\<rparr>"
  have d: "at_line d" "pending d = body"
    using at_line_cong [of "headers_done c hs" d] read_loop_headers [OF c hs st, of ls]
    by (simp_all add: d_def)
  have clen: "m_content_length d = int (length body)"
    using len by (simp add: d_def headers_done_fields)
  have end_d: "p + int (length body) = m_read_idx d"
    using pending_room(2) [of d body "[]"] d by (simp add: at_line_def p_def)
  have "m_read_idx d < N" using room by (simp add: d_def headers_done_fields)
  with end_d have "read_loop d LINE_OK = Inr (e, Dispatch)"
    using read_loop_content [OF d(1) _ clen] by (simp add: d_def e_def p_def)
  moreover have "read_loop c ls = read_loop d LINE_OK"
    using read_loop_headers [OF c hs st, of ls] len False by (simp add: d_def headers_done_fields)
  ultimately have loop: "read_loop c ls = Inr (e, Dispatch)" by simp
  have p: "m_checked_idx c \<le> p"
    using headers_done_mono [of c hs] by (simp add: p_def d_def)
  have body: "get (m_read_buf e) p (length body) = body"
    using pending_bytes(1) [of d body "[]"] d(2) get_cong [of p "length body" "m_read_buf e" "m_read_buf d"]
    by (simp add: e_def p_def)
  show ?thesis
  proof (rule that [OF loop])
    show "m_read_buf e i = m_read_buf c i" if "i < m_checked_idx c" for i
      using that p by (simp add: e_def d_def headers_done_prefix)
    show "\<exists>q. m_string e = Some q \<and> get (m_read_buf e) q (length body) = body
           \<and> m_read_buf e (q + int (length body)) = NUL"
      using body by (auto simp: e_def)
  qed (use False clen in \<open>simp_all add: e_def d_def headers_done_fields\<close>)
qed

text \<open>A connection that has received a text and parsed none of it.\<close>

definition ready_conn :: "http_conn \<Rightarrow> string \<Rightarrow> bool" where
  "ready_conn c t \<longleftrightarrow> at_line c \<and> pending c = t \<and> m_check_state c = CHECK_STATE_REQUESTLINE \<and> cgi c = 0
     \<and> m_content_length c = 0 \<and> \<not> m_linger c \<and> m_cookie c = [] \<and> m_read_idx c < READ_BUFFER_SIZE"

lemma ready_stored: "int (length t) < N \<Longrightarrow> ready_conn (store (init c) t) t"
  using store_init [of t c] by (simp add: ready_conn_def store_def init_def)

lemma ready_mysql [simp]: "ready_conn (c\<lparr>mysql := x\<rparr>) t = ready_conn c t"
  by (simp add: ready_conn_def at_line_def line_inv_def read_inv_def pending_def)

lemma ready_request_parsed:
  assumes ready: "ready_conn c0 (render_request (method_name m) url hs body)"
    and m: "m = GET \<or> m = POST" and url: "wf_url url" and hs: "\<forall>h \<in> set hs. wf_header h"
    and len: "foldl clen_step 0 hs = int (length body)"
  shows "\<exists>c1 u. read_loop c0 LINE_OK = Inr (c1, Dispatch)
    \<and> m_method c1 = m \<and> cgi c1 = (if m = POST then 1 else 0)
    \<and> m_url c1 = Some u \<and> c_str READ_BUFFER_SIZE (m_read_buf c1) u = Inr url
    \<and> m_linger c1 = foldl linger_step False hs \<and> m_cookie c1 = foldl cookie_step [] hs
    \<and> m_content_length c1 = int (length body)
    \<and> (body \<noteq> [] \<longrightarrow> (\<exists>p. m_string c1 = Some p \<and> get (m_read_buf c1) p (length body) = body
          \<and> m_read_buf c1 (p + int (length body)) = NUL))"
proof -
  let ?rest = "render_headers hs @ CR # LF # body"
  have at0: "at_line c0" and p0: "pending c0 = (method_name m @ [SPC] @ url @ [SPC] @ ''HTTP/1.1'') @ CR # LF # ?rest"
    using ready by (simp_all add: ready_conn_def render_request_def)
  have i0: "m_check_state c0 = CHECK_STATE_REQUESTLINE" "cgi c0 = 0" "m_content_length c0 = 0"
    "m_linger c0 = False" "m_cookie c0 = []" "m_read_idx c0 < N"
    using ready by (simp_all add: ready_conn_def)
  obtain c1 u where c1: "read_loop c0 LINE_OK = read_loop c1 LINE_OK" "at_line c1" "pending c1 = ?rest"
      "m_check_state c1 = CHECK_STATE_HEADER"
    and f1: "m_method c1 = m" "cgi c1 = (if m = POST then 1 else 0)" "m_url c1 = Some u"
      "m_content_length c1 = 0" "m_linger c1 = False" "m_cookie c1 = []" "m_read_idx c1 < N"
    and u: "c_str N (m_read_buf c1) u = Inr url" "u + int (length url) < m_checked_idx c1"
    by (rule read_loop_first_line [OF at0 p0 i0(1) m url, of LINE_OK]) (use i0 in simp)
  from len f1(4) have clen: "foldl clen_step (m_content_length c1) hs = int (length body)" by simp
  obtain c2 where c2: "read_loop c1 LINE_OK = Inr (c2, Dispatch)" "m_method c2 = m_method c1"
      "cgi c2 = cgi c1" "m_url c2 = m_url c1" "m_linger c2 = foldl linger_step (m_linger c1) hs"
      "m_cookie c2 = foldl cookie_step (m_cookie c1) hs" "m_content_length c2 = int (length body)"
    and prefix: "\<And>i. i < m_checked_idx c1 \<Longrightarrow> m_read_buf c2 i = m_read_buf c1 i"
    and body: "body \<noteq> [] \<Longrightarrow> \<exists>p. m_string c2 = Some p \<and> get (m_read_buf c2) p (length body) = body
           \<and> m_read_buf c2 (p + int (length body)) = NUL"
    by (rule read_loop_headers_body [OF c1(2,3) hs c1(4) clen f1(7), of LINE_OK]) blast
  have "c_str N (m_read_buf c2) u = Inr url"
    using u(2) by (intro c_str_cong [OF u(1)] prefix) simp
  with c1(1) c2 f1 body show ?thesis
    by (intro exI [of _ c2] exI [of _ u]) simp
qed

lemma rendered_request_parsed:
  assumes m: "m = GET \<or> m = POST" and url: "wf_url url" and hs: "\<forall>h \<in> set hs. wf_header h"
    and len: "foldl clen_step 0 hs = int (length body)"
    and room: "int (length (render_request (method_name m) url hs body)) < READ_BUFFER_SIZE"
  shows "\<exists>c1 u. read_loop (store (init c) (render_request (method_name m) url hs body)) LINE_OK
      = Inr (c1, Dispatch)
    \<and> m_method c1 = m \<and> cgi c1 = (if m = POST then 1 else 0)
    \<and> m_url c1 = Some u \<and> c_str READ_BUFFER_SIZE (m_read_buf c1) u = Inr url
    \<and> m_linger c1 = foldl linger_step False hs \<and> m_cookie c1 = foldl cookie_step [] hs
    \<and> m_content_length c1 = int (length body)
    \<and> (body \<noteq> [] \<longrightarrow> (\<exists>p. m_string c1 = Some p \<and> get (m_read_buf c1) p (length body) = body
          \<and> m_read_buf c1 (p + int (length body)) = NUL))"
  using ready_stored [OF room] m url hs len by (rule ready_request_parsed)

text \<open>
  C1. A request as a client writes it (request line, any number of headers, empty line, body)
  that has arrived in full is parsed to exactly what was written: the loop of \<open>process_read\<close>
  ends by calling \<open>do_request\<close>, without undefined behaviour, and at that point the method,
  the URL string, the keep-alive flag, the cookie and the content length are those of the
  request, and \<open>m_string\<close> points to the NUL-terminated body.
\<close>

theorem parse_rendered_request:
  assumes m: "m = GET \<or> m = POST" and url: "wf_url url" and hs: "\<forall>h \<in> set hs. wf_header h"
    and len: "foldl clen_step 0 hs = int (length body)"
    and room: "int (length (render_request (method_name m) url hs body)) < READ_BUFFER_SIZE"
  shows "\<exists>c1 u. read_loop (store (init c) (render_request (method_name m) url hs body)) LINE_OK
      = Inr (c1, Dispatch)
    \<and> m_method c1 = m \<and> cgi c1 = (if m = POST then 1 else 0)
    \<and> m_url c1 = Some u \<and> c_str READ_BUFFER_SIZE (m_read_buf c1) u = Inr url
    \<and> m_linger c1 = foldl linger_step False hs \<and> m_cookie c1 = foldl cookie_step [] hs
    \<and> m_content_length c1 = int (length body)
    \<and> (body \<noteq> [] \<longrightarrow> (\<exists>p. m_string c1 = Some p \<and> get (m_read_buf c1) p (length body) = body
          \<and> m_read_buf c1 (p + int (length body)) = NUL))"
  using assms by (rule rendered_request_parsed)

theorem parse_rendered_request_witness:
  "\<exists>c1. read_loop (store (init zero_conn) (render_request (method_name GET) ''/a.html'' [''Host: x''] [])) LINE_OK
      = Inr (c1, Dispatch)"
  using parse_rendered_request [of GET "''/a.html''" "[''Host: x'']" "[]" zero_conn]
  by (auto simp: wf_url_def wf_header_def no_eol_def no_blank_def render_request_def
      render_headers_def method_name_def clen_step_def is_header_def casecmp_eq_def tolower_def
      READ_BUFFER_SIZE_def)

theorem absolute_uri_null_deref_witness:
  "parse_request_line (store zero_conn (''GET http://h HTTP/1.1'')) 0 = Inl Null_Deref"
proof -
  have "c_str N (m_read_buf (store zero_conn ''GET http://h HTTP/1.1'')) 0 =
     Inr (''GET'' @ SPC # [] @ ''http://h'' @ SPC # [] @ ''HTTP/1.1'')"
    by (simp add: c_str.simps store_def put_def zero_conn_def blank_def READ_BUFFER_SIZE_def)
  from absolute_uri_null_deref [OF this, where host = "''h''"] show ?thesis
    by (simp add: no_blank_def all_blank_def set_method_def casecmp_eq_def tolower_def)
qed

end
