(* ===== verification/Http_Segments.thy ===== *)
theory Http_Segments
  imports Http_Request
begin

text \<open>
  A request that arrives in several segments. TCP delivers the bytes of a request in pieces of
  any size, and \<open>process_read\<close> runs after each \<open>read_once\<close>. The main fact: while the parser
  is in the request line or the headers, running it on the bytes so far and then again after
  more bytes have come gives exactly what one run on all the bytes gives. For a body it does
  not: \<open>m_checked_idx\<close> has then passed the part that was there, and the body is waited for
  beyond its own length.
\<close>

section \<open>Requests that arrive in segments\<close>

text \<open>
  More bytes behind the scanned ones change nothing for a parser whose line lies below
  \<open>m_read_idx\<close>: the parsers commute with \<open>store\<close>.
\<close>

definition ends_below :: "http_conn \<Rightarrow> int \<Rightarrow> bool" where
  "ends_below c t \<longleftrightarrow> (\<exists>x. c_str N (m_read_buf c) t = Inr x \<and> t + int (length x) < m_read_idx c)"

lemma put_upd: "k < r \<Longrightarrow> (put a r s)(k := x) = put (a(k := x)) r s"
  by (auto simp: put_def fun_eq_iff)

lemma c_str_store:
  "c_str N (m_read_buf c) t = Inr x \<Longrightarrow> t + int (length x) < m_read_idx c \<Longrightarrow>
   c_str N (m_read_buf (store c s)) t = Inr x"
  by (rule c_str_cong) (auto simp: store_def put_outside)

lemma store_upd:
  "store (c\<lparr>m_url := u\<rparr>) s = (store c s)\<lparr>m_url := u\<rparr>"
  "store (c\<lparr>m_version := v\<rparr>) s = (store c s)\<lparr>m_version := v\<rparr>"
  "store (c\<lparr>m_method := m\<rparr>) s = (store c s)\<lparr>m_method := m\<rparr>"
  "store (c\<lparr>cgi := g\<rparr>) s = (store c s)\<lparr>cgi := g\<rparr>"
  "store (c\<lparr>m_check_state := st\<rparr>) s = (store c s)\<lparr>m_check_state := st\<rparr>"
  "store (c\<lparr>m_start_line := i\<rparr>) s = (store c s)\<lparr>m_start_line := i\<rparr>"
  "store (c\<lparr>m_checked_idx := i\<rparr>) s = (store c s)\<lparr>m_checked_idx := i\<rparr>"
  by (simp_all add: store_def)

lemma store_buf:
  "k < m_read_idx c \<Longrightarrow>
   store (c\<lparr>m_read_buf := (m_read_buf c)(k := x)\<rparr>) s
     = (store c s)\<lparr>m_read_buf := (m_read_buf (store c s))(k := x)\<rparr>"
  by (simp add: store_def put_upd)

lemma store_fields [simp]:
  "m_url (store c s) = m_url c" "m_check_state (store c s) = m_check_state c"
  "m_content_length (store c s) = m_content_length c" "m_checked_idx (store c s) = m_checked_idx c"
  "m_start_line (store c s) = m_start_line c" "m_read_idx (store c s) = m_read_idx c + int (length s)"
  by (simp_all add: store_def)

abbreviation on_store :: "string \<Rightarrow> (http_conn \<times> 'r) res \<Rightarrow> (http_conn \<times> 'r) res" where
  "on_store s \<equiv> map_sum id (map_prod (\<lambda>d. store d s) id)"

lemma request_method_store:
  assumes "ends_below c t"
  shows "request_method (store c s) t = on_store s (request_method c t)"
    and "request_method c t = Inr (c1, Some u) \<Longrightarrow> ends_below c1 u"
proof -
  from assms obtain x where x: "c_str N (m_read_buf c) t = Inr x" "t + int (length x) < m_read_idx c"
    by (auto simp: ends_below_def)
  note x' = c_str_store [OF x]
  have both: "request_method (store c s) t = on_store s (request_method c t)
    \<and> (request_method c t = Inr (c1, Some u) \<longrightarrow> ends_below c1 u)"
  proof (cases rule: blank_split [of x])
    case 1
    with request_method_none [OF x(1)] request_method_none [OF x'] show ?thesis by (simp add: store_upd)
  next
    case (2 m b r)
    let ?k = "t + int (length m)"
    have k: "?k < m_read_idx c" using x(2) 2(1) by simp
    note line = x(1) [unfolded 2(1)]
    let ?c2 = "c\<lparr>m_read_buf := (m_read_buf c)(?k := NUL), m_url := Some (?k + 1)\<rparr>"
    have st: "store ?c2 s = (store c s)\<lparr>m_read_buf := (m_read_buf (store c s))(?k := NUL), m_url := Some (?k + 1)\<rparr>"
      using store_buf [OF k] by (simp add: store_upd)
    have sm: "set_method (store d s) m = map_option (\<lambda>e. store e s) (set_method d m)" for d
      by (simp add: set_method_def store_upd)
    have "ends_below e (?k + 1)" if "set_method ?c2 m = Some e" for e
      using that cut_string(4) [OF line] x(2) 2(1)
      by (auto simp: set_method_def ends_below_def split: if_splits)
    with request_method_some [OF line 2(2,3)] request_method_some [OF x' [unfolded 2(1)] 2(2,3)]
    show ?thesis by (auto simp flip: st simp: sm split: option.splits)
  qed
  then show "request_method (store c s) t = on_store s (request_method c t)"
    and "request_method c t = Inr (c1, Some u) \<Longrightarrow> ends_below c1 u" by blast+
qed

lemma request_version_store:
  assumes "ends_below c u"
  shows "request_version (store c s) u = on_store s (request_version c u)"
    and "request_version c u = Inr (c1, Some v) \<Longrightarrow> m_url c1 = Some v \<and> ends_below c1 v"
proof -
  from assms obtain x where x: "c_str N (m_read_buf c) u = Inr x" "u + int (length x) < m_read_idx c"
    by (auto simp: ends_below_def)
  note x' = c_str_store [OF x]
  obtain bl s1 where s1: "x = bl @ s1" "all_blank bl" "s1 = [] \<or> hd s1 \<notin> set BLANKS"
    by (rule leading_blanks)
  have both: "request_version (store c s) u = on_store s (request_version c u)
    \<and> (request_version c u = Inr (c1, Some v) \<longrightarrow> m_url c1 = Some v \<and> ends_below c1 v)"
  proof (cases rule: blank_split [of s1])
    case 1
    with request_version_none [OF x(1) [unfolded s1(1)] s1(2)]
      request_version_none [OF x' [unfolded s1(1)] s1(2)] show ?thesis by (simp add: store_upd)
  next
    case (2 url b r)
    obtain bl2 ver where r: "r = bl2 @ ver" "all_blank bl2" "ver = [] \<or> hd ver \<notin> set BLANKS"
      by (rule leading_blanks)
    from 2 s1(3) have url: "url \<noteq> []" by auto
    have eq: "x = bl @ url @ b # bl2 @ ver" using s1(1) 2(1) r(1) by simp
    let ?k = "u + int (length bl) + int (length url)"
    have k: "?k < m_read_idx c" using x(2) eq by simp
    note step = request_version_some [OF _ s1(2) url 2(2,3) r(2,3)]
    from c_str_drop [OF x(1), of "length bl"]
    have "c_str N (m_read_buf c) (u + int (length bl)) = Inr (url @ b # bl2 @ ver)" by (simp add: eq)
    from cut_string(3) [OF this] k
    have "ends_below (c\<lparr>m_read_buf := (m_read_buf c)(?k := NUL), m_url := p, m_version := q\<rparr>) (u + int (length bl))"
      for p q by (auto simp: ends_below_def)
    moreover have "store (c\<lparr>m_read_buf := (m_read_buf c)(?k := NUL), m_url := p, m_version := q\<rparr>) s
        = (store c s)\<lparr>m_read_buf := (m_read_buf (store c s))(?k := NUL), m_url := p, m_version := q\<rparr>" for p q
      using store_buf [OF k] by (simp add: store_upd)
    ultimately show ?thesis
      using step [OF x(1) [unfolded eq]] step [OF x' [unfolded eq]] by auto
  qed
  then show "request_version (store c s) u = on_store s (request_version c u)"
    and "request_version c u = Inr (c1, Some v) \<Longrightarrow> m_url c1 = Some v \<and> ends_below c1 v" by blast+
qed

definition url_below :: "http_conn \<Rightarrow> bool" where
  "url_below c \<longleftrightarrow> (\<forall>u. m_url c = Some u \<longrightarrow> ends_below c u)"

lemma strip_scheme_store:
  assumes "url_below c"
  shows "strip_scheme (store c s) sch = map_sum id (\<lambda>d. store d s) (strip_scheme c sch)"
    and "strip_scheme c sch = Inr c1 \<Longrightarrow> url_below c1"
proof -
  have "strip_scheme (store c s) sch = map_sum id (\<lambda>d. store d s) (strip_scheme c sch)
    \<and> (strip_scheme c sch = Inr c1 \<longrightarrow> url_below c1)"
  proof (cases "m_url c")
    case None
    then show ?thesis by (simp add: strip_scheme_def)
  next
    case (Some u)
    with assms obtain x where
      x: "c_str N (m_read_buf c) u = Inr x" "u + int (length x) < m_read_idx c"
      by (auto simp: ends_below_def url_below_def)
    have "ends_below (c\<lparr>m_url := p\<rparr>) (u + int (length sch) + int k)"
      if "k < length (drop (length sch) x)" for k p
      using c_str_drop [OF x(1), of "length sch + k"] that x(2)
      by (auto simp: ends_below_def algebra_simps)
    with Some x strip_scheme_str [OF Some x(1), of sch] c_str_store [OF x, of s]
      strip_scheme_str [of "store c s" u x sch]
    show ?thesis by (auto simp: store_upd Let_def ends_below_def url_below_def)
  qed
  then show "strip_scheme (store c s) sch = map_sum id (\<lambda>d. store d s) (strip_scheme c sch)"
    and "strip_scheme c sch = Inr c1 \<Longrightarrow> url_below c1" by blast+
qed

text \<open>Sequencing two commuting steps gives a commuting step.\<close>

lemma rbind_store:
  assumes "m' = on_store s m"
    and "\<And>d r. m = Inr (d, r) \<Longrightarrow> f (store d s, r) = on_store s (g (d, r))"
  shows "rbind m' f = on_store s (rbind m g)"
  using assms by (cases m) auto

lemma rbind_store1:
  assumes "m' = map_sum id (\<lambda>d. store d s) m"
    and "\<And>d. m = Inr d \<Longrightarrow> f (store d s) = on_store s (g d)"
  shows "rbind m' f = on_store s (rbind m g)"
  using assms by (cases m) auto

lemma rdb_store: "ends_below c u \<Longrightarrow> rdb (store c s) u = rdb c u"
  by (auto simp: ends_below_def rd_def store_def put_outside)

lemma parse_request_line_store:
  assumes "ends_below c t"
  shows "parse_request_line (store c s) t = on_store s (parse_request_line c t)"
  unfolding parse_request_line_def
proof (rule rbind_store [OF request_method_store(1) [OF assms]], goal_cases)
  case (1 c1 r1)
  show ?case
  proof (cases r1)
    case (Some u)
    with 1 have u: "ends_below c1 u" using request_method_store(2) [OF assms] by simp
    show ?thesis
      unfolding Some prod.case option.case
    proof (rule rbind_store [OF request_version_store(1) [OF u]], goal_cases)
      case (1 c2 r2)
      show ?case
      proof (cases r2)
        case (Some v)
        with 1 have "url_below c2"
          using request_version_store(2) [OF u] by (fastforce simp: url_below_def)
        note s3 = strip_scheme_store [OF this]
        show ?thesis
          unfolding Some prod.case option.case
        proof (rule rbind_store1 [OF s3(1)], goal_cases)
          case (1 c3)
          note s4 = strip_scheme_store [OF s3(2) [OF 1]]
          show ?case
          proof (rule rbind_store1 [OF s4(1)], goal_cases)
            case (1 c4)
            from s4(2) [OF this] show ?case unfolding url_below_def
              by (cases "m_url c4") (auto simp: rdb_store store_upd rbind_def rd_ok split: sum.splits)
          qed
        qed
      qed simp
    qed
  qed simp
qed

lemma apply_header_store: "store (apply_header t h c) s = apply_header t h (store c s)"
  by (simp add: apply_header_def store_def)

lemma parse_headers_store:
  assumes "ends_below c t"
  shows "parse_headers (store c s) t = on_store s (parse_headers c t)"
proof -
  from assms obtain h where h: "c_str N (m_read_buf c) t = Inr h" "t + int (length h) < m_read_idx c"
    by (auto simp: ends_below_def)
  note h' = c_str_store [OF h, of s]
  show ?thesis
  proof (cases "h = []")
    case True
    with h h' show ?thesis by (simp add: parse_headers_blank_line store_upd)
  next
    case False
    with parse_headers_line [OF h(1)] parse_headers_line [OF h'] show ?thesis
      by (simp add: apply_header_store)
  qed
qed

section \<open>Scanning and parsing again after more bytes have come\<close>

lemma line_inv_store:
  "line_inv c \<Longrightarrow> m_read_idx c + int (length s) \<le> N \<Longrightarrow> line_inv (store c s)"
  by (auto simp: line_inv_def read_inv_def store_def put_outside)

lemma pending_store:
  assumes "line_inv c"
  shows "pending (store c s) = pending c @ s"
proof -
  let ?n = "nat (m_read_idx c - m_checked_idx c)"
  have le: "m_checked_idx c \<le> m_read_idx c" using assms by (simp add: line_inv_def read_inv_def)
  then have "nat (m_read_idx c + int (length s) - m_checked_idx c) = ?n + length s" by simp
  moreover have "m_checked_idx c + int ?n = m_read_idx c" using le by simp
  moreover have "get (put (m_read_buf c) (m_read_idx c) s) (m_checked_idx c) ?n = get (m_read_buf c) (m_checked_idx c) ?n"
    using le by (intro get_put_disjoint) simp
  ultimately show ?thesis
    by (simp add: pending_def store_def get_add get_put_same)
qed

lemma put_put_below: "i \<le> r \<Longrightarrow> put (put a r s) (i - 2) [x, y] = put (put a (i - 2) [x, y]) r s"
  by (auto simp: put_def fun_eq_iff)

lemma store_after_line_ok:
  "m_checked_idx c + int k \<le> m_read_idx c \<Longrightarrow>
   after_line (store c s) (k, LINE_OK) = (store (fst (after_line c (k, LINE_OK))) s, LINE_OK)"
  by (simp add: after_line_def store_def put_put_below)

lemma parse_line_store_ok:
  assumes c: "line_inv c" and room: "m_read_idx c + int (length s) \<le> N"
    and ok: "parse_line c = Inr (c1, LINE_OK)"
  shows "parse_line (store c s) = Inr (store c1 s, LINE_OK)"
proof -
  obtain k where k: "scan_line (pending c) = (k, LINE_OK)"
    using parse_line_scan [OF c] ok by (cases "scan_line (pending c)") (auto simp: after_line_def split: if_splits)
  have c1: "c1 = fst (after_line c (k, LINE_OK))"
    using parse_line_scan [OF c] ok k by (metis fst_conv sum.inject(2))
  have "m_checked_idx c + int k \<le> m_read_idx c"
    using scan_line_bound [OF k] c by (simp add: length_pending line_inv_def read_inv_def) linarith
  moreover have "scan_line (pending (store c s)) = (k, LINE_OK)"
    using k by (simp add: pending_store [OF c] scan_line_ok_append)
  ultimately show ?thesis
    using parse_line_scan [OF line_inv_store [OF c room]] store_after_line_ok by (simp add: c1)
qed

lemma parse_line_not_ok:
  assumes c: "line_inv c" and r: "parse_line c = Inr (c1, st)" "st \<noteq> LINE_OK"
  obtains k where "scan_line (pending c) = (k, st)" and "c1 = c\<lparr>m_checked_idx := m_checked_idx c + int k\<rparr>"
    and "line_inv c1" and "pending c1 = drop k (pending c)"
proof -
  obtain k where k: "scan_line (pending c) = (k, st)" and c1: "c1 = c\<lparr>m_checked_idx := m_checked_idx c + int k\<rparr>"
    using parse_line_scan [OF c] r by (cases "scan_line (pending c)") (auto simp: after_line_def split: if_splits)
  have le: "m_checked_idx c \<le> m_read_idx c" using c by (simp add: line_inv_def read_inv_def)
  have len: "k \<le> nat (m_read_idx c - m_checked_idx c)"
    using scan_line_bound [OF k] by (simp add: length_pending)
  have byte: "pending c ! j = m_read_buf c (m_checked_idx c + int j)" if "j < k" for j
    using that len by (simp add: pending_def)
  have "m_read_buf c (m_checked_idx c + int k - 1) \<noteq> CR" if "0 < k"
  proof -
    have "CR \<notin> set (take k (pending c))" using scan_line_passed [OF k r(2)] by (simp add: no_eol_def)
    moreover have "pending c ! (k - 1) \<in> set (take k (pending c))"
      using that len by (auto simp: in_set_conv_nth length_pending intro!: exI [of _ "k - 1"])
    ultimately show ?thesis using byte [of "k - 1"] that by (auto simp: of_nat_diff algebra_simps)
  qed
  with c len le have "line_inv c1"
    by (cases "k = 0") (auto simp: line_inv_def read_inv_def c1)
  moreover have "pending c1 = drop k (pending c)"
    using len by (intro nth_equalityI) (auto simp: pending_def c1 nat_diff_distrib' algebra_simps)
  ultimately show thesis using that k c1 by blast
qed

lemma parse_line_store_resume:
  assumes c: "line_inv c" and room: "m_read_idx c + int (length s) \<le> N"
    and r: "parse_line c = Inr (c1, st)" "st \<noteq> LINE_OK"
  shows "parse_line (store c1 s) = parse_line (store c s)"
proof -
  obtain k where k: "scan_line (pending c) = (k, st)" "c1 = c\<lparr>m_checked_idx := m_checked_idx c + int k\<rparr>"
      "line_inv c1" "pending c1 = drop k (pending c)"
    by (rule parse_line_not_ok [OF c r])
  have room1: "m_read_idx c1 + int (length s) \<le> N" using room k(2) by simp
  have "scan_line (pending c @ s) = (case scan_line (pending c1 @ s) of (j, st') \<Rightarrow> (k + j, st'))"
    using scan_line_resume(2) [OF k(1) r(2)] k(4) by simp
  moreover have "after_line (store c1 s) (j, st') = after_line (store c s) (k + j, st')" for j st'
    by (simp add: k(2) store_def after_line_def algebra_simps)
  ultimately show ?thesis
    using parse_line_scan [OF line_inv_store [OF c room]] parse_line_scan [OF line_inv_store [OF k(3) room1]]
    by (cases "scan_line (pending c1 @ s)") (simp add: pending_store [OF c] pending_store [OF k(3)])
qed

text \<open>The parsers write nothing but NULs, so the scanner's invariant survives them.\<close>

definition only_nuls :: "http_conn \<Rightarrow> http_conn \<Rightarrow> bool" where
  "only_nuls c c1 \<longleftrightarrow> (\<forall>i. m_read_buf c1 i = m_read_buf c i \<or> m_read_buf c1 i = NUL)"

lemma only_nuls_trans: "only_nuls a b \<Longrightarrow> only_nuls b c \<Longrightarrow> only_nuls a c"
  by (auto simp: only_nuls_def) metis

lemma parse_request_line_nuls: "parse_request_line c t = Inr (c1, r) \<Longrightarrow> only_nuls c c1"
proof (erule parse_request_line_cases)
  have m: "only_nuls a b" if "request_method a u = Inr (b, q)" for a b u q
    using that by (auto simp: request_method_def only_nuls_def Let_def elim!: rbindE split: option.splits if_splits)
  have v: "only_nuls a b" if "request_version a u = Inr (b, q)" for a b u q
    using that by (auto simp: request_version_def only_nuls_def Let_def elim!: rbindE split: option.splits)
  have s: "only_nuls a b" if "strip_scheme a sch = Inr b" for a b sch
    using that by (auto simp: strip_scheme_def only_nuls_def elim!: rbindE split: option.splits if_splits)
  show "request_method c t = Inr (c1, None) \<Longrightarrow> only_nuls c c1" by (rule m)
  show "only_nuls c c1" if "request_method c t = Inr (c2, Some u)" "request_version c2 u = Inr (c1, None)" for c2 u
    using that m v only_nuls_trans by blast
  show "only_nuls c c1"
    if "request_method c t = Inr (c2, Some u)" "request_version c2 u = Inr (c3, Some w)"
      "strip_scheme c3 ''http://'' = Inr c4" "strip_scheme c4 ''https://'' = Inr c1" for c2 u c3 w c4
    using that m v s only_nuls_trans by meson
  show "only_nuls c c1"
    if "request_method c t = Inr (c2, Some u)" "request_version c2 u = Inr (c3, Some w)"
      "strip_scheme c3 ''http://'' = Inr c4" "strip_scheme c4 ''https://'' = Inr c5"
      "c1 = c5\<lparr>m_check_state := CHECK_STATE_HEADER\<rparr>" for c2 u c3 w c4 c5
  proof -
    have "only_nuls c c5" using that(1-4) m v s only_nuls_trans by meson
    with that(5) show ?thesis by (simp add: only_nuls_def)
  qed
qed

lemma parse_line_next:
  assumes c: "line_inv c" and ok: "parse_line c = Inr (d, LINE_OK)"
  shows "line_inv (d\<lparr>m_start_line := m_checked_idx d\<rparr>)"
    and "ends_below (d\<lparr>m_start_line := m_checked_idx d\<rparr>) (m_start_line c)"
    and "m_read_idx d = m_read_idx c" and "m_check_state d = m_check_state c"
    and "m_checked_idx c < m_checked_idx d" and "m_checked_idx d \<le> m_read_idx c"
    and "m_start_line d = m_start_line c"
proof -
  obtain k where k: "scan_line (pending c) = (k, LINE_OK)"
    using parse_line_scan [OF c] ok by (cases "scan_line (pending c)") (auto simp: after_line_def split: if_splits)
  then have d: "d = fst (after_line c (k, LINE_OK))"
    using parse_line_scan [OF c] ok by (metis fst_conv sum.inject(2))
  have k2: "2 \<le> k" using k by (cases "pending c" rule: scan_line_cases) auto
  have below: "m_checked_idx c + int k \<le> m_read_idx c"
    using scan_line_bound [OF k] c by (simp add: length_pending line_inv_def read_inv_def) linarith
  show "line_inv (d\<lparr>m_start_line := m_checked_idx d\<rparr>)"
    using c k2 below by (simp add: d after_line_def line_inv_def read_inv_def put_two)
  let ?j = "m_checked_idx c + int k - 2"
  have "\<exists>x. c_str N (m_read_buf d) (m_start_line c) = Inr x \<and> int (length x) \<le> ?j - m_start_line c"
    using c k2 below by (intro c_str_terminated) (simp_all add: d after_line_def line_inv_def read_inv_def put_two)
  with below show "ends_below (d\<lparr>m_start_line := m_checked_idx d\<rparr>) (m_start_line c)"
    by (auto simp: ends_below_def d after_line_def)
  show "m_read_idx d = m_read_idx c" "m_check_state d = m_check_state c" "m_checked_idx c < m_checked_idx d"
    "m_checked_idx d \<le> m_read_idx c" "m_start_line d = m_start_line c"
    using k2 below by (simp_all add: d after_line_def)
qed

lemma line_inv_parsed:
  assumes "line_inv d" and "only_nuls d e" and "same_pos d e"
  shows "line_inv e"
proof -
  have "m_read_buf e i \<noteq> CR" if "m_read_buf d i \<noteq> CR" for i
  proof -
    from assms(2) have "m_read_buf e i = m_read_buf d i \<or> m_read_buf e i = NUL" by (simp add: only_nuls_def)
    with that show ?thesis by auto
  qed
  with assms(1,3) show ?thesis by (simp add: line_inv_def read_inv_def same_pos_def)
qed

text \<open>One turn of the loop, by what its condition says.\<close>

lemma read_loop_stop: "loop_guard c ls = Inr (d, st) \<Longrightarrow> st \<noteq> LINE_OK \<Longrightarrow>
   read_loop c ls = Inr (d, Return NO_REQUEST)"
  by (simp add: read_loop.simps [of c ls])

lemma read_loop_turn:
  assumes "loop_guard c ls = Inr (d, LINE_OK)"
  defines "e \<equiv> d\<lparr>m_start_line := m_checked_idx d\<rparr>"
  shows "m_check_state d = CHECK_STATE_REQUESTLINE \<Longrightarrow> read_loop c ls =
      rbind (parse_request_line e (m_start_line d)) (\<lambda>p.
        if snd p = BAD_REQUEST then Inr (fst p, Return BAD_REQUEST) else read_loop (fst p) LINE_OK)"
    and "m_check_state d = CHECK_STATE_HEADER \<Longrightarrow> read_loop c ls =
      rbind (parse_headers e (m_start_line d)) (\<lambda>p.
        if snd p = BAD_REQUEST then Inr (fst p, Return BAD_REQUEST)
        else if snd p = GET_REQUEST then Inr (fst p, Dispatch) else read_loop (fst p) LINE_OK)"
    and "m_check_state d = CHECK_STATE_CONTENT \<Longrightarrow> read_loop c ls =
      rbind (parse_content e (m_start_line d)) (\<lambda>p.
        if snd p = GET_REQUEST then Inr (fst p, Dispatch) else read_loop (fst p) LINE_OPEN)"
  using assms by (simp_all add: read_loop.simps [of c ls] get_line_def Let_def)

lemma read_loop_content_state:
  "read_loop c ls = Inr (c1, r) \<Longrightarrow> m_check_state c = CHECK_STATE_CONTENT \<Longrightarrow>
   m_check_state c1 = CHECK_STATE_CONTENT"
proof (induction c ls arbitrary: c1 r rule: read_loop.induct)
  case (1 c ls)
  from "1.prems"(1) obtain d st where g: "loop_guard c ls = Inr (d, st)"
    by (cases "loop_guard c ls") (auto simp: read_loop.simps [of c ls])
  have st_d: "m_check_state d = CHECK_STATE_CONTENT"
    using g "1.prems"(2) by (auto simp: loop_guard_def parse_line_frames split: if_splits)
  show ?case
  proof (cases "st = LINE_OK")
    case False
    with "1.prems"(1) read_loop_stop [OF g] st_d show ?thesis by auto
  next
    case True
    let ?d = "d\<lparr>m_start_line := m_checked_idx d\<rparr>"
    obtain p where e: "parse_content ?d (m_start_line d) = Inr p"
        "(if snd p = GET_REQUEST then Inr (fst p, Dispatch) else read_loop (fst p) LINE_OPEN) = Inr (c1, r)"
      using "1.prems"(1) read_loop_turn(3) [OF g [unfolded True] st_d] by (auto elim: rbindE)
    then have "m_check_state (fst p) = CHECK_STATE_CONTENT"
      using parse_content_pos [of ?d _ "fst p" "snd p"] st_d by simp
    with e "1.IH"(3) [OF g, of "get_line d" ?d p c1 r] True st_d show ?thesis
      by (auto simp: get_line_def split: if_splits)
  qed
qed

lemma read_loop_line_resume:
  assumes c: "line_inv c" and st: "m_check_state c \<noteq> CHECK_STATE_CONTENT"
    and room: "m_read_idx c + int (length s) \<le> N"
    and pl: "parse_line c = Inr (d, LINE_OK)" and loop: "read_loop c LINE_OK = Inr (c1, Return NO_REQUEST)"
  obtains e where "read_loop c LINE_OK = read_loop e LINE_OK"
    and "read_loop (store c s) LINE_OK = read_loop (store e s) LINE_OK"
    and "line_inv e" and "m_read_idx e = m_read_idx c"
    and "m_checked_idx c < m_checked_idx e" and "m_checked_idx e \<le> m_read_idx c"
proof -
  let ?d = "d\<lparr>m_start_line := m_checked_idx d\<rparr>" and ?t = "m_start_line d"
  note nx = parse_line_next [OF c pl]
  have g: "loop_guard c LINE_OK = Inr (d, LINE_OK)" using pl st by (simp add: loop_guard_def)
  have g': "loop_guard (store c s) LINE_OK = Inr (store d s, LINE_OK)"
    using parse_line_store_ok [OF c room pl] st by (simp add: loop_guard_def)
  have below: "ends_below ?d ?t" using nx(2,7) by simp
  have d_store: "(store d s)\<lparr>m_start_line := m_checked_idx (store d s)\<rparr> = store ?d s" by (simp add: store_upd)
  note turn = read_loop_turn [OF g] and turn' = read_loop_turn [OF g', unfolded d_store]
  note result = that
  have that_e: thesis if "only_nuls ?d e" "same_pos ?d e" "read_loop c LINE_OK = read_loop e LINE_OK"
      "read_loop (store c s) LINE_OK = read_loop (store e s) LINE_OK" for e
  proof (rule result [OF that(3,4)])
    show "line_inv e" by (rule line_inv_parsed [OF nx(1) that(1,2)])
  qed (use that(2) nx in \<open>auto simp: same_pos_def\<close>)
  show thesis
  proof (cases "m_check_state c")
    case CHECK_STATE_REQUESTLINE
    then obtain p where p: "parse_request_line ?d ?t = Inr p" "snd p \<noteq> BAD_REQUEST"
        "read_loop c LINE_OK = read_loop (fst p) LINE_OK"
      using loop turn(1) nx(4) by (auto elim!: rbindE split: if_splits)
    with turn'(1) CHECK_STATE_REQUESTLINE nx(4) parse_request_line_store [OF below, of s]
    show thesis
      using parse_request_line_nuls [of ?d ?t "fst p" "snd p"] parse_request_line_pos [of ?d ?t "fst p" "snd p"]
      by (intro that_e [of "fst p"]) (simp_all add: map_prod_def split_beta)
  next
    case CHECK_STATE_HEADER
    then obtain p where p: "parse_headers ?d ?t = Inr p" "snd p \<noteq> BAD_REQUEST" "snd p \<noteq> GET_REQUEST"
        "read_loop c LINE_OK = read_loop (fst p) LINE_OK"
      using loop turn(2) nx(4) by (auto elim!: rbindE split: if_splits)
    with turn'(2) CHECK_STATE_HEADER nx(4) parse_headers_store [OF below, of s]
    show thesis
      using parse_headers_pos [of ?d ?t "fst p" "snd p"]
      by (intro that_e [of "fst p"]) (simp_all add: map_prod_def split_beta only_nuls_def)
  qed (use st in simp)
qed

theorem read_loop_resume:
  assumes "line_inv c" and "m_check_state c1 \<noteq> CHECK_STATE_CONTENT"
    and "m_read_idx c + int (length s) \<le> READ_BUFFER_SIZE"
    and "read_loop c LINE_OK = Inr (c1, Return NO_REQUEST)"
  shows "read_loop (store c1 s) LINE_OK = read_loop (store c s) LINE_OK"
  using assms
proof (induction "nat (m_read_idx c - m_checked_idx c)" arbitrary: c rule: less_induct)
  case less
  note c = less.prems(1) and room = less.prems(3) and loop = less.prems(4)
  have not_content: "m_check_state c \<noteq> CHECK_STATE_CONTENT"
    using read_loop_content_state [OF loop] less.prems(2) by blast
  obtain d st where pl: "parse_line c = Inr (d, st)"
    using parse_line_scan [OF c] by (cases "after_line c (scan_line (pending c))") simp
  show ?case
  proof (cases "st = LINE_OK")
    case False
    from pl not_content have g: "loop_guard c LINE_OK = Inr (d, st)" by (simp add: loop_guard_def)
    then have c1: "c1 = d" using read_loop_stop [OF g False] loop by simp
    have "parse_line (store c1 s) = parse_line (store c s)"
      using parse_line_store_resume [OF c room pl False] by (simp add: c1)
    then have "loop_guard (store c1 s) LINE_OK = loop_guard (store c s) LINE_OK"
      using not_content less.prems(2) by (simp add: loop_guard_def)
    then show ?thesis by (simp add: read_loop.simps [of "store c1 s"] read_loop.simps [of "store c s"])
  next
    case True
    obtain e where e: "read_loop c LINE_OK = read_loop e LINE_OK"
        "read_loop (store c s) LINE_OK = read_loop (store e s) LINE_OK" "line_inv e"
        "m_read_idx e = m_read_idx c" "m_checked_idx c < m_checked_idx e" "m_checked_idx e \<le> m_read_idx c"
      by (rule read_loop_line_resume [OF c not_content room pl [unfolded True] loop])
    with less.hyps [of e] less.prems show ?thesis by simp
  qed
qed

section \<open>A body that arrives in two parts\<close>

lemma parse_content_waits:
  assumes "0 \<le> m_checked_idx c" and "m_checked_idx c \<le> N" and "m_content_length c \<le> N" and "0 \<le> m_content_length c"
    and "m_read_idx c < m_content_length c + m_checked_idx c"
  shows "parse_content c t = Inr (c, NO_REQUEST)"
  using assms by (simp add: parse_content_def int_add_ok INT_MIN_def INT_MAX_def READ_BUFFER_SIZE_def)

text \<open>
  Once the loop scans the body for line ends, nothing that it finds there completes the request
  as long as fewer bytes are there than are missing behind \<open>m_checked_idx\<close>.
\<close>

lemma read_loop_scans_body:
  assumes "line_inv c" and "m_check_state c = CHECK_STATE_CONTENT"
    and "0 \<le> m_content_length c" "m_content_length c \<le> N"
    and "m_read_idx c < m_content_length c + m_checked_idx c"
  shows "\<exists>c1. read_loop c LINE_OPEN = Inr (c1, Return NO_REQUEST) \<and> line_inv c1
    \<and> m_check_state c1 = CHECK_STATE_CONTENT \<and> m_content_length c1 = m_content_length c
    \<and> m_read_idx c1 = m_read_idx c
    \<and> m_checked_idx c + int (fst (scan_line (pending c))) \<le> m_checked_idx c1"
  using assms
proof (induction "nat (m_read_idx c - m_checked_idx c)" arbitrary: c rule: less_induct)
  case less
  note c = less.prems(1) and st = less.prems(2) and len = less.prems(3,4) and few = less.prems(5)
  obtain d ls where pl: "parse_line c = Inr (d, ls)"
    using parse_line_scan [OF c] by (cases "after_line c (scan_line (pending c))") simp
  then have g: "loop_guard c LINE_OPEN = Inr (d, ls)" by (simp add: loop_guard_def)
  have d: "m_checked_idx d = m_checked_idx c + int (fst (scan_line (pending c)))"
      "m_check_state d = CHECK_STATE_CONTENT" "m_content_length d = m_content_length c"
      "m_read_idx d = m_read_idx c"
    using parse_line_scan [OF c] pl st
    by (auto simp: after_line_def split: prod.splits if_splits)
  show ?case
  proof (cases "ls = LINE_OK")
    case False
    have "line_inv d" by (rule parse_line_not_ok [OF c pl False])
    with read_loop_stop [OF g False] d show ?thesis by simp
  next
    case True
    let ?e = "d\<lparr>m_start_line := m_checked_idx d\<rparr>"
    note nx = parse_line_next [OF c pl [unfolded True]]
    have e: "line_inv ?e" "0 \<le> m_checked_idx ?e" "m_checked_idx ?e \<le> N"
      using nx(1) by (simp_all add: line_inv_def read_inv_def)
    have few_e: "m_read_idx ?e < m_content_length ?e + m_checked_idx ?e" using few d nx(5) by simp
    have wait: "parse_content ?e (m_start_line d) = Inr (?e, NO_REQUEST)"
      using e len d few_e by (intro parse_content_waits) simp_all
    have "read_loop c LINE_OPEN = read_loop ?e LINE_OPEN"
      using read_loop_turn(3) [OF g [unfolded True] d(2)] wait by simp
    moreover have "nat (m_read_idx ?e - m_checked_idx ?e) < nat (m_read_idx c - m_checked_idx c)"
      using nx(5,6) d(4) by simp
    from less.hyps [OF this e(1)] d len few_e
    obtain c1 where "read_loop ?e LINE_OPEN = Inr (c1, Return NO_REQUEST)" "line_inv c1"
      "m_check_state c1 = CHECK_STATE_CONTENT" "m_content_length c1 = m_content_length c"
      "m_read_idx c1 = m_read_idx c" "m_checked_idx ?e \<le> m_checked_idx c1" by auto
    ultimately show ?thesis using d(1) by auto
  qed
qed

lemma read_loop_waits:
  assumes "line_inv c" and "m_check_state c = CHECK_STATE_CONTENT"
    and "0 \<le> m_content_length c" "m_content_length c \<le> N"
    and "m_read_idx c < m_content_length c + m_checked_idx c"
  obtains c1 where "read_loop c LINE_OK = Inr (c1, Return NO_REQUEST)" and "line_inv c1"
    and "m_check_state c1 = CHECK_STATE_CONTENT" and "m_content_length c1 = m_content_length c"
    and "m_read_idx c1 = m_read_idx c"
    and "m_checked_idx c + int (fst (scan_line (pending c))) \<le> m_checked_idx c1"
proof -
  let ?d = "c\<lparr>m_start_line := m_checked_idx c\<rparr>"
  have d: "line_inv ?d" "pending ?d = pending c" "0 \<le> m_checked_idx ?d" "m_checked_idx ?d \<le> N"
    using assms(1) by (auto simp: line_inv_def read_inv_def pending_def)
  have wait: "parse_content ?d (m_start_line c) = Inr (?d, NO_REQUEST)"
    using d assms by (intro parse_content_waits) simp_all
  have "read_loop c LINE_OK = read_loop ?d LINE_OPEN"
    using read_loop_turn(3) [of c LINE_OK c] assms(2) wait by (simp add: loop_guard_def)
  with read_loop_scans_body [OF d(1)] d(2) assms that show thesis by auto
qed

lemma split_body:
  assumes c: "at_line c" and st: "m_check_state c = CHECK_STATE_CONTENT"
    and b1: "pending c = b1" "b1 \<noteq> []" "hd b1 \<noteq> CR" "hd b1 \<noteq> LF" and b2: "b2 \<noteq> []"
    and len: "m_content_length c = int (length (b1 @ b2))"
    and room: "m_checked_idx c + int (length (b1 @ b2)) < READ_BUFFER_SIZE"
  shows "\<exists>c1 c2 c3. read_loop c LINE_OK = Inr (c1, Return NO_REQUEST)
    \<and> read_loop (store c1 b2) LINE_OK = Inr (c2, Return NO_REQUEST)
    \<and> read_loop (store c b2) LINE_OK = Inr (c3, Dispatch)"
proof -
  have c': "line_inv c" "read_inv c" using c by (simp_all add: at_line_def line_inv_def)
  have bounds: "0 \<le> m_checked_idx c" "m_checked_idx c \<le> m_read_idx c" using c'(2) by (simp_all add: read_inv_def)
  have l1: "int (length b1) = m_read_idx c - m_checked_idx c"
    using b1(1) length_pending [of c] bounds by auto
  have k: "1 \<le> fst (scan_line (pending c))"
    using b1 by (cases b1) (auto simp: scan_line_Cons split: prod.splits)
  obtain c1 where c1: "read_loop c LINE_OK = Inr (c1, Return NO_REQUEST)" "line_inv c1"
    "m_check_state c1 = CHECK_STATE_CONTENT" "m_content_length c1 = m_content_length c"
    "m_read_idx c1 = m_read_idx c"
    "m_checked_idx c + int (fst (scan_line (pending c))) \<le> m_checked_idx c1"
    by (rule read_loop_waits [OF c'(1) st]) (use b2 len room l1 bounds in \<open>auto simp: Suc_le_eq\<close>)
  have inv2: "line_inv (store c1 b2)"
    using room l1 c1(5) by (intro line_inv_store c1(2)) simp
  have c1x: "m_checked_idx c < m_checked_idx c1" using k c1(6) by linarith
  obtain c2 where second: "read_loop (store c1 b2) LINE_OK = Inr (c2, Return NO_REQUEST)"
    by (rule read_loop_waits [OF inv2]) (use c1 c1x len l1 room bounds in simp_all)
  have "at_line (store c b2)"
    using c line_inv_store [OF c'(1), of b2] room l1 by (simp add: at_line_def store_def)
  then have "read_loop (store c b2) LINE_OK = Inr ((store c b2)\<lparr>m_read_buf := (m_read_buf (store c b2))(m_checked_idx c + int (length (b1 @ b2)) := NUL),
                 m_string := Some (m_checked_idx c)\<rparr>, Dispatch)"
    by (subst read_loop_content [where n = "length (b1 @ b2)"])
      (use st len room l1 in \<open>simp_all add: store_def\<close>)
  with c1(1) second show ?thesis by blast
qed

section \<open>Receiving\<close>

text \<open>What a script of \<open>recv\<close> results delivers before it blocks, fails or reports the end.\<close>

fun received :: "recv_result list \<Rightarrow> string" where
  "received (Recv s # rs) = (if s = [] then [] else s @ received rs)"
| "received _ = []"

lemma store_store: "store (store c a) b = store c (a @ b)"
  by (simp add: store_def put_append)

lemma store_Nil: "store c [] = c"
  by (simp add: store_def put_Nil)

lemma read_once_et_store:
  "m_read_idx c \<le> N \<Longrightarrow> fst (read_once_et c rs) = store c (take (recv_asked c) (received rs))"
proof (induction rs arbitrary: c)
  case Nil
  then show ?case by (simp add: store_Nil)
next
  case (Cons r rs)
  show ?case
  proof (cases r)
    case (Recv s)
    let ?b = "take (recv_asked c) s"
    show ?thesis
    proof (cases "?b = []")
      case True
      then show ?thesis by (auto simp: Recv Let_def store_Nil)
    next
      case False
      have le: "m_read_idx (store c ?b) \<le> N" and asked: "recv_asked (store c ?b) = recv_asked c - length s"
        using Cons.prems by (auto simp: store_def recv_asked_def)
      from False have "read_once_et c (r # rs) = read_once_et (store c ?b) rs" by (simp add: Recv Let_def)
      then have "fst (read_once_et c (r # rs)) = store c (?b @ take (recv_asked c - length s) (received rs))"
        using Cons.IH [OF le] by (simp add: asked store_store)
      with False show ?thesis by (auto simp: Recv)
    qed
  qed (simp_all add: store_Nil)
qed

text \<open>
  In edge-triggered mode \<open>read_once\<close> stores exactly the bytes that the socket delivers, as
  far as the read buffer has room for them, and keeps the invariant of the scanner.
\<close>

theorem read_once_stores:
  assumes "line_inv c" and "m_TRIGMode c \<noteq> 0"
  shows "fst (read_once c rs) = store c (take (recv_asked c) (received rs))
    \<and> line_inv (fst (read_once c rs))"
proof -
  have le: "m_read_idx c \<le> N" using assms(1) by (simp add: line_inv_def read_inv_def)
  have eq: "fst (read_once c rs) = store c (take (recv_asked c) (received rs))"
    using read_once_et_store [OF le] assms(2) by (simp add: read_once_def recv_asked_def store_Nil)
  have "m_read_idx c + int (length (take (recv_asked c) (received rs))) \<le> N"
    using le by (simp add: recv_asked_def)
  with eq show ?thesis by (simp add: line_inv_store assms(1))
qed

theorem read_once_stores_witness:
  "fst (read_once (zero_conn\<lparr>m_TRIGMode := 1\<rparr>) [Recv ''GE'', Recv ''T'', Recv_EAGAIN])
   = store (zero_conn\<lparr>m_TRIGMode := 1\<rparr>) ''GET''"
  using read_once_stores [of "zero_conn\<lparr>m_TRIGMode := 1\<rparr>" "[Recv ''GE'', Recv ''T'', Recv_EAGAIN]"]
  by (simp add: line_inv_def read_inv_def zero_conn_def recv_asked_def READ_BUFFER_SIZE_def)

section \<open>The claims\<close>

text \<open>
  C8. Segmentation does not matter in the request line and the headers: parsing what is there
  and parsing again after more bytes have come gives what one parse of all the bytes gives.
\<close>

theorem segments_do_not_matter:
  assumes "line_inv c" and "m_read_idx c + int (length s) \<le> READ_BUFFER_SIZE"
    and "read_loop c LINE_OK = Inr (c1, Return NO_REQUEST)" and "m_check_state c1 \<noteq> CHECK_STATE_CONTENT"
  shows "read_loop (store c1 s) LINE_OK = read_loop (store c s) LINE_OK"
  using assms read_loop_resume by blast

theorem segments_do_not_matter_witness:
  "\<exists>c1. read_loop zero_conn LINE_OK = Inr (c1, Return NO_REQUEST)
     \<and> read_loop (store c1 ''GET'') LINE_OK = read_loop (store zero_conn ''GET'') LINE_OK"
proof -
  have "read_loop zero_conn LINE_OK = Inr (zero_conn, Return NO_REQUEST)"
    by (simp add: read_loop.simps loop_guard_def parse_line.simps zero_conn_def)
  moreover have "read_loop (store zero_conn ''GET'') LINE_OK = read_loop (store zero_conn ''GET'') LINE_OK"
    by (rule segments_do_not_matter [OF _ _ calculation])
      (simp_all add: line_inv_def read_inv_def zero_conn_def READ_BUFFER_SIZE_def)
  ultimately show ?thesis by blast
qed

text \<open>
  C32. A body that arrives in two parts, the first of which does not begin with a line end, is
  not recognised when it is all there: the first part and the second each make the parser ask
  for more, although the same bytes received at once complete the request. (A first part that
  begins with a line feed does not move \<open>m_checked_idx\<close>, and such a body is recognised.)
\<close>

theorem split_body_stalls:
  assumes "at_line c" and "m_check_state c = CHECK_STATE_CONTENT"
    and "pending c = b1" "b1 \<noteq> []" "hd b1 \<noteq> CR" "hd b1 \<noteq> LF" and "b2 \<noteq> []"
    and "m_content_length c = int (length (b1 @ b2))"
    and "m_checked_idx c + int (length (b1 @ b2)) < READ_BUFFER_SIZE"
  shows "\<exists>c1 c2 c3. read_loop c LINE_OK = Inr (c1, Return NO_REQUEST)
    \<and> read_loop (store c1 b2) LINE_OK = Inr (c2, Return NO_REQUEST)
    \<and> read_loop (store c b2) LINE_OK = Inr (c3, Dispatch)"
  using assms by (rule split_body)

definition body_conn :: http_conn where
  "body_conn = (store zero_conn ''ab'')\<lparr>m_check_state := CHECK_STATE_CONTENT, m_content_length := 4\<rparr>"

theorem split_body_stalls_witness:
  "\<exists>c1 c2 c3. read_loop body_conn LINE_OK = Inr (c1, Return NO_REQUEST)
    \<and> read_loop (store c1 [LF, CHR ''d'']) LINE_OK = Inr (c2, Return NO_REQUEST)
    \<and> read_loop (store body_conn [LF, CHR ''d'']) LINE_OK = Inr (c3, Dispatch)"
  by (rule split_body_stalls [of body_conn "''ab''"])
    (simp_all add: body_conn_def zero_conn_def store_def at_line_def line_inv_def read_inv_def
      pending_def get_def put_def upt_rec READ_BUFFER_SIZE_def)

section \<open>The indices into the read buffer\<close>

lemma parse_line_bound:
  "parse_line c = Inr (c1, st) \<Longrightarrow> m_checked_idx c \<le> m_read_idx c \<Longrightarrow> m_checked_idx c1 \<le> m_read_idx c"
proof (induction c arbitrary: c1 st rule: parse_line.induct)
  case (1 c)
  let ?x = "m_read_buf c (m_checked_idx c)" and ?n = "c\<lparr>m_checked_idx := m_checked_idx c + 1\<rparr>"
  show ?case
  proof (cases "m_checked_idx c < m_read_idx c \<and> is_ok (rdb c (m_checked_idx c)) \<and> ?x \<noteq> CR \<and> ?x \<noteq> LF")
    case True
    then have "parse_line c = parse_line ?n"
      by (simp add: parse_line.simps [of c] is_ok_iff rd_ok)
    with "1.prems" have n: "parse_line ?n = Inr (c1, st)" by simp
    from True "1.IH" [OF _ _ _ _ n, of ?x] show ?thesis
      by (simp add: is_ok_iff rd_ok)
  next
    case False
    with "1.prems" show ?thesis
      by (auto simp: parse_line.simps [of c] is_ok_iff elim!: rbindE split: if_splits)
  qed
qed

lemma guard_read_inv: "loop_guard c ls = Inr (d, st) \<Longrightarrow> read_inv c \<Longrightarrow> read_inv d"
  using parse_line_frames [of c d st] parse_line_bound [of c d st]
  by (auto simp: loop_guard_def read_inv_def split: if_splits)

lemma same_pos_read_inv: "same_pos c d \<Longrightarrow> read_inv c \<Longrightarrow> read_inv d"
  by (simp add: same_pos_def read_inv_def)

lemma read_inv_next: "read_inv d \<Longrightarrow> read_inv (d\<lparr>m_start_line := m_checked_idx d\<rparr>)"
  by (simp add: read_inv_def)

lemma read_loop_read_inv: "read_loop c ls = Inr (c1, r) \<Longrightarrow> read_inv c \<Longrightarrow> read_inv c1"
proof (induction c ls arbitrary: c1 r rule: read_loop.induct)
  case (1 c ls)
  obtain d st where g: "loop_guard c ls = Inr (d, st)"
    using "1.prems"(1) by (auto simp: read_loop.simps [of c ls] elim: rbindE)
  have d: "read_inv d" by (rule guard_read_inv [OF g "1.prems"(2)])
  show ?case
  proof (cases "st = LINE_OK")
    case False
    with "1.prems"(1) g d show ?thesis by (simp add: read_loop.simps [of c ls])
  next
    case True
    let ?d = "d\<lparr>m_start_line := m_checked_idx d\<rparr>"
    have ok: "\<not> snd (d, st) \<noteq> LINE_OK" using True by simp
    note IH = "1.IH" [OF g ok refl refl, unfolded fst_conv snd_conv]
    note run = "1.prems"(1) [unfolded read_loop.simps [of c ls] g, simplified, simplified True, simplified]
    have d': "read_inv ?d" by (rule read_inv_next [OF d])
    show ?thesis
    proof (cases "m_check_state ?d")
      case CHECK_STATE_REQUESTLINE
      with run obtain p where p: "parse_request_line ?d (get_line d) = Inr p"
        "(if snd p = BAD_REQUEST then Inr (fst p, Return BAD_REQUEST) else read_loop (fst p) LINE_OK) = Inr (c1, r)"
        by (auto simp: Let_def elim!: rbindE)
      have "read_inv (fst p)"
        using p(1) d' by (cases p) (auto dest!: parse_request_line_pos same_pos_read_inv)
      with p show ?thesis using IH(1) [OF CHECK_STATE_REQUESTLINE p(1)] by (auto split: if_splits)
    next
      case CHECK_STATE_HEADER
      with run obtain p where p: "parse_headers ?d (get_line d) = Inr p"
        "(if snd p = BAD_REQUEST then Inr (fst p, Return BAD_REQUEST)
          else if snd p = GET_REQUEST then Inr (fst p, Dispatch) else read_loop (fst p) LINE_OK) = Inr (c1, r)"
        by (auto simp: Let_def elim!: rbindE)
      have "read_inv (fst p)"
        using p(1) d' by (cases p) (auto dest!: parse_headers_pos same_pos_read_inv)
      with p show ?thesis using IH(2) [OF CHECK_STATE_HEADER p(1)] by (auto split: if_splits)
    next
      case CHECK_STATE_CONTENT
      with run obtain p where p: "parse_content ?d (get_line d) = Inr p"
        "(if snd p = GET_REQUEST then Inr (fst p, Dispatch) else read_loop (fst p) LINE_OPEN) = Inr (c1, r)"
        by (auto simp: Let_def elim!: rbindE)
      have "read_inv (fst p)"
        using p(1) d' by (cases p) (auto dest!: parse_content_pos same_pos_read_inv)
      with p show ?thesis using IH(3) [OF CHECK_STATE_CONTENT p(1)] by (auto split: if_splits)
    qed
  qed
qed

lemma store_read_inv: "read_inv c \<Longrightarrow> read_inv (store c (take (recv_asked c) s))"
  by (auto simp: read_inv_def store_def recv_asked_def)

lemma read_once_lt_fails:
  "read_once_lt c rs = (c1, False) \<Longrightarrow> c1 = c \<or> c1 = c\<lparr>m_read_idx := m_read_idx c - 1\<rparr>"
  by (cases "(c, rs)" rule: read_once_lt.cases) (auto simp: Let_def store_Nil split: if_splits)

lemma read_once_read_inv:
  assumes "read_once c rs = (c1, ok)" and "read_inv c" and "ok \<or> m_TRIGMode c \<noteq> 0"
  shows "read_inv c1"
proof (cases "m_TRIGMode c = 0")
  case True
  with assms store_read_inv [of c] show ?thesis
    by (cases "(c, rs)" rule: read_once_lt.cases) (auto simp: read_once_def Let_def split: if_splits)
next
  case False
  have "m_read_idx c \<le> N" using assms(2) by (simp add: read_inv_def)
  with assms False store_read_inv [of c "received rs"] read_once_et_store [of c rs] show ?thesis
    by (auto simp: read_once_def split: if_splits)
qed

text \<open>
  C23. The three positions in the read buffer stay in order and inside it. \<open>read_once\<close> keeps
  them so in every call but one kind, and the loop of \<open>process_read\<close> then does whatever the
  bytes are, if it has no undefined behaviour. The exception is a \<open>read_once\<close> that returns
  \<open>false\<close> in level-triggered mode: it leaves the connection as it was, or, when \<open>recv\<close> itself
  failed, with the \<open>-1\<close> added to \<open>m_read_idx\<close> and nothing else changed; both callers then close
  the connection and do not parse.
\<close>

theorem read_positions_in_order:
  assumes "read_inv c" and "read_once c rs = (c1, ok)"
  shows "if ok \<or> m_TRIGMode c \<noteq> 0
    then read_inv c1 \<and> (\<forall>c2 r. read_loop c1 LINE_OK = Inr (c2, r) \<longrightarrow>
      0 \<le> m_start_line c2 \<and> m_start_line c2 \<le> m_checked_idx c2 \<and> m_checked_idx c2 \<le> m_read_idx c2
      \<and> m_read_idx c2 \<le> READ_BUFFER_SIZE)
    else c1 = c \<or> c1 = c\<lparr>m_read_idx := m_read_idx c - 1\<rparr>"
proof (cases "ok \<or> m_TRIGMode c \<noteq> 0")
  case True
  note inv = read_once_read_inv [OF assms(2,1) True]
  from True inv read_loop_read_inv [OF _ inv] show ?thesis by (auto simp: read_inv_def)
next
  case False
  with assms(2) read_once_lt_fails [of c rs c1] show ?thesis
    by (auto simp: read_once_def split: if_splits)
qed

theorem read_positions_in_order_witness:
  "(\<exists>c2 r. read_loop (store zero_conn ''GE'') LINE_OK = Inr (c2, r) \<and> m_checked_idx c2 \<le> m_read_idx c2)
   \<and> read_inv (store (zero_conn\<lparr>m_TRIGMode := 1\<rparr>) ''GE'')"
proof -
  have o: "read_once zero_conn [Recv ''GE''] = (store zero_conn ''GE'', True)"
    by (simp add: read_once_def zero_conn_def recv_asked_def READ_BUFFER_SIZE_def Let_def)
  have i: "read_inv zero_conn" by (simp add: read_inv_def zero_conn_def READ_BUFFER_SIZE_def)
  obtain c2 where l: "read_loop (store zero_conn ''GE'') LINE_OK = Inr (c2, Return NO_REQUEST)"
    by (simp add: read_loop.simps loop_guard_def parse_line.simps zero_conn_def store_def put_def READ_BUFFER_SIZE_def rd_def)
  let ?e = "zero_conn\<lparr>m_TRIGMode := 1\<rparr>"
  have e: "read_once ?e [Recv ''GE'', Recv_Error] = (store ?e ''GE'', False)"
    by (simp add: read_once_def zero_conn_def recv_asked_def READ_BUFFER_SIZE_def Let_def)
  have ie: "read_inv ?e" by (simp add: read_inv_def zero_conn_def READ_BUFFER_SIZE_def)
  from l read_positions_in_order [OF i o] read_positions_in_order [OF ie e] show ?thesis by auto
qed

end
