(* ===== verification/Http_Response.thy ===== *)
theory Http_Response
  imports Http_Conn
begin

text \<open>
  The response writer of \<open>http_conn\<close>: \<open>add_response\<close> and the functions over it, and
  \<open>process_write\<close>, which turns the code of a request into a response.

  The program formats with \<open>vsnprintf\<close>. Each format string it uses is written out here as the
  text it expands to, so \<open>add_response c s\<close> appends the formatted text \<open>s\<close>; the argument of
  a \<open>%s\<close> that is a C string of a \<open>std::string\<close> ends at the first NUL (\<open>c_string\<close>).
  Numbers that C++ converts to \<open>int\<close> on the way (sizes, the length of a file) go through
  \<open>to_int32\<close>. \<open>response_text\<close> is the reference: the bytes a response should consist of.
\<close>

definition c_string :: "string \<Rightarrow> string" where
  "c_string s = takeWhile (\<lambda>x. x \<noteq> NUL) s"

definition vsnprintf :: "chars \<Rightarrow> int \<Rightarrow> int \<Rightarrow> string \<Rightarrow> chars" where
  "vsnprintf b at room s =
     (if room \<le> 0 then b else put b at (take (nat (room - 1)) s @ [NUL]))"

definition add_response :: "http_conn \<Rightarrow> string \<Rightarrow> http_conn \<times> bool" where
  "add_response c s =
     (if m_write_idx c \<ge> WRITE_BUFFER_SIZE then (c, False)
      else let room = WRITE_BUFFER_SIZE - 1 - m_write_idx c;
               len = int (length s);
               c1 = c\<lparr>m_write_buf := vsnprintf (m_write_buf c) (m_write_idx c) room s\<rparr>
           in if len \<ge> room then (c1, False)
              else (c1\<lparr>m_write_idx := m_write_idx c + len\<rparr>, True))"

text \<open>\<open>f() && g()\<close>: the second runs only if the first succeeds.\<close>

definition and_then :: "http_conn \<times> bool \<Rightarrow> (http_conn \<Rightarrow> http_conn \<times> bool) \<Rightarrow> http_conn \<times> bool" where
  "and_then r g = (if snd r then g (fst r) else r)"

definition crlf :: string where "crlf = [CR, LF]"

definition add_status_line :: "http_conn \<Rightarrow> int \<Rightarrow> string \<Rightarrow> http_conn \<times> bool" where
  "add_status_line c status title =
     add_response c (''HTTP/1.1'' @ [SPC] @ show_int status @ [SPC] @ title @ crlf)"

definition add_content_length :: "http_conn \<Rightarrow> int \<Rightarrow> http_conn \<times> bool" where
  "add_content_length c content_len =
     add_response c (''Content-Length:'' @ show_int content_len @ crlf)"

definition add_content_type :: "http_conn \<Rightarrow> string \<Rightarrow> http_conn \<times> bool" where
  "add_content_type c content_type = add_response c (''Content-Type: '' @ content_type @ crlf)"

definition add_linger :: "http_conn \<Rightarrow> http_conn \<times> bool" where
  "add_linger c =
     add_response c (''Connection:'' @ (if m_linger c then ''keep-alive'' else ''close'') @ crlf)"

definition add_blank_line :: "http_conn \<Rightarrow> http_conn \<times> bool" where
  "add_blank_line c = add_response c crlf"

definition add_headers :: "http_conn \<Rightarrow> int \<Rightarrow> http_conn \<times> bool" where
  "add_headers c content_len =
     and_then (and_then (add_content_length c content_len) add_linger) add_blank_line"

definition add_content :: "http_conn \<Rightarrow> string \<Rightarrow> http_conn \<times> bool" where
  "add_content c content = add_response c content"

section \<open>process_write\<close>

definition msg_404 :: string where "msg_404 = ''404 Not Found - Please check your root path.''"
definition msg_500 :: string where "msg_500 = ''Internal Error''"
definition msg_empty :: string where "msg_empty = ''<html><body>Empty File</body></html>''"
definition disposition :: string where
  "disposition = ''Content-Disposition: attachment; filename='' @ [CHR 0x22] @ ''result.csv'' @ [CHR 0x22] @ crlf"

text \<open>The last lines of \<open>process_write\<close>: one buffer to send.\<close>

definition send_buffer :: "http_conn \<Rightarrow> http_conn \<times> bool" where
  "send_buffer c =
     (c\<lparr>m_iv0 := \<lparr>iov_base = Write_Buf 0, iov_len = m_write_idx c\<rparr>, m_iv_count := 1,
        bytes_to_send := m_write_idx c\<rparr>, True)"

definition send_two :: "http_conn \<Rightarrow> iov_base \<Rightarrow> int \<Rightarrow> http_conn \<times> bool" where
  "send_two c base len =
     (c\<lparr>m_iv0 := \<lparr>iov_base = Write_Buf 0, iov_len = m_write_idx c\<rparr>,
        m_iv1 := \<lparr>iov_base = base, iov_len = len\<rparr>, m_iv_count := 2,
        bytes_to_send := to_int32 (m_write_idx c + len)\<rparr>, True)"

text \<open>\<open>if (!add_content(s)) return false; break;\<close>\<close>

definition content_or_fail :: "http_conn \<Rightarrow> string \<Rightarrow> http_conn \<times> bool" where
  "content_or_fail c content =
     (case add_content c content of (c1, ok) \<Rightarrow> if ok then send_buffer c1 else (c1, False))"

definition process_write :: "http_conn \<Rightarrow> HTTP_CODE \<Rightarrow> http_conn \<times> bool" where
  "process_write c ret = (case ret of
     NO_RESOURCE \<Rightarrow>
       let c1 = fst (add_status_line c 404 ''Not Found'');
           c2 = fst (add_headers c1 (int (length ''404 Not Found'')))
       in content_or_fail c2 msg_404
   | INTERNAL_ERROR \<Rightarrow>
       let c1 = fst (add_status_line c 500 ''Internal Error'');
           c2 = fst (add_headers c1 (int (length ''Internal Error'')))
       in content_or_fail c2 msg_500
   | FILE_REQUEST \<Rightarrow>
       let c1 = fst (add_status_line c 200 ''OK'')
       in if st_size (m_file_stat c1) \<noteq> 0
          then let c2 = fst (add_headers c1 (to_int32 (st_size (m_file_stat c1))))
               in send_two c2 (File_Addr 0) (st_size (m_file_stat c2))
          else let c2 = fst (add_headers c1 (int (length msg_empty)))
               in content_or_fail c2 msg_empty
   | DIAGNOSE_REQUEST \<Rightarrow>
       let c1 = fst (add_status_line c 200 ''OK'');
           c2 = fst (add_content_length c1 (to_int32 (int (length (m_response_json c1)))));
           c3 = fst (add_content_type c2 ''application/json'');
           c4 = fst (add_linger c3);
           c5 = fst (add_blank_line c4)
       in content_or_fail c5 (c_string (m_response_json c5))
   | DIAGNOSE_CSV_REQUEST \<Rightarrow>
       let c1 = fst (add_status_line c 200 ''OK'');
           c2 = fst (add_response c1 (''Content-Type: text/csv'' @ crlf));
           c3 = fst (add_response c2 disposition);
           c4 = fst (add_content_length c3 (to_int32 (int (length (m_response_csv c3)))));
           c5 = fst (add_linger c4);
           c6 = fst (add_blank_line c5)
       in send_two c6 (Csv_Data 0) (int (length (m_response_csv c6)))
   | _ \<Rightarrow>
       let c1 = fst (add_status_line c 400 ''Bad Request'');
           c2 = fst (add_headers c1 0)
       in send_buffer c2)"

section \<open>What the buffer holds\<close>

text \<open>\<open>wrote c s\<close>: the response text so far is \<open>s\<close>.\<close>

definition wrote :: "http_conn \<Rightarrow> string \<Rightarrow> bool" where
  "wrote c s \<longleftrightarrow> m_write_idx c = int (length s) \<and> get (m_write_buf c) 0 (length s) = s"

lemma add_response_frames [frames, simp]:
  "m_linger (fst (add_response c t)) = m_linger c"
  "m_file_stat (fst (add_response c t)) = m_file_stat c"
  "m_file_address (fst (add_response c t)) = m_file_address c"
  "m_response_json (fst (add_response c t)) = m_response_json c"
  "m_response_csv (fst (add_response c t)) = m_response_csv c"
  "bytes_have_send (fst (add_response c t)) = bytes_have_send c"
  "m_sockfd (fst (add_response c t)) = m_sockfd c"
  "m_TRIGMode (fst (add_response c t)) = m_TRIGMode c"
  by (simp_all add: add_response_def Let_def)

text \<open>
  One append: it succeeds exactly when the buffer then still has two free bytes (one for the
  NUL, one the size passed to \<open>vsnprintf\<close> leaves out). On failure the text so far is kept.
\<close>

lemma wrote_append:
  assumes "wrote c s" and "int (length (s @ t)) < WRITE_BUFFER_SIZE - 1"
  shows "wrote (fst (add_response c t)) (s @ t)" and "snd (add_response c t)"
proof -
  have idx: "m_write_idx c = int (length s)" and old: "get (m_write_buf c) 0 (length s) = s"
    using assms(1) by (simp_all add: wrote_def)
  let ?b = "put (m_write_buf c) (int (length s)) (t @ [NUL])"
  have "get ?b 0 (length s) = s"
    using old get_put_disjoint [of 0 "length s" "int (length s)" "t @ [NUL]" "m_write_buf c"] by simp
  moreover have "get ?b (int (length s)) (length t) = t"
    using get_put_same [of "m_write_buf c" "int (length s)" "t @ [NUL]"] get_add [of ?b "int (length s)" "length t" 1]
    by simp
  ultimately have "get ?b 0 (length s + length t) = s @ t"
    using get_add [of ?b 0 "length s" "length t"] by simp
  moreover have "add_response c t = (c\<lparr>m_write_buf := ?b, m_write_idx := int (length s + length t)\<rparr>, True)"
    using assms(2) idx by (simp add: add_response_def vsnprintf_def Let_def)
  ultimately show "wrote (fst (add_response c t)) (s @ t)" and "snd (add_response c t)"
    by (simp_all add: wrote_def)
qed

lemma wrote_overflow:
  assumes "wrote c s" and "\<not> int (length (s @ t)) < WRITE_BUFFER_SIZE - 1"
    and "int (length s) < WRITE_BUFFER_SIZE"
  shows "wrote (fst (add_response c t)) s" and "\<not> snd (add_response c t)"
proof -
  let ?b = "vsnprintf (m_write_buf c) (m_write_idx c) (WRITE_BUFFER_SIZE - 1 - m_write_idx c) t"
  have idx: "m_write_idx c = int (length s)" and old: "get (m_write_buf c) 0 (length s) = s"
    using assms(1) by (simp_all add: wrote_def)
  have "get ?b 0 (length s) = s"
    using old by (simp add: idx vsnprintf_def get_put_disjoint)
  with idx assms show "wrote (fst (add_response c t)) s" "\<not> snd (add_response c t)"
    by (simp_all add: add_response_def Let_def wrote_def)
qed

section \<open>Responses against a reference message\<close>

definition status_line :: "int \<Rightarrow> string \<Rightarrow> string" where
  "status_line status title = ''HTTP/1.1'' @ [SPC] @ show_int status @ [SPC] @ title @ crlf"

definition header_line :: "string \<Rightarrow> string \<Rightarrow> string" where
  "header_line name v = name @ '':'' @ v @ crlf"

text \<open>A message: the status line, the fields, an empty line and the body.\<close>

definition http_message :: "int \<Rightarrow> string \<Rightarrow> (string \<times> string) list \<Rightarrow> string \<Rightarrow> string" where
  "http_message status title hdrs body =
     status_line status title @ concat (map (\<lambda>(n, v). header_line n v) hdrs) @ crlf @ body"

definition length_field :: "int \<Rightarrow> string \<times> string" where
  "length_field n = (''Content-Length'', show_int n)"

definition connection_field :: "bool \<Rightarrow> string \<times> string" where
  "connection_field linger = (''Connection'', if linger then ''keep-alive'' else ''close'')"

lemmas message_defs = http_message_def status_line_def header_line_def length_field_def
  connection_field_def crlf_def

lemma wrote_step:
  "wrote c s \<Longrightarrow> u = s @ t \<Longrightarrow> int (length u) < WRITE_BUFFER_SIZE - 1 \<Longrightarrow>
   wrote (fst (add_response c t)) u \<and> snd (add_response c t)"
  using wrote_append by blast

lemmas add_defs = add_status_line_def add_content_length_def add_content_type_def add_linger_def
  add_blank_line_def add_content_def

lemma wrote_status_line:
  "wrote c [] \<Longrightarrow> int (length (status_line n t)) < WRITE_BUFFER_SIZE - 1 \<Longrightarrow>
   wrote (fst (add_status_line c n t)) (status_line n t)"
  using wrote_step [of c "[]" "status_line n t" "status_line n t"]
  by (simp add: add_status_line_def status_line_def)

lemma add_headers_frames [frames, simp]:
  "m_linger (fst (add_headers c n)) = m_linger c"
  "m_file_stat (fst (add_headers c n)) = m_file_stat c"
  "m_file_address (fst (add_headers c n)) = m_file_address c"
  "m_response_json (fst (add_headers c n)) = m_response_json c"
  "m_response_csv (fst (add_headers c n)) = m_response_csv c"
  "bytes_have_send (fst (add_headers c n)) = bytes_have_send c"
  "m_sockfd (fst (add_headers c n)) = m_sockfd c"
  "m_TRIGMode (fst (add_headers c n)) = m_TRIGMode c"
  by (simp_all add: add_headers_def and_then_def add_defs)

lemma wrote_headers:
  assumes "wrote c s"
    and "int (length (s @ header_line ''Content-Length'' (show_int n)
           @ header_line ''Connection'' (if m_linger c then ''keep-alive'' else ''close'') @ crlf)) < WRITE_BUFFER_SIZE - 1"
  shows "wrote (fst (add_headers c n)) (s @ header_line ''Content-Length'' (show_int n)
           @ header_line ''Connection'' (if m_linger c then ''keep-alive'' else ''close'') @ crlf)"
proof -
  let ?l = "header_line ''Content-Length'' (show_int n)"
    and ?k = "header_line ''Connection'' (if m_linger c then ''keep-alive'' else ''close'')"
  have 1: "wrote (fst (add_content_length c n)) (s @ ?l)" "snd (add_content_length c n)"
    using wrote_step [OF assms(1), of "s @ ?l" ?l] assms(2)
    by (simp_all add: add_content_length_def header_line_def)
  have 2: "wrote (fst (add_linger (fst (add_content_length c n)))) (s @ ?l @ ?k)"
     "snd (add_linger (fst (add_content_length c n)))"
    using wrote_step [OF 1(1), of "s @ ?l @ ?k" ?k] assms(2)
    by (simp_all add: add_linger_def add_content_length_def header_line_def)
  show ?thesis
    using wrote_step [OF 2(1), of "s @ ?l @ ?k @ crlf" crlf] assms(2) 1 2
    by (simp add: add_headers_def and_then_def add_blank_line_def)
qed

section \<open>The bytes handed to writev\<close>

text \<open>
  What the entries of \<open>m_iv\<close> denote. Reading outside the object an entry points into is
  undefined behaviour; so is an address that is null or was never set.
\<close>

definition slice :: "string \<Rightarrow> int \<Rightarrow> int \<Rightarrow> string res" where
  "slice s i n =
     (if 0 \<le> i \<and> i + n \<le> int (length s) then Inr (take (nat n) (drop (nat i) s)) else Inl Out_Of_Bounds)"

definition iov_bytes :: "http_conn \<Rightarrow> iovec \<Rightarrow> string res" where
  "iov_bytes c v =
     (if iov_len v \<le> 0 then Inr []
      else case iov_base v of
        Write_Buf i \<Rightarrow>
          if 0 \<le> i \<and> i + iov_len v \<le> WRITE_BUFFER_SIZE
          then Inr (get (m_write_buf c) i (nat (iov_len v))) else Inl Out_Of_Bounds
      | File_Addr i \<Rightarrow>
          (case m_file_address c of
             FA_Mapped s \<Rightarrow> slice s i (iov_len v)
           | FA_Null \<Rightarrow> Inl Null_Deref
           | FA_Failed \<Rightarrow> Inl Out_Of_Bounds
           | FA_Unset \<Rightarrow> Inl Uninitialised)
      | Csv_Data i \<Rightarrow> slice (m_response_csv c) i (iov_len v))"

definition outgoing :: "http_conn \<Rightarrow> string res" where
  "outgoing c = rbind (iov_bytes c (m_iv0 c)) (\<lambda>s.
     if m_iv_count c = 1 then Inr s
     else rbind (iov_bytes c (m_iv1 c)) (\<lambda>t. Inr (s @ t)))"

lemma iov_bytes_header:
  "wrote c s \<Longrightarrow> int (length s) \<le> WRITE_BUFFER_SIZE \<Longrightarrow>
   m_write_buf c' = m_write_buf c \<Longrightarrow>
   iov_bytes c' \<lparr>iov_base = Write_Buf 0, iov_len = m_write_idx c\<rparr> = Inr s"
  by (auto simp: iov_bytes_def wrote_def)

lemma outgoing_send_buffer:
  assumes "wrote c s" and "int (length s) \<le> WRITE_BUFFER_SIZE"
  shows "outgoing (fst (send_buffer c)) = Inr s" and "bytes_to_send (fst (send_buffer c)) = int (length s)"
  using iov_bytes_header [OF assms, of "fst (send_buffer c)"] assms(1)
  by (simp_all add: outgoing_def send_buffer_def wrote_def)

lemma outgoing_send_two:
  assumes "wrote c s" and "int (length s) < WRITE_BUFFER_SIZE" and "int (length t) + WRITE_BUFFER_SIZE \<le> INT_MAX"
    and "(base = File_Addr 0 \<and> m_file_address c = FA_Mapped t) \<or> (base = Csv_Data 0 \<and> m_response_csv c = t)"
  shows "outgoing (fst (send_two c base (int (length t)))) = Inr (s @ t)"
    and "bytes_to_send (fst (send_two c base (int (length t)))) = int (length (s @ t))"
proof -
  let ?c = "fst (send_two c base (int (length t)))"
  have "iov_bytes ?c \<lparr>iov_base = base, iov_len = int (length t)\<rparr> = Inr t"
    using assms(4) by (auto simp: iov_bytes_def slice_def send_two_def)
  then show "outgoing ?c = Inr (s @ t)"
    using iov_bytes_header [OF assms(1), of ?c] assms(2) by (simp add: outgoing_def send_two_def)
  show "bytes_to_send ?c = int (length (s @ t))"
    using assms(1-3) by (simp add: send_two_def wrote_def to_int32_id INT_MIN_def)
qed

section \<open>Every answer is a message with its length\<close>

definition status_of :: "HTTP_CODE \<Rightarrow> int \<times> string" where
  "status_of ret = (case ret of
     NO_RESOURCE \<Rightarrow> (404, ''Not Found'')
   | INTERNAL_ERROR \<Rightarrow> (500, ''Internal Error'')
   | FILE_REQUEST \<Rightarrow> (200, ''OK'')
   | DIAGNOSE_REQUEST \<Rightarrow> (200, ''OK'')
   | DIAGNOSE_CSV_REQUEST \<Rightarrow> (200, ''OK'')
   | _ \<Rightarrow> (400, ''Bad Request''))"

definition payload :: "http_conn \<Rightarrow> HTTP_CODE \<Rightarrow> string" where
  "payload c ret = (case ret of
     NO_RESOURCE \<Rightarrow> msg_404
   | INTERNAL_ERROR \<Rightarrow> msg_500
   | FILE_REQUEST \<Rightarrow>
       (if st_size (m_file_stat c) = 0 then msg_empty
        else (case m_file_address c of FA_Mapped s \<Rightarrow> s | _ \<Rightarrow> []))
   | DIAGNOSE_REQUEST \<Rightarrow> m_response_json c
   | DIAGNOSE_CSV_REQUEST \<Rightarrow> m_response_csv c
   | _ \<Rightarrow> [])"

definition header_fields :: "http_conn \<Rightarrow> HTTP_CODE \<Rightarrow> int \<Rightarrow> (string \<times> string) list" where
  "header_fields c ret len = (case ret of
     DIAGNOSE_REQUEST \<Rightarrow>
       [length_field len, (''Content-Type'', '' application/json''), connection_field (m_linger c)]
   | DIAGNOSE_CSV_REQUEST \<Rightarrow>
       [(''Content-Type'', '' text/csv''),
        (''Content-Disposition'', '' attachment; filename='' @ [CHR 0x22] @ ''result.csv'' @ [CHR 0x22]),
        length_field len, connection_field (m_linger c)]
   | _ \<Rightarrow> [length_field len, connection_field (m_linger c)])"

definition answer :: "http_conn \<Rightarrow> HTTP_CODE \<Rightarrow> int \<Rightarrow> string" where
  "answer c ret len =
     http_message (fst (status_of ret)) (snd (status_of ret)) (header_fields c ret len) (payload c ret)"

text \<open>
  The payloads the connection can send: a file must be mapped whole, a JSON text must fit the
  write buffer and have no NUL in it, and sizes must stay within \<open>int\<close>.
\<close>

definition sendable :: "http_conn \<Rightarrow> HTTP_CODE \<Rightarrow> bool" where
  "sendable c ret = (case ret of
     FILE_REQUEST \<Rightarrow> st_size (m_file_stat c) = 0
       \<or> (case m_file_address c of
            FA_Mapped s \<Rightarrow> st_size (m_file_stat c) = int (length s) \<and> int (length s) + WRITE_BUFFER_SIZE \<le> INT_MAX
          | _ \<Rightarrow> False)
   | DIAGNOSE_REQUEST \<Rightarrow> NUL \<notin> set (m_response_json c)
       \<and> int (length (answer c DIAGNOSE_REQUEST (int (length (m_response_json c))))) < WRITE_BUFFER_SIZE - 1
   | DIAGNOSE_CSV_REQUEST \<Rightarrow> int (length (m_response_csv c)) + WRITE_BUFFER_SIZE \<le> INT_MAX
   | _ \<Rightarrow> True)"

definition answered :: "http_conn \<times> bool \<Rightarrow> string \<Rightarrow> bool" where
  "answered r s \<longleftrightarrow> snd r \<and> outgoing (fst r) = Inr s \<and> bytes_to_send (fst r) = int (length s)"

lemma WBS: "WRITE_BUFFER_SIZE = 65536"
  by (simp add: WRITE_BUFFER_SIZE_def)

lemma length_title: "length (status_line n t) \<le> 23 + length t" if "INT_MIN \<le> n" "n \<le> INT_MAX"
  using length_show_int32 [OF that] by (simp add: status_line_def crlf_def)

lemma answered_buffer:
  "wrote c s \<Longrightarrow> int (length s) < WRITE_BUFFER_SIZE - 1 \<Longrightarrow> answered (send_buffer c) s"
  using outgoing_send_buffer [of c s] by (simp add: answered_def send_buffer_def)

lemma answered_content:
  assumes "wrote c s" and "int (length (s @ t)) < WRITE_BUFFER_SIZE - 1"
  shows "answered (content_or_fail c t) (s @ t)"
  using wrote_append [OF assms] answered_buffer [of "fst (add_response c t)" "s @ t"] assms(2)
  by (cases "add_response c t") (simp add: content_or_fail_def add_content_def)

lemma answered_two:
  assumes "wrote c s" and "int (length s) < WRITE_BUFFER_SIZE" and "int (length t) + WRITE_BUFFER_SIZE \<le> INT_MAX"
    and "(base = File_Addr 0 \<and> m_file_address c = FA_Mapped t) \<or> (base = Csv_Data 0 \<and> m_response_csv c = t)"
  shows "answered (send_two c base (int (length t))) (s @ t)"
  using outgoing_send_two [OF assms] by (simp add: answered_def send_two_def)

text \<open>A head with the two standard fields, for a title of at most 100 bytes.\<close>

definition plain_head :: "int \<Rightarrow> string \<Rightarrow> int \<Rightarrow> bool \<Rightarrow> string" where
  "plain_head status title len linger =
     http_message status title [length_field len, connection_field linger] []"

lemma wrote_plain_head:
  assumes "wrote c []" and "length title \<le> 100" and "INT_MIN \<le> status" "status \<le> INT_MAX"
    and "INT_MIN \<le> len" "len \<le> INT_MAX"
  shows "wrote (fst (add_headers (fst (add_status_line c status title)) len))
           (plain_head status title len (m_linger c))"
    and "length (plain_head status title len (m_linger c)) \<le> 200"
proof -
  let ?h = "plain_head status title len (m_linger c)"
  have show_len: "length (show_int status) \<le> 11" "length (show_int len) \<le> 11"
    using assms by (auto intro: length_show_int32)
  with assms(2) show small: "length ?h \<le> 200"
    by (simp add: plain_head_def message_defs)
  have s: "wrote (fst (add_status_line c status title)) (status_line status title)"
    using show_len assms(2) by (intro wrote_status_line assms(1)) (simp add: status_line_def crlf_def WBS)
  have h: "?h = status_line status title @ header_line ''Content-Length'' (show_int len)
           @ header_line ''Connection'' (if m_linger c then ''keep-alive'' else ''close'') @ crlf"
    by (simp add: plain_head_def http_message_def length_field_def connection_field_def)
  have "m_linger (fst (add_status_line c status title)) = m_linger c"
    by (simp add: add_status_line_def)
  then show "wrote (fst (add_headers (fst (add_status_line c status title)) len)) ?h"
    using wrote_headers [OF s, of len] small by (simp add: h WBS)
qed

lemma wrote_Cons_heads:
  assumes "wrote c s" and "\<forall>i < length ts. int (length (s @ concat (take (Suc i) ts))) < WRITE_BUFFER_SIZE - 1"
  shows "wrote (foldl (\<lambda>c t. fst (add_response c t)) c ts) (s @ concat ts)"
  using assms
proof (induction ts arbitrary: c s)
  case Nil
  then show ?case by simp
next
  case (Cons t ts)
  have "wrote (fst (add_response c t)) (s @ t)"
    using Cons.prems by (intro wrote_append(1)) auto
  moreover have "\<forall>i < length ts. int (length ((s @ t) @ concat (take (Suc i) ts))) < WRITE_BUFFER_SIZE - 1"
    using Cons.prems(2) by (metis Suc_mono append.assoc concat.simps(2) length_Cons take_Suc_Cons)
  ultimately show ?case using Cons.IH [of "fst (add_response c t)" "s @ t"] by simp
qed

lemma wrote_appends:
  assumes "wrote c []" and "int (length (concat ts)) < WRITE_BUFFER_SIZE - 1"
  shows "wrote (foldl (\<lambda>c t. fst (add_response c t)) c ts) (concat ts)"
proof -
  have "length (concat (take k ts)) \<le> length (concat ts)" for k
    by (metis append_take_drop_id concat_append le_add1 length_append)
  then have "int (length (concat (take k ts))) < WRITE_BUFFER_SIZE - 1" for k
    using assms(2) by (meson le_less_trans of_nat_le_iff)
  then show ?thesis using wrote_Cons_heads [OF assms(1), of ts] by simp
qed

lemma answer_plain:
  assumes "wrote c []" and "ret \<notin> {DIAGNOSE_REQUEST, DIAGNOSE_CSV_REQUEST}"
    and "INT_MIN \<le> len" "len \<le> INT_MAX"
  defines "c2 \<equiv> fst (add_headers (fst (add_status_line c (fst (status_of ret)) (snd (status_of ret)))) len)"
  shows "\<exists>h. wrote c2 h \<and> length h \<le> 200 \<and> answer c ret len = h @ payload c ret"
proof -
  have "wrote c2 (plain_head (fst (status_of ret)) (snd (status_of ret)) len (m_linger c))"
    and "length (plain_head (fst (status_of ret)) (snd (status_of ret)) len (m_linger c)) \<le> 200"
    unfolding c2_def using assms(1,3,4)
    by (intro wrote_plain_head; cases ret; simp add: status_of_def INT_MIN_def INT_MAX_def)+
  moreover have "answer c ret len =
     plain_head (fst (status_of ret)) (snd (status_of ret)) len (m_linger c) @ payload c ret"
    using assms(2) by (cases ret) (simp_all add: answer_def plain_head_def http_message_def header_fields_def)
  ultimately show ?thesis by blast
qed

lemma status_frames [frames, simp]:
  "m_linger (fst (add_status_line c n t)) = m_linger c"
  "m_file_stat (fst (add_status_line c n t)) = m_file_stat c"
  "m_file_address (fst (add_status_line c n t)) = m_file_address c"
  "m_response_json (fst (add_status_line c n t)) = m_response_json c"
  "m_response_csv (fst (add_status_line c n t)) = m_response_csv c"
  by (simp_all add: add_status_line_def)

lemma answered_error:
  assumes "wrote c []" and "ret \<in> {NO_RESOURCE, INTERNAL_ERROR}"
    and len: "len = (if ret = NO_RESOURCE then 13 else 14)"
  shows "answered (process_write c ret) (answer c ret len)"
proof -
  have "INT_MIN \<le> len" "len \<le> INT_MAX" using len by (auto simp: INT_MIN_def INT_MAX_def)
  with answer_plain [OF assms(1), of ret len] assms(2) obtain h
    where h: "wrote (fst (add_headers (fst (add_status_line c (fst (status_of ret)) (snd (status_of ret)))) len)) h"
      "length h \<le> 200" "answer c ret len = h @ payload c ret" by auto
  have "int (length (h @ payload c ret)) < WRITE_BUFFER_SIZE - 1"
    using h(2) assms(2) by (auto simp: payload_def msg_404_def msg_500_def WBS)
  from answered_content [OF h(1) this] show ?thesis
    unfolding h(3) using assms(2) len by (auto simp: process_write_def status_of_def payload_def)
qed

lemma answered_file:
  assumes "wrote c []" and "sendable c FILE_REQUEST"
  shows "answered (process_write c FILE_REQUEST) (answer c FILE_REQUEST (int (length (payload c FILE_REQUEST))))"
proof (cases "st_size (m_file_stat c) = 0")
  case True
  have len: "int (length msg_empty) = 36" by (simp add: msg_empty_def)
  obtain h where h: "wrote (fst (add_headers (fst (add_status_line c 200 ''OK'')) 36)) h"
      "length h \<le> 200" "answer c FILE_REQUEST 36 = h @ payload c FILE_REQUEST"
    using answer_plain [OF assms(1), of FILE_REQUEST 36] by (auto simp: status_of_def INT_MIN_def INT_MAX_def)
  have "int (length (h @ msg_empty)) < WRITE_BUFFER_SIZE - 1" using h(2) len by (simp add: WBS)
  from answered_content [OF h(1) this] show ?thesis
    using True h(3) len by (simp add: process_write_def payload_def)
next
  case False
  then obtain s where s: "m_file_address c = FA_Mapped s" "st_size (m_file_stat c) = int (length s)"
      "int (length s) + WRITE_BUFFER_SIZE \<le> INT_MAX"
    using assms(2) by (cases "m_file_address c") (auto simp: sendable_def)
  then have range: "INT_MIN \<le> int (length s)" "int (length s) \<le> INT_MAX"
    by (simp_all add: WBS INT_MIN_def INT_MAX_def)
  obtain h where h: "wrote (fst (add_headers (fst (add_status_line c 200 ''OK'')) (int (length s)))) h"
      "length h \<le> 200" "answer c FILE_REQUEST (int (length s)) = h @ payload c FILE_REQUEST"
    using answer_plain [OF assms(1), of FILE_REQUEST "int (length s)"] range by (auto simp: status_of_def)
  have "answered (send_two (fst (add_headers (fst (add_status_line c 200 ''OK'')) (int (length s))))
      (File_Addr 0) (int (length s))) (h @ s)"
    using h(2) s by (intro answered_two h(1)) (simp_all add: WBS)
  with False s h(3) show ?thesis
    by (simp add: process_write_def payload_def to_int32_id range)
qed

lemma answered_json:
  assumes "wrote c []" and "sendable c DIAGNOSE_REQUEST"
  shows "answered (process_write c DIAGNOSE_REQUEST)
    (answer c DIAGNOSE_REQUEST (int (length (payload c DIAGNOSE_REQUEST))))"
proof -
  let ?n = "int (length (m_response_json c))"
  let ?ts = "[status_line 200 ''OK'', header_line ''Content-Length'' (show_int ?n),
    header_line ''Content-Type'' '' application/json'',
    header_line ''Connection'' (if m_linger c then ''keep-alive'' else ''close''), crlf]"
  have a: "answer c DIAGNOSE_REQUEST ?n = concat ?ts @ m_response_json c"
    by (simp add: answer_def http_message_def status_of_def header_fields_def length_field_def
        connection_field_def payload_def)
  have fit: "int (length (concat ?ts @ m_response_json c)) < WRITE_BUFFER_SIZE - 1"
    and nul: "c_string (m_response_json c) = m_response_json c"
    using assms(2) a by (auto simp: sendable_def c_string_def takeWhile_eq_all_conv)
  then have "?n < WRITE_BUFFER_SIZE - 1" "int (length (concat ?ts)) < WRITE_BUFFER_SIZE - 1" by simp_all
  then have n: "to_int32 ?n = ?n" by (intro to_int32_id) (simp_all add: WBS INT_MIN_def INT_MAX_def)
  have "wrote (foldl (\<lambda>c t. fst (add_response c t)) c ?ts) (concat ?ts)"
    by (rule wrote_appends) fact+
  from answered_content [OF this fit] show ?thesis
    using n nul by (simp add: process_write_def a add_defs payload_def status_line_def header_line_def)
qed

lemma answered_csv:
  assumes "wrote c []" and "sendable c DIAGNOSE_CSV_REQUEST"
  shows "answered (process_write c DIAGNOSE_CSV_REQUEST)
    (answer c DIAGNOSE_CSV_REQUEST (int (length (payload c DIAGNOSE_CSV_REQUEST))))"
proof -
  let ?n = "int (length (m_response_csv c))"
  let ?ts = "[status_line 200 ''OK'', header_line ''Content-Type'' '' text/csv'', disposition,
    header_line ''Content-Length'' (show_int ?n),
    header_line ''Connection'' (if m_linger c then ''keep-alive'' else ''close''), crlf]"
  have range: "INT_MIN \<le> ?n" "?n \<le> INT_MAX" "?n + WRITE_BUFFER_SIZE \<le> INT_MAX"
    using assms(2) by (simp_all add: sendable_def INT_MIN_def INT_MAX_def WBS)
  have a: "answer c DIAGNOSE_CSV_REQUEST ?n = concat ?ts @ m_response_csv c"
    by (simp add: answer_def http_message_def status_of_def header_fields_def length_field_def
        connection_field_def payload_def disposition_def header_line_def)
  have "length (concat ?ts) \<le> 300"
    using length_title [of 200 "''OK''"] length_show_int32 [OF range(1,2)]
    by (simp add: header_line_def crlf_def disposition_def INT_MIN_def INT_MAX_def)
  then have small: "int (length (concat ?ts)) < WRITE_BUFFER_SIZE - 1" by (simp add: WBS)
  have w: "wrote (foldl (\<lambda>c t. fst (add_response c t)) c ?ts) (concat ?ts)"
    by (rule wrote_appends) fact+
  have csv: "m_response_csv (foldl (\<lambda>c t. fst (add_response c t)) c ts) = m_response_csv c" for ts
    by (induction ts arbitrary: c) simp_all
  have "answered (send_two (foldl (\<lambda>c t. fst (add_response c t)) c ?ts) (Csv_Data 0) ?n) (concat ?ts @ m_response_csv c)"
    using small by (intro answered_two w range) (simp_all only: csv, simp_all)
  then show ?thesis
    by (simp add: process_write_def a add_defs payload_def status_line_def header_line_def
        to_int32_id range)
qed

lemma answered_default:
  assumes "wrote c []"
    and "ret \<notin> {NO_RESOURCE, INTERNAL_ERROR, FILE_REQUEST, DIAGNOSE_REQUEST, DIAGNOSE_CSV_REQUEST}"
  shows "answered (process_write c ret) (answer c ret 0)"
proof -
  obtain h where h: "wrote (fst (add_headers (fst (add_status_line c 400 ''Bad Request'')) 0)) h"
      "length h \<le> 200" "answer c ret 0 = h @ payload c ret"
    using answer_plain [OF assms(1), of ret 0] assms(2)
    by (cases ret) (auto simp: status_of_def INT_MIN_def INT_MAX_def)
  from answered_buffer [OF h(1)] h(2,3) assms(2) show ?thesis
    by (cases ret) (simp_all add: process_write_def payload_def WBS)
qed

section \<open>The claims\<close>

text \<open>A redirect is followed by a complete 400 response.\<close>

lemma redirect_message:
  assumes "wrote c s" and "int (length s) + 201 < WRITE_BUFFER_SIZE"
  shows "answered (process_write c REDIRECT_REQUEST)
    (s @ plain_head 400 ''Bad Request'' 0 (m_linger c))"
proof -
  let ?l = "status_line 400 ''Bad Request''"
  let ?h = "plain_head 400 ''Bad Request'' 0 (m_linger c)"
  have small: "length ?h \<le> 200"
    by (simp add: plain_head_def message_defs show_int_def show_nat.simps)
  have h: "?h = ?l @ header_line ''Content-Length'' (show_int 0)
           @ header_line ''Connection'' (if m_linger c then ''keep-alive'' else ''close'') @ crlf"
    by (simp add: plain_head_def http_message_def length_field_def connection_field_def)
  have "wrote (fst (add_status_line c 400 ''Bad Request'')) (s @ ?l)"
    using wrote_step [OF assms(1), of "s @ ?l" ?l] assms(2) small h
    by (simp add: add_status_line_def status_line_def)
  from wrote_headers [OF this, of 0] have "wrote (fst (add_headers (fst (add_status_line c 400 ''Bad Request'')) 0)) (s @ ?h)"
    using assms(2) small by (simp add: h)
  from answered_buffer [OF this] show ?thesis
    using assms(2) small by (simp add: process_write_def)
qed

text \<open>
  C12. Behind what is in the write buffer, \<open>process_write\<close> puts a message whose \<open>Content-Length\<close> is
  the length of its body, and \<open>bytes_to_send\<close> is the length of it all. That is so for every code
  but that of the 404 page (\<open>not_found_length_wrong\<close>) and for every payload that can be sent
  (\<open>sendable\<close>). The buffer is empty except for a redirect, which \<open>do_request\<close> has written there
  already: a redirect goes out as two messages, itself and an empty 400.
\<close>

theorem response_is_message:
  assumes "wrote c s" and "sendable c ret" and "ret \<noteq> NO_RESOURCE"
    and "s = [] \<or> ret = REDIRECT_REQUEST \<and> int (length s) + 201 < WRITE_BUFFER_SIZE"
  shows "answered (process_write c ret) (s @ answer c ret (int (length (payload c ret))))"
proof (cases "ret = REDIRECT_REQUEST")
  case True
  have "int (length s) + 201 < WRITE_BUFFER_SIZE" using assms(4) by (auto simp: WBS)
  from redirect_message [OF assms(1) this] True show ?thesis
    by (simp add: answer_def payload_def status_of_def header_fields_def plain_head_def http_message_def)
next
  case False
  with assms(1,4) have c: "wrote c []" "s = []" by auto
  consider "ret = INTERNAL_ERROR" | "ret = FILE_REQUEST" | "ret = DIAGNOSE_REQUEST"
    | "ret = DIAGNOSE_CSV_REQUEST"
    | "ret \<notin> {NO_RESOURCE, INTERNAL_ERROR, FILE_REQUEST, DIAGNOSE_REQUEST, DIAGNOSE_CSV_REQUEST}"
    using assms(3) by auto
  then have "answered (process_write c ret) (answer c ret (int (length (payload c ret))))"
  proof cases
    case 1
    then show ?thesis using answered_error [OF c(1), of ret 14] by (simp add: payload_def msg_500_def)
  next
    case 5
    then have "payload c ret = []" by (cases ret) (simp_all add: payload_def)
    with answered_default [OF c(1) 5] show ?thesis by simp
  qed (use assms c answered_file answered_json answered_csv in blast)+
  with c(2) show ?thesis by simp
qed

text \<open>Its witness: an HTML file of five bytes.\<close>

definition file_conn :: http_conn where
  "file_conn = zero_conn\<lparr>m_file_address := FA_Mapped ''hello'',
     m_file_stat := \<lparr>st_size = 5, st_iroth = True, st_isdir = False\<rparr>\<rparr>"

lemma file_conn_sendable: "wrote file_conn []" "sendable file_conn FILE_REQUEST"
  by (simp_all add: wrote_def file_conn_def zero_conn_def sendable_def get_def WBS INT_MAX_def)

definition moved_conn :: http_conn where
  "moved_conn = zero_conn\<lparr>m_write_buf := put blank 0 ''302'', m_write_idx := 3\<rparr>"

theorem response_is_message_witness:
  "answered (process_write file_conn FILE_REQUEST) (answer file_conn FILE_REQUEST 5)
    \<and> answered (process_write moved_conn REDIRECT_REQUEST) (''302'' @ answer moved_conn REDIRECT_REQUEST 0)"
proof -
  have m: "wrote moved_conn ''302''" by (simp add: wrote_def moved_conn_def zero_conn_def get_def put_def upt_rec)
  show ?thesis
    using response_is_message [OF file_conn_sendable] response_is_message [OF m, of REDIRECT_REQUEST]
    by (simp add: payload_def file_conn_def sendable_def WBS)
qed

text \<open>The 404 page announces 13 bytes and sends 44.\<close>

theorem not_found_length_wrong:
  assumes "wrote c []"
  shows "answered (process_write c NO_RESOURCE) (answer c NO_RESOURCE 13) \<and> length (payload c NO_RESOURCE) = 44"
  using answered_error [OF assms, of NO_RESOURCE 13] by (simp add: payload_def msg_404_def)

theorem not_found_length_wrong_witness:
  "length (payload zero_conn NO_RESOURCE) = 44"
  using not_found_length_wrong [of zero_conn] by (simp add: wrote_def zero_conn_def get_def)

text \<open>A JSON text that does not fit makes the response fail.\<close>

theorem json_too_long_fails:
  assumes "wrote c []" and "NUL \<notin> set (m_response_json c)"
    and "int (length (m_response_json c)) \<le> INT_MAX"
    and "int (length (answer c DIAGNOSE_REQUEST (int (length (m_response_json c))))) \<ge> WRITE_BUFFER_SIZE - 1"
  shows "\<not> snd (process_write c DIAGNOSE_REQUEST)"
proof -
  let ?n = "int (length (m_response_json c))"
  let ?ts = "[status_line 200 ''OK'', header_line ''Content-Length'' (show_int ?n),
    header_line ''Content-Type'' '' application/json'',
    header_line ''Connection'' (if m_linger c then ''keep-alive'' else ''close''), crlf]"
  let ?c5 = "foldl (\<lambda>c t. fst (add_response c t)) c ?ts"
  have range: "INT_MIN \<le> ?n" "?n \<le> INT_MAX" using assms(3) by (simp_all add: INT_MIN_def)
  have nul: "c_string (m_response_json c) = m_response_json c"
    using assms(2) by (auto simp: c_string_def takeWhile_eq_all_conv)
  have a: "answer c DIAGNOSE_REQUEST ?n = concat ?ts @ m_response_json c"
    by (simp add: answer_def http_message_def status_of_def header_fields_def length_field_def
        connection_field_def payload_def)
  have "length (concat ?ts) \<le> 200"
    using length_title [of 200 "''OK''"] length_show_int32 [OF range]
    by (simp add: header_line_def crlf_def INT_MIN_def INT_MAX_def)
  then have small: "int (length (concat ?ts)) < WRITE_BUFFER_SIZE - 1" by (simp add: WBS)
  have "wrote ?c5 (concat ?ts)" by (rule wrote_appends [OF assms(1) small])
  then have "\<not> snd (add_response ?c5 (m_response_json c))"
    using small assms(4) unfolding a by (intro wrote_overflow(2)) (simp_all only: not_less, simp_all)
  then have "\<not> snd (content_or_fail ?c5 (m_response_json c))"
    by (cases "add_response ?c5 (m_response_json c)") (simp add: content_or_fail_def add_content_def)
  then show ?thesis
    using nul by (simp add: process_write_def add_defs status_line_def header_line_def to_int32_id range)
qed

definition long_json_conn :: http_conn where
  "long_json_conn = zero_conn\<lparr>m_response_json := replicate 65536 (CHR ''a'')\<rparr>"

theorem json_too_long_fails_witness: "\<not> snd (process_write long_json_conn DIAGNOSE_REQUEST)"
proof -
  have "length (answer long_json_conn DIAGNOSE_REQUEST n) \<ge> length (payload long_json_conn DIAGNOSE_REQUEST)" for n
    by (simp add: answer_def http_message_def)
  moreover have "length (payload long_json_conn DIAGNOSE_REQUEST) = 65536"
    by (simp add: payload_def long_json_conn_def)
  ultimately have long: "int (length (answer long_json_conn DIAGNOSE_REQUEST n)) \<ge> 65536" for n
    by (metis of_nat_le_iff of_nat_numeral)
  then have "int (length (answer long_json_conn DIAGNOSE_REQUEST n)) \<ge> WRITE_BUFFER_SIZE - 1" for n
    using long [of n] unfolding WBS by linarith
  then show ?thesis
    by (intro json_too_long_fails) (simp_all add: long_json_conn_def wrote_def get_def zero_conn_def INT_MAX_def)
qed

definition buf_ok :: "http_conn \<Rightarrow> http_conn \<Rightarrow> bool" where
  "buf_ok c c' \<longleftrightarrow> 0 \<le> m_write_idx c' \<and> m_write_idx c' < WRITE_BUFFER_SIZE
     \<and> (\<forall>i. i < 0 \<or> WRITE_BUFFER_SIZE \<le> i \<longrightarrow> m_write_buf c' i = m_write_buf c i)"

lemma buf_ok_add_response: "buf_ok c c' \<Longrightarrow> buf_ok c (fst (add_response c' t))"
  by (auto simp: buf_ok_def add_response_def vsnprintf_def Let_def put_def)

lemma buf_ok_adds:
  assumes "buf_ok c c'"
  shows "buf_ok c (fst (add_status_line c' n t))" "buf_ok c (fst (add_content_length c' n))"
    "buf_ok c (fst (add_content_type c' t))" "buf_ok c (fst (add_linger c'))" "buf_ok c (fst (add_blank_line c'))"
    "buf_ok c (fst (add_content c' t))"
  using buf_ok_add_response [OF assms] by (simp_all add: add_defs)

lemma buf_ok_headers: "buf_ok c c' \<Longrightarrow> buf_ok c (fst (add_headers c' n))"
  by (auto simp: add_headers_def and_then_def intro!: buf_ok_adds)

lemma buf_ok_send:
  "buf_ok c c' \<Longrightarrow> buf_ok c (fst (send_buffer c'))"
  "buf_ok c c' \<Longrightarrow> buf_ok c (fst (send_two c' b n))"
  by (simp_all add: buf_ok_def send_buffer_def send_two_def)

lemma buf_ok_content: "buf_ok c c' \<Longrightarrow> buf_ok c (fst (content_or_fail c' t))"
  using buf_ok_adds(6) [of c c' t] buf_ok_send(1) [of c "fst (add_content c' t)"]
  by (cases "add_content c' t") (simp add: content_or_fail_def)

text \<open>C29. Whatever is written stays inside \<open>m_write_buf\<close>.\<close>

theorem process_write_in_bounds:
  assumes "0 \<le> m_write_idx c" and "m_write_idx c < WRITE_BUFFER_SIZE"
  shows "0 \<le> m_write_idx (fst (process_write c ret)) \<and> m_write_idx (fst (process_write c ret)) < WRITE_BUFFER_SIZE
    \<and> (\<forall>i. i < 0 \<or> WRITE_BUFFER_SIZE \<le> i \<longrightarrow> m_write_buf (fst (process_write c ret)) i = m_write_buf c i)"
proof -
  have "buf_ok c c" using assms by (simp add: buf_ok_def)
  then have "buf_ok c (fst (process_write c ret))"
    by (cases ret) (auto simp: process_write_def Let_def
        intro!: buf_ok_adds buf_ok_headers buf_ok_send buf_ok_content buf_ok_add_response)
  then show ?thesis by (simp add: buf_ok_def)
qed

theorem process_write_in_bounds_witness:
  "m_write_idx (fst (process_write zero_conn FORBIDDEN_REQUEST)) < WRITE_BUFFER_SIZE"
  using process_write_in_bounds [of zero_conn FORBIDDEN_REQUEST] by (simp add: zero_conn_def WBS)

end
