(* ===== verification/Session.thy ===== *)
theory Session
  imports Http_Response "HOL-Library.Signed_Division"
begin

text \<open>
  \<open>RedisManager\<close> (\<open>redis_manager.cpp\<close>) and \<open>SessionManager\<close> (\<open>http/http_conn.cpp\<close>): login
  sessions kept in a Redis server.

  The client library hiredis is not part of the repository. The functions the code calls are a
  parameter, the record \<open>redis_api\<close>, over the state \<open>'w\<close> of the server: connecting yields no
  context, a context in error or a good one, and a command, given as the list of its arguments
  as hiredis splits the format, yields a reply or none, in which case the context is in error.
  \<open>redis_spec\<close> states what the code relies on, the documented behaviour of \<open>SETEX\<close>, \<open>GET\<close> and
  \<open>DEL\<close>; \<open>ref_redis\<close> is a server that has it. Every operation runs under \<open>m_lock\<close>.
\<close>

datatype reply = R_Status string | R_Error string | R_String string | R_Integer int | R_Nil

datatype redis_context = Ctx_Null | Ctx_Err | Ctx_Ok

record 'w redis_api =
  redisConnectWithTimeout :: "string \<Rightarrow> int \<Rightarrow> int \<times> int \<Rightarrow> 'w \<Rightarrow> 'w \<times> redis_context"
  redisCommand :: "string list \<Rightarrow> 'w \<Rightarrow> 'w \<times> reply option"

record redis_manager =
  m_ctx :: redis_context
  m_host :: string
  m_port :: int
  m_password :: string
  m_timeout_ms :: int

definition new_manager :: redis_manager where
  "new_manager = \<lparr>m_ctx = Ctx_Null, m_host = [], m_port = 0, m_password = [], m_timeout_ms = 0\<rparr>"

text \<open>A command on the context: without a reply the context is in error.\<close>

definition command :: "'w redis_api \<Rightarrow> redis_manager \<Rightarrow> 'w \<Rightarrow> string list \<Rightarrow> redis_manager \<times> 'w \<times> reply option" where
  "command api r w args = (case redisCommand api args w of
     (w1, None) \<Rightarrow> (r\<lparr>m_ctx := Ctx_Err\<rparr>, w1, None)
   | (w1, Some rep) \<Rightarrow> (r, w1, Some rep))"

definition redis_connect ::
    "'w redis_api \<Rightarrow> redis_manager \<Rightarrow> 'w \<Rightarrow> string \<Rightarrow> int \<Rightarrow> string \<Rightarrow> int \<Rightarrow> redis_manager \<times> 'w \<times> bool" where
  "redis_connect api r w host port password timeout_ms =
     (let r1 = r\<lparr>m_host := host, m_port := port, m_password := password, m_timeout_ms := timeout_ms\<rparr>;
          tv = (timeout_ms sdiv 1000, (timeout_ms smod 1000) * 1000)
      in (case redisConnectWithTimeout api (c_string host) port tv w of (w1, ctx) \<Rightarrow>
        if ctx \<noteq> Ctx_Ok then (r1\<lparr>m_ctx := Ctx_Null\<rparr>, w1, False)
        else let r2 = r1\<lparr>m_ctx := ctx\<rparr> in
          if password = [] then (r2, w1, True)
          else (case command api r2 w1 [''AUTH'', c_string password] of (r3, w2, rep) \<Rightarrow>
            (case rep of
               None \<Rightarrow> (r3\<lparr>m_ctx := Ctx_Null\<rparr>, w2, False)
             | Some (R_Error _) \<Rightarrow> (r3\<lparr>m_ctx := Ctx_Null\<rparr>, w2, False)
             | Some _ \<Rightarrow> (r3, w2, True)))))"

definition disconnect :: "redis_manager \<Rightarrow> redis_manager" where
  "disconnect r = r\<lparr>m_ctx := Ctx_Null\<rparr>"

definition isConnected :: "redis_manager \<Rightarrow> bool" where
  "isConnected r = (m_ctx r = Ctx_Ok)"

definition reconnect :: "'w redis_api \<Rightarrow> redis_manager \<Rightarrow> 'w \<Rightarrow> redis_manager \<times> 'w \<times> bool" where
  "reconnect api r w =
     redis_connect api (disconnect r) w (m_host r) (m_port r) (m_password r) (m_timeout_ms r)"

text \<open>\<open>!isConnected() && !reconnect()\<close>: the state after it and whether the connection is usable.\<close>

definition ensure :: "'w redis_api \<Rightarrow> redis_manager \<Rightarrow> 'w \<Rightarrow> redis_manager \<times> 'w \<times> bool" where
  "ensure api r w = (if isConnected r then (r, w, True) else reconnect api r w)"

text \<open>The common shape of the three operations; \<open>f\<close> reads the reply, \<open>d\<close> is the result without one.\<close>

definition with_reply ::
    "'w redis_api \<Rightarrow> redis_manager \<Rightarrow> 'w \<Rightarrow> string list \<Rightarrow> 'b \<Rightarrow> (reply \<Rightarrow> 'b) \<Rightarrow> redis_manager \<times> 'w \<times> 'b" where
  "with_reply api r w args d f =
     (case ensure api r w of (r1, w1, ok) \<Rightarrow>
      if \<not> ok then (r1, w1, d)
      else (case command api r1 w1 args of (r2, w2, rep) \<Rightarrow>
        (case rep of
           None \<Rightarrow> (case reconnect api r2 w2 of (r3, w3, _) \<Rightarrow> (r3, w3, d))
         | Some x \<Rightarrow> (r2, w2, f x))))"

definition session_key :: "string \<Rightarrow> string" where
  "session_key token = ''session:'' @ c_string token"

definition setSession ::
    "'w redis_api \<Rightarrow> redis_manager \<Rightarrow> 'w \<Rightarrow> string \<Rightarrow> string \<Rightarrow> int \<Rightarrow> redis_manager \<times> 'w \<times> bool" where
  "setSession api r w token username ttl_seconds =
     with_reply api r w [''SETEX'', session_key token, show_int ttl_seconds, c_string username] False
       (\<lambda>rep. case rep of R_Status s \<Rightarrow> casecmp_eq s ''OK'' | _ \<Rightarrow> False)"

definition getSession ::
    "'w redis_api \<Rightarrow> redis_manager \<Rightarrow> 'w \<Rightarrow> string \<Rightarrow> redis_manager \<times> 'w \<times> string option" where
  "getSession api r w token =
     with_reply api r w [''GET'', session_key token] None
       (\<lambda>rep. case rep of R_String s \<Rightarrow> Some s | _ \<Rightarrow> None)"

definition delSession ::
    "'w redis_api \<Rightarrow> redis_manager \<Rightarrow> 'w \<Rightarrow> string \<Rightarrow> redis_manager \<times> 'w \<times> bool" where
  "delSession api r w token =
     with_reply api r w [''DEL'', session_key token] False
       (\<lambda>rep. case rep of R_Integer n \<Rightarrow> n > 0 | _ \<Rightarrow> False)"

section \<open>SessionManager\<close>

text \<open>The token: 32 hexadecimal digits, from the numbers the random generator delivers.\<close>

definition hex_digit :: "nat \<Rightarrow> char" where
  "hex_digit n = ''0123456789abcdef'' ! (n mod 16)"

definition token_of :: "nat list \<Rightarrow> string" where
  "token_of ds = map hex_digit (take 32 ds)"

definition create_session ::
    "'w redis_api \<Rightarrow> redis_manager \<Rightarrow> 'w \<Rightarrow> int \<Rightarrow> nat list \<Rightarrow> string \<Rightarrow> redis_manager \<times> 'w \<times> string" where
  "create_session api r w g_session_ttl ds username =
     (let token = token_of ds in
      (case setSession api r w token username g_session_ttl of (r1, w1, _) \<Rightarrow> (r1, w1, token)))"

definition verify_session ::
    "'w redis_api \<Rightarrow> redis_manager \<Rightarrow> 'w \<Rightarrow> string \<Rightarrow> redis_manager \<times> 'w \<times> string option" where
  "verify_session api r w token = getSession api r w token"

definition remove_session :: "'w redis_api \<Rightarrow> redis_manager \<Rightarrow> 'w \<Rightarrow> string \<Rightarrow> redis_manager \<times> 'w" where
  "remove_session api r w token = (case delSession api r w token of (r1, w1, _) \<Rightarrow> (r1, w1))"

section \<open>What is relied on\<close>

text \<open>
  The documented behaviour of the commands on the keys \<open>store w\<close> (expiry is the server's own
  affair): a positive number of seconds is accepted, \<open>GET\<close> gives the value or nil, \<open>DEL\<close> the
  number of keys removed.
\<close>

definition redis_spec :: "'w redis_api \<Rightarrow> ('w \<Rightarrow> string \<Rightarrow> string option) \<Rightarrow> bool" where
  "redis_spec api store \<longleftrightarrow>
     (\<forall>w k n v. 0 < n \<and> n \<le> INT_MAX \<longrightarrow> (\<exists>w'. redisCommand api [''SETEX'', k, show_int n, v] w = (w', Some (R_Status ''OK''))
        \<and> store w' = (store w)(k \<mapsto> v)))
   \<and> (\<forall>w k. \<exists>w'. redisCommand api [''GET'', k] w =
        (w', Some (case store w k of Some v \<Rightarrow> R_String v | None \<Rightarrow> R_Nil)) \<and> store w' = store w)
   \<and> (\<forall>w k. \<exists>w'. redisCommand api [''DEL'', k] w =
        (w', Some (R_Integer (if store w k = None then 0 else 1))) \<and> store w' = (store w)(k := None))"

text \<open>A server with this behaviour: its state is the map itself.\<close>

fun ref_command :: "string list \<Rightarrow> (string \<Rightarrow> string option) \<Rightarrow> (string \<Rightarrow> string option) \<times> reply option" where
  "ref_command [c, k, n, v] m =
     (if c = ''SETEX'' then
        (if atoi n > 0 then (m(k \<mapsto> v), Some (R_Status ''OK'')) else (m, Some (R_Error ''ERR invalid expire time'')))
      else (m, Some (R_Error ''ERR'')))"
| "ref_command [c, k] m =
     (if c = ''GET'' then (m, Some (case m k of Some v \<Rightarrow> R_String v | None \<Rightarrow> R_Nil))
      else if c = ''DEL'' then (m(k := None), Some (R_Integer (if m k = None then 0 else 1)))
      else (m, Some (R_Status ''OK'')))"
| "ref_command _ m = (m, Some (R_Error ''ERR''))"

definition ref_redis :: "(string \<Rightarrow> string option) redis_api" where
  "ref_redis = \<lparr>redisConnectWithTimeout = (\<lambda>h p tv w. (w, Ctx_Ok)), redisCommand = ref_command\<rparr>"

text \<open>The interface that the request handlers use.\<close>

locale session_store =
  fixes ok :: "'s \<Rightarrow> bool"
    and good :: "string \<Rightarrow> bool"
    and sessions :: "'s \<Rightarrow> string \<Rightarrow> string option"
    and put_session :: "'s \<Rightarrow> string \<Rightarrow> string \<Rightarrow> 's \<times> bool"
    and look_session :: "'s \<Rightarrow> string \<Rightarrow> 's \<times> string option"
    and drop_session :: "'s \<Rightarrow> string \<Rightarrow> 's"
  assumes put_law: "ok s \<Longrightarrow> good t \<Longrightarrow> good u \<Longrightarrow> ok (fst (put_session s t u)) \<and> snd (put_session s t u)
      \<and> (\<forall>t'. good t' \<longrightarrow> sessions (fst (put_session s t u)) t' = (if t' = t then Some u else sessions s t'))"
    and look_law: "ok s \<Longrightarrow> ok (fst (look_session s t)) \<and> snd (look_session s t) = sessions s t
      \<and> sessions (fst (look_session s t)) = sessions s"
    and drop_law: "ok s \<Longrightarrow> good t \<Longrightarrow> ok (drop_session s t)
      \<and> (\<forall>t'. good t' \<longrightarrow> sessions (drop_session s t) t' = (if t' = t then None else sessions s t'))"
begin

lemma look_after_put:
  "ok s \<Longrightarrow> good t \<Longrightarrow> good u \<Longrightarrow> good t' \<Longrightarrow>
   snd (look_session (fst (put_session s t u)) t') = (if t' = t then Some u else sessions s t')"
  using put_law [of s t u] look_law [of "fst (put_session s t u)" t'] by simp

lemma look_after_drop:
  "ok s \<Longrightarrow> good t \<Longrightarrow> good t' \<Longrightarrow>
   snd (look_session (drop_session s t) t') = (if t' = t then None else sessions s t')"
  using drop_law [of s t] look_law [of "drop_session s t" t'] by simp

end

section \<open>The manager provides the interface\<close>

definition no_nul :: "string \<Rightarrow> bool" where
  "no_nul s \<longleftrightarrow> NUL \<notin> set s"

lemma c_string_id: "no_nul s \<Longrightarrow> c_string s = s"
  by (auto simp: no_nul_def c_string_def takeWhile_eq_all_conv)

lemma session_key_inj: "no_nul s \<Longrightarrow> no_nul t \<Longrightarrow> session_key s = session_key t \<longleftrightarrow> s = t"
  by (simp add: session_key_def c_string_id)

lemma with_reply_connected:
  assumes "isConnected r" and "redisCommand api args w = (w', Some rep)"
  shows "with_reply api r w args d f = (r, w', f rep)"
  using assms by (simp add: with_reply_def ensure_def command_def)

lemma setSession_ok:
  assumes "redis_spec api store" and "isConnected r" and "0 < ttl" "ttl \<le> INT_MAX"
  obtains w' where "setSession api r w t u ttl = (r, w', True)"
    and "store w' = (store w)(session_key t \<mapsto> c_string u)"
proof -
  obtain w' where w': "redisCommand api [''SETEX'', session_key t, show_int ttl, c_string u] w = (w', Some (R_Status ''OK''))"
      "store w' = (store w)(session_key t \<mapsto> c_string u)"
    using assms(1,3,4) unfolding redis_spec_def by metis
  have "setSession api r w t u ttl = (r, w', True)"
    by (simp add: with_reply_connected [OF assms(2) w'(1)] setSession_def casecmp_eq_def)
  from this w'(2) show ?thesis by (rule that)
qed

lemma getSession_ok:
  assumes "redis_spec api store" and "isConnected r"
  obtains w' where "getSession api r w t = (r, w', store w (session_key t))" and "store w' = store w"
proof -
  obtain w' where w': "redisCommand api [''GET'', session_key t] w =
        (w', Some (case store w (session_key t) of Some v \<Rightarrow> R_String v | None \<Rightarrow> R_Nil))" "store w' = store w"
    using assms(1) unfolding redis_spec_def by metis
  have "getSession api r w t = (r, w', store w (session_key t))"
    by (simp add: with_reply_connected [OF assms(2) w'(1)] getSession_def split: option.splits)
  from this w'(2) show ?thesis by (rule that)
qed

lemma delSession_ok:
  assumes "redis_spec api store" and "isConnected r"
  obtains w' where "delSession api r w t = (r, w', store w (session_key t) \<noteq> None)"
    and "store w' = (store w)(session_key t := None)"
proof -
  obtain w' where w': "redisCommand api [''DEL'', session_key t] w =
        (w', Some (R_Integer (if store w (session_key t) = None then 0 else 1)))"
      "store w' = (store w)(session_key t := None)"
    using assms(1) unfolding redis_spec_def by metis
  have "delSession api r w t = (r, w', store w (session_key t) \<noteq> None)"
    by (simp add: with_reply_connected [OF assms(2) w'(1)] delSession_def)
  from this w'(2) show ?thesis by (rule that)
qed

lemma ref_redis_spec: "redis_spec ref_redis id"
  unfolding redis_spec_def
proof (intro conjI allI impI)
  fix w :: "string \<Rightarrow> string option" and k v and n :: int assume "0 < n \<and> n \<le> INT_MAX"
  then have "atoi (show_int n) = n" using atoi_show_int [of n] by (simp add: INT_MIN_def)
  with \<open>0 < n \<and> n \<le> INT_MAX\<close>
  show "\<exists>w'. redisCommand ref_redis [''SETEX'', k, show_int n, v] w = (w', Some (R_Status ''OK''))
      \<and> id w' = (id w)(k \<mapsto> v)"
    by (simp add: ref_redis_def)
qed (simp_all add: ref_redis_def)

text \<open>The sessions as the request handlers see them, on a connected manager.\<close>

type_synonym 'w session_state = "redis_manager \<times> 'w"

definition put_entry :: "'w redis_api \<Rightarrow> int \<Rightarrow> 'w session_state \<Rightarrow> string \<Rightarrow> string \<Rightarrow> 'w session_state \<times> bool" where
  "put_entry api ttl s t u = (case setSession api (fst s) (snd s) t u ttl of (r, w, b) \<Rightarrow> ((r, w), b))"

definition look_entry :: "'w redis_api \<Rightarrow> 'w session_state \<Rightarrow> string \<Rightarrow> 'w session_state \<times> string option" where
  "look_entry api s t = (case verify_session api (fst s) (snd s) t of (r, w, u) \<Rightarrow> ((r, w), u))"

definition drop_entry :: "'w redis_api \<Rightarrow> 'w session_state \<Rightarrow> string \<Rightarrow> 'w session_state" where
  "drop_entry api s t = remove_session api (fst s) (snd s) t"

definition entry :: "('w \<Rightarrow> string \<Rightarrow> string option) \<Rightarrow> 'w session_state \<Rightarrow> string \<Rightarrow> string option" where
  "entry store s t = store (snd s) (session_key t)"

lemma session_laws:
  assumes "redis_spec api store" and "0 < ttl" "ttl \<le> INT_MAX"
  shows "session_store (\<lambda>s. isConnected (fst s)) no_nul (entry store) (put_entry api ttl) (look_entry api) (drop_entry api)"
proof (unfold_locales, goal_cases)
  case (1 s t u)
  obtain w' where "setSession api (fst s) (snd s) t u ttl = (fst s, w', True)"
    "store w' = (store (snd s))(session_key t \<mapsto> c_string u)"
    by (rule setSession_ok [OF assms(1) 1(1) assms(2,3)])
  with 1 show ?case by (auto simp: put_entry_def entry_def session_key_inj c_string_id)
next
  case (2 s t)
  obtain w' where "getSession api (fst s) (snd s) t = (fst s, w', store (snd s) (session_key t))" "store w' = store (snd s)"
    by (rule getSession_ok [OF assms(1) 2])
  with 2 show ?case by (simp add: look_entry_def verify_session_def entry_def fun_eq_iff)
next
  case (3 s t)
  obtain w' where "delSession api (fst s) (snd s) t = (fst s, w', store (snd s) (session_key t) \<noteq> None)"
    "store w' = (store (snd s))(session_key t := None)"
    by (rule delSession_ok [OF assms(1) 3(1)])
  with 3 show ?case by (auto simp: drop_entry_def remove_session_def entry_def session_key_inj)
qed

interpretation redis_sessions: session_store "\<lambda>s. isConnected (fst s)" no_nul "entry id"
    "put_entry ref_redis 3600" "look_entry ref_redis" "drop_entry ref_redis"
  by (rule session_laws [OF ref_redis_spec]) (simp_all add: INT_MAX_def)

section \<open>The claims\<close>

text \<open>
  C24. A session that is created is found under its token with its user and under no other token,
  and not any more once it is removed, with any server that does what Redis documents.
\<close>

theorem session_round_trip:
  assumes "redis_spec api store" and "0 < ttl" "ttl \<le> INT_MAX" and "isConnected (fst s)"
    and "no_nul t" and "no_nul u" and "no_nul t'"
  shows "snd (look_entry api (fst (put_entry api ttl s t u)) t') = (if t' = t then Some u else snd (look_entry api s t'))
    \<and> snd (look_entry api (drop_entry api (fst (put_entry api ttl s t u)) t) t) = None"
proof -
  note laws = session_laws [OF assms(1-3)]
  have "isConnected (fst (fst (put_entry api ttl s t u)))"
    using session_store.put_law [OF laws assms(4-6)] by blast
  then show ?thesis
    using session_store.look_after_put [OF laws assms(4-7)] session_store.look_law [OF laws assms(4), of t']
      session_store.look_after_drop [OF laws _ assms(5,5)] by simp
qed

definition connected :: redis_manager where
  "connected = new_manager\<lparr>m_ctx := Ctx_Ok\<rparr>"

theorem session_round_trip_witness:
  "snd (look_entry ref_redis (fst (put_entry ref_redis 3600 (connected, \<lambda>_. None) ''ab'' ''eve'')) ''ab'') = Some ''eve''"
  using session_round_trip [OF ref_redis_spec, of 3600 "(connected, \<lambda>_. None)" "''ab''" "''eve''" "''ab''"]
  by (simp add: INT_MAX_def isConnected_def connected_def no_nul_def)

text \<open>
  \<open>create_session\<close> hands its token out whether or not Redis took it: with a time to live that
  is not positive the login succeeds and no session exists.
\<close>

theorem token_without_session:
  "snd (snd (create_session ref_redis connected w 0 ds u)) = token_of ds
   \<and> fst (snd (create_session ref_redis connected w 0 ds u)) = w"
proof -
  have "atoi (show_int 0) = 0" using atoi_show_int [of 0] by (simp add: INT_MIN_def INT_MAX_def)
  then show ?thesis
    by (simp add: create_session_def setSession_def with_reply_def ensure_def isConnected_def connected_def
        command_def ref_redis_def Let_def)
qed

text \<open>
  When a command gets no reply the operation reports failure and has already reconnected,
  so the next call is served again if the server can be reached.
\<close>

theorem lost_reply_reconnects:
  assumes "isConnected r" and "redisCommand api [''GET'', session_key t] w = (w1, None)"
    and "m_password r = []" and "\<And>h p tv w. snd (redisConnectWithTimeout api h p tv w) = Ctx_Ok"
  shows "\<exists>r' w'. getSession api r w t = (r', w', None) \<and> isConnected r' \<and> m_host r' = m_host r \<and> m_port r' = m_port r"
proof -
  obtain w2 where "redisConnectWithTimeout api (c_string (m_host r)) (m_port r)
      (m_timeout_ms r sdiv 1000, (m_timeout_ms r smod 1000) * 1000) w1 = (w2, Ctx_Ok)"
    using assms(4) by (metis prod.collapse)
  with assms(1-3) show ?thesis
    by (simp add: getSession_def with_reply_def ensure_def command_def reconnect_def redis_connect_def
        disconnect_def isConnected_def Let_def)
qed

definition mute_redis :: "unit redis_api" where
  "mute_redis = \<lparr>redisConnectWithTimeout = (\<lambda>h p tv w. (w, Ctx_Ok)), redisCommand = (\<lambda>args w. (w, None))\<rparr>"

theorem lost_reply_reconnects_witness:
  "\<exists>r' w'. getSession mute_redis connected () ''ab'' = (r', w', None) \<and> isConnected r'"
  using lost_reply_reconnects [of connected mute_redis "''ab''" "()" "()"]
  by (auto simp: isConnected_def connected_def new_manager_def mute_redis_def)

end
