(* ===== verification/Diagnose.thy ===== *)
theory Diagnose
  imports CString
begin

text \<open>
  The diagnosis of \<open>POST /diagnose\<close> (\<open>http_conn::do_request\<close>, its second part): reading CSV
  data into samples of 64 rows of 3 numbers, classifying the first, and rendering generated
  samples as CSV.

  JSON, floating-point numbers, random numbers and the neural networks are not code of the
  repository. They are the parameter \<open>ml\<close> over a type \<open>'f\<close> of floats: \<open>stof\<close> (\<open>None\<close> where it
  throws), printing, comparison, the classifier, the eight generators and whether they are
  loaded, the noise. A \<open>predict\<close> may throw, then it is \<open>Inl\<close> the message. The request after
  \<open>json::parse\<close> is the record \<open>diag_request\<close>. The error texts of the answers are names
  (\<open>diag_error\<close>); \<open>json::dump\<close> turns them into bytes.
\<close>

record 'f ml =
  stof :: "string \<Rightarrow> 'f option"
  show_float :: "'f \<Rightarrow> string"
  less_float :: "'f \<Rightarrow> 'f \<Rightarrow> bool"
  classify :: "'f list \<Rightarrow> string + 'f list"
  generator_loaded :: "nat \<Rightarrow> bool"
  generate :: "nat \<Rightarrow> 'f list \<Rightarrow> string + 'f list"
  noise :: "nat \<Rightarrow> nat \<Rightarrow> 'f"

datatype diag_error = Row_Shape | No_Sample | No_Generator | Default_Missing | Exception string

datatype diag_answer = Diag_Json diag_error | Diag_Csv string

text \<open>\<open>csv_data\<close> if the field is there, and \<open>num_samples\<close>; reading a field may throw.\<close>

record diag_request =
  csv_data :: "(string + string) option"
  num_samples :: "string + int"

section \<open>Reading CSV\<close>

text \<open>The pieces that repeated \<open>getline\<close> calls deliver: no empty piece after a last delimiter.\<close>

function getlines :: "char \<Rightarrow> string \<Rightarrow> string list" where
  "getlines d s =
     (if s = [] then []
      else takeWhile (\<lambda>c. c \<noteq> d) s #
        (case dropWhile (\<lambda>c. c \<noteq> d) s of [] \<Rightarrow> [] | _ # r \<Rightarrow> getlines d r))"
  by pat_completeness auto
termination
proof (relation "measure (\<lambda>(d, s). length s)", goal_cases)
  case (2 d s x xs)
  then show ?case using length_dropWhile_le [of "\<lambda>c. c \<noteq> d" s] by simp
qed simp

declare getlines.simps [simp del]

datatype csv_stop = Throw string | Bad_Row

text \<open>One row: the cells in order, each through \<open>stof\<close>.\<close>

fun stof_all :: "'f ml \<Rightarrow> string list \<Rightarrow> csv_stop + 'f list" where
  "stof_all m [] = Inr []"
| "stof_all m (c # cs) =
     (case stof m c of
        None \<Rightarrow> Inl (Throw ''stof'')
      | Some x \<Rightarrow> (case stof_all m cs of Inl e \<Rightarrow> Inl e | Inr xs \<Rightarrow> Inr (x # xs)))"

text \<open>The loop over the lines, with \<open>samples\<close>, \<open>current_sample\<close> and \<open>row_count\<close>.\<close>

fun csv_rows :: "'f ml \<Rightarrow> string list \<Rightarrow> 'f list list \<Rightarrow> 'f list \<Rightarrow> nat \<Rightarrow> csv_stop + 'f list list" where
  "csv_rows m [] samples current_sample row_count = Inr samples"
| "csv_rows m (line # ls) samples current_sample row_count =
     (if line = [] then csv_rows m ls samples current_sample row_count
      else case stof_all m (getlines (CHR '','') line) of
        Inl e \<Rightarrow> Inl e
      | Inr row \<Rightarrow>
          if length row \<noteq> 3 then Inl Bad_Row
          else if row_count + 1 = 64
               then csv_rows m ls (samples @ [current_sample @ row]) [] 0
               else csv_rows m ls samples (current_sample @ row) (row_count + 1))"

definition read_csv :: "'f ml \<Rightarrow> string \<Rightarrow> csv_stop + 'f list list" where
  "read_csv m csv_content = csv_rows m (getlines (CHR 0x0A) csv_content) [] [] 0"

section \<open>Classifying and generating\<close>

text \<open>\<open>max_element\<close>: the index of the first of the largest elements.\<close>

fun max_index :: "('f \<Rightarrow> 'f \<Rightarrow> bool) \<Rightarrow> 'f \<Rightarrow> nat \<Rightarrow> nat \<Rightarrow> 'f list \<Rightarrow> nat" where
  "max_index lt best k i [] = k"
| "max_index lt best k i (x # xs) =
     (if lt best x then max_index lt x i (i + 1) xs else max_index lt best k (i + 1) xs)"

definition pred_class :: "'f ml \<Rightarrow> 'f list \<Rightarrow> nat" where
  "pred_class m class_probs =
     (let k = (case class_probs of [] \<Rightarrow> 0 | x # xs \<Rightarrow> max_index (less_float m) x 0 1 xs)
      in if k \<ge> 8 then 0 else k)"

definition noise_vector :: "'f ml \<Rightarrow> nat \<Rightarrow> 'f list" where
  "noise_vector m i = map (noise m i) [0..<64 * 3]"

fun generate_all :: "'f ml \<Rightarrow> nat \<Rightarrow> nat list \<Rightarrow> string + 'f list list" where
  "generate_all m g [] = Inr []"
| "generate_all m g (i # js) =
     (case generate m g (noise_vector m i) of
        Inl e \<Rightarrow> Inl e
      | Inr r \<Rightarrow> (case generate_all m g js of Inl e \<Rightarrow> Inl e | Inr rs \<Rightarrow> Inr (r # rs)))"

text \<open>\<open>num_samples\<close>, at least one.\<close>

definition sample_count :: "int \<Rightarrow> nat" where
  "sample_count n = (if n \<le> 0 then 1 else nat n)"

definition csv_line :: "'f ml \<Rightarrow> 'f list \<Rightarrow> nat \<Rightarrow> string" where
  "csv_line m res t = show_float m (res ! (t * 3)) @ '','' @ show_float m (res ! (t * 3 + 1)) @ '','' @
     show_float m (res ! (t * 3 + 2)) @ [CHR 0x0A]"

text \<open>The output loop reads 192 numbers of each result, whatever its length.\<close>

fun render_results :: "'f ml \<Rightarrow> 'f list list \<Rightarrow> string res" where
  "render_results m [] = Inr []"
| "render_results m (res # rs) =
     (if length res < 64 * 3 then Inl Out_Of_Bounds
      else rbind (render_results m rs) (\<lambda>out. Inr (concat (map (csv_line m res) [0..<64]) @ out)))"

definition generate_csv :: "'f ml \<Rightarrow> nat \<Rightarrow> int \<Rightarrow> diag_answer res" where
  "generate_csv m g n =
     (case generate_all m g [0..<sample_count n] of
        Inl e \<Rightarrow> Inr (Diag_Json (Exception e))
      | Inr all_results \<Rightarrow> rbind (render_results m all_results) (\<lambda>out. Inr (Diag_Csv out)))"

section \<open>The request\<close>

text \<open>The \<open>try\<close> block; an exception anywhere in it becomes an answer. \<open>req\<close> is \<open>Inl\<close> if parsing throws.\<close>

definition diagnose :: "'f ml \<Rightarrow> string + diag_request \<Rightarrow> diag_answer res" where
  "diagnose m req = (case req of
     Inl e \<Rightarrow> Inr (Diag_Json (Exception e))
   | Inr r \<Rightarrow>
       (case csv_data r of
          Some (Inl e) \<Rightarrow> Inr (Diag_Json (Exception e))
        | Some (Inr csv_content) \<Rightarrow>
            (case num_samples r of
               Inl e \<Rightarrow> Inr (Diag_Json (Exception e))
             | Inr n \<Rightarrow>
                 (case read_csv m csv_content of
                    Inl (Throw e) \<Rightarrow> Inr (Diag_Json (Exception e))
                  | Inl Bad_Row \<Rightarrow> Inr (Diag_Json Row_Shape)
                  | Inr [] \<Rightarrow> Inr (Diag_Json No_Sample)
                  | Inr (first_sample # _) \<Rightarrow>
                      (case classify m first_sample of
                         Inl e \<Rightarrow> Inr (Diag_Json (Exception e))
                       | Inr class_probs \<Rightarrow>
                           let g = pred_class m class_probs in
                           if \<not> generator_loaded m g then Inr (Diag_Json No_Generator)
                           else generate_csv m g n)))
        | None \<Rightarrow>
            (case num_samples r of
               Inl e \<Rightarrow> Inr (Diag_Json (Exception e))
             | Inr n \<Rightarrow>
                 if \<not> generator_loaded m 0 then Inr (Diag_Json Default_Missing)
                 else generate_csv m 0 n)))"

section \<open>Reading CSV text\<close>

lemma getlines_Cons:
  "d \<notin> set l \<Longrightarrow> getlines d (l @ d # s) = l # getlines d s"
proof -
  assume d: "d \<notin> set l"
  then have all: "\<And>x. x \<in> set l \<Longrightarrow> x \<noteq> d" by auto
  then have "takeWhile (\<lambda>c. c \<noteq> d) (l @ d # s) = l @ takeWhile (\<lambda>c. c \<noteq> d) (d # s)"
    by (intro takeWhile_append2)
  moreover have "dropWhile (\<lambda>c. c \<noteq> d) (l @ d # s) = dropWhile (\<lambda>c. c \<noteq> d) (d # s)"
    using all by (intro dropWhile_append2)
  ultimately have "takeWhile (\<lambda>c. c \<noteq> d) (l @ d # s) = l" "dropWhile (\<lambda>c. c \<noteq> d) (l @ d # s) = d # s" by simp_all
  then show ?thesis by (subst getlines.simps) simp
qed

lemma getlines_last: "d \<notin> set l \<Longrightarrow> l \<noteq> [] \<Longrightarrow> getlines d l = [l]"
proof -
  assume d: "d \<notin> set l" and "l \<noteq> []"
  then have all: "\<forall>x \<in> set l. x \<noteq> d" by auto
  then have t: "takeWhile (\<lambda>c. c \<noteq> d) l = l" by (simp add: takeWhile_eq_all_conv)
  from all have "dropWhile (\<lambda>c. c \<noteq> d) l = []" by (simp add: dropWhile_eq_Nil_conv)
  with t \<open>l \<noteq> []\<close> show ?thesis unfolding getlines.simps [of d l] by (simp only: if_False list.case)
qed

text \<open>
  Rows of cells, as a client writes them: a cell is any text without a comma or a line end that
  \<open>stof\<close> reads as a number.
\<close>

definition cell_ok :: "'f ml \<Rightarrow> string \<Rightarrow> bool" where
  "cell_ok m s \<longleftrightarrow> s \<noteq> [] \<and> CHR '','' \<notin> set s \<and> CHR 0x0A \<notin> set s \<and> stof m s \<noteq> None"

definition row_ok :: "'f ml \<Rightarrow> string \<times> string \<times> string \<Rightarrow> bool" where
  "row_ok m r = (case r of (x, y, z) \<Rightarrow> cell_ok m x \<and> cell_ok m y \<and> cell_ok m z)"

definition row_text :: "string \<times> string \<times> string \<Rightarrow> string" where
  "row_text r = (case r of (x, y, z) \<Rightarrow> x @ '','' @ y @ '','' @ z)"

definition csv_text :: "(string \<times> string \<times> string) list \<Rightarrow> string" where
  "csv_text rows = concat (map (\<lambda>r. row_text r @ [CHR 0x0A]) rows)"

definition row_numbers :: "'f ml \<Rightarrow> string \<times> string \<times> string \<Rightarrow> 'f \<times> 'f \<times> 'f" where
  "row_numbers m r = (case r of (x, y, z) \<Rightarrow> (the (stof m x), the (stof m y), the (stof m z)))"

abbreviation numbers :: "'f ml \<Rightarrow> (string \<times> string \<times> string) list \<Rightarrow> ('f \<times> 'f \<times> 'f) list" where
  "numbers m rows \<equiv> map (row_numbers m) rows"

definition flat :: "('f \<times> 'f \<times> 'f) list \<Rightarrow> 'f list" where
  "flat rows = concat (map (\<lambda>(x, y, z). [x, y, z]) rows)"

text \<open>The full groups of 64 rows.\<close>

fun groups :: "('f \<times> 'f \<times> 'f) list \<Rightarrow> nat \<Rightarrow> 'f list list" where
  "groups rows 0 = []"
| "groups rows (Suc k) = flat (take 64 rows) # groups (drop 64 rows) k"

lemma row_cells:
  assumes "row_ok m (x, y, z)"
  shows "stof_all m (getlines (CHR '','') (row_text (x, y, z))) = Inr [the (stof m x), the (stof m y), the (stof m z)]"
  using assms by (auto simp: row_text_def row_ok_def cell_ok_def getlines_Cons getlines_last)

lemma csv_lines: "\<forall>r \<in> set rows. row_ok m r \<Longrightarrow> getlines (CHR 0x0A) (csv_text rows) = map row_text rows"
proof (induction rows)
  case Nil
  then show ?case by (simp add: csv_text_def getlines.simps)
next
  case (Cons r rows)
  have "CHR 0x0A \<notin> set (row_text r)"
    using Cons.prems by (cases r) (auto simp: row_text_def row_ok_def cell_ok_def)
  with Cons show ?case by (simp add: csv_text_def getlines_Cons)
qed

lemma csv_rows_step:
  assumes "row_ok m r"
  shows "csv_rows m (row_text r # ls) samples cur k =
    (if k + 1 = 64 then csv_rows m ls (samples @ [cur @ flat [row_numbers m r]]) [] 0
     else csv_rows m ls samples (cur @ flat [row_numbers m r]) (k + 1))"
proof (cases r)
  case (fields x y z)
  have "row_text (x, y, z) \<noteq> []" by (simp add: row_text_def)
  then show ?thesis using row_cells [of m x y z] assms
    by (simp add: fields csv_rows.simps(2) flat_def row_numbers_def)
qed

declare csv_rows.simps(2) [simp del]

lemma flat_Cons: "flat (r # rows) = flat [r] @ flat rows"
  by (simp add: flat_def)

lemma csv_rows_partial:
  assumes "\<forall>r \<in> set rows. row_ok m r" and "k + length rows < 64"
  shows "csv_rows m (map row_text rows) samples cur k = Inr samples"
  using assms
proof (induction rows arbitrary: cur k)
  case (Cons r rows)
  from Cons.prems have "k + 1 \<noteq> 64" by simp
  with Cons.IH [of "k + 1" "cur @ flat [row_numbers m r]"] Cons.prems show ?case
    by (simp add: csv_rows_step)
qed simp

lemma csv_rows_group:
  assumes "\<forall>r \<in> set rows. row_ok m r" and "k < 64" and "k + length rows \<ge> 64"
  shows "csv_rows m (map row_text rows) samples cur k =
    csv_rows m (map row_text (drop (64 - k) rows)) (samples @ [cur @ flat (take (64 - k) (numbers m rows))]) [] 0"
  using assms
proof (induction rows arbitrary: cur k)
  case (Cons r rows)
  show ?case
  proof (cases "k + 1 = 64")
    case True
    then have "k = 63" by simp
    then show ?thesis using Cons.prems(1) by (simp add: csv_rows_step)
  next
    case False
    with Cons.prems have "Suc k < 64" "64 \<le> Suc k + length rows" by simp_all
    moreover obtain d where d: "64 - k = Suc d" "64 - Suc k = d" using Cons.prems(2) by (cases "64 - k") auto
    ultimately show ?thesis
      using Cons.IH [of "Suc k" "cur @ flat [row_numbers m r]"] False Cons.prems(1)
      by (simp add: csv_rows_step flat_Cons [of "row_numbers m r" "take d (numbers m rows)"])
  qed
qed simp

lemma csv_rows_groups:
  assumes "\<forall>r \<in> set rows. row_ok m r"
  shows "csv_rows m (map row_text rows) samples [] 0 = Inr (samples @ groups (numbers m rows) (length rows div 64))"
  using assms
proof (induction "length rows div 64" arbitrary: rows samples)
  case 0
  then show ?case using csv_rows_partial [OF "0.prems", of 0 samples "[]"] by simp
next
  case (Suc n)
  then have l: "64 \<le> length rows" by simp
  then have "length (drop 64 rows) div 64 = n" using Suc.hyps(2) by (simp add: div_if)
  moreover have "\<forall>r \<in> set (drop 64 rows). row_ok m r" using Suc.prems by (auto dest: in_set_dropD)
  ultimately show ?case
    using Suc.hyps(1) [of "drop 64 rows" "samples @ [flat (take 64 (numbers m rows))]"]
      csv_rows_group [OF Suc.prems, of 0 samples "[]"] l Suc.hyps(2)
    by (simp add: drop_map flip: Suc.hyps(2))
qed

lemma length_flat [simp]: "length (flat rows) = 3 * length rows"
  by (induction rows) (auto simp: flat_def)

lemma groups_length: "k * 64 \<le> length rows \<Longrightarrow> \<forall>g \<in> set (groups rows k). length g = 192"
  by (induction rows k rule: groups.induct) auto

section \<open>The claims\<close>

text \<open>
  C25. CSV text whose rows are three cells, each a text that \<open>stof\<close> reads as a number, is read
  into the samples of its full groups of 64 rows, in order, each the 192 numbers that \<open>stof\<close>
  reads in them; the rows after the last full group are dropped.
\<close>

theorem read_csv_samples:
  assumes "\<forall>r \<in> set rows. row_ok m r"
  shows "read_csv m (csv_text rows) = Inr (groups (numbers m rows) (length rows div 64))
    \<and> length (groups (numbers m rows) (length rows div 64)) = length rows div 64
    \<and> (\<forall>g \<in> set (groups (numbers m rows) (length rows div 64)). length g = 192)"
proof -
  have "length (groups rs k) = k" for k and rs :: "('a \<times> 'a \<times> 'a) list"
    by (induction rs k rule: groups.induct) simp_all
  moreover have "\<forall>g \<in> set (groups (numbers m rows) (length rows div 64)). length g = 192"
    by (rule groups_length) simp
  ultimately show ?thesis
    using csv_rows_groups [OF assms, of "[]"] csv_lines [OF assms] by (simp add: read_csv_def)
qed

text \<open>
  Numbers with six decimals, counted in millionths. \<open>stof\<close> reads blanks, a sign, digits and a
  fraction (cut after six digits, filled with zeros), ignores what follows and throws without a digit.
\<close>

definition decimal :: "string \<Rightarrow> int option" where
  "decimal s =
     (let t = dropWhile is_space s; neg = take 1 t = ''-''; u = (if neg then drop 1 t else t);
          w = takeWhile is_digit u; v = drop (length w) u;
          f = (if take 1 v = ''.'' then takeWhile is_digit (drop 1 v) else []);
          n = scan_digits 0 (w @ take 6 (f @ ''000000''))
      in if w = [] \<and> f = [] then None else Some (if neg then - n else n))"

definition decimal_ml :: "int ml" where
  "decimal_ml = \<lparr>stof = decimal,
     show_float = (\<lambda>n. (if n < 0 then ''-'' else []) @ show_nat (nat (\<bar>n\<bar> div 1000000)) @ ''.'' @
       drop 1 (show_nat (nat (1000000 + \<bar>n\<bar> mod 1000000)))),
     less_float = (<), classify = (\<lambda>xs. Inr (take 8 xs)), generator_loaded = (\<lambda>g. g < 8),
     generate = (\<lambda>g xs. Inr xs), noise = (\<lambda>i j. int i + int j)\<rparr>"

lemma decimal_demo:
  "decimal ''12.3456789'' = Some 12345678" "decimal ''-0.5'' = Some (- 500000)" "decimal '' 3'' = Some 3000000"
  by (simp_all add: decimal_def scan_digits_def is_space_def is_digit_def digit_val_def)

lemma groups_replicate:
  "groups (replicate n r) (Suc (Suc 0)) = [flat (replicate (min 64 n) r), flat (replicate (min 64 (n - 64)) r)]"
  by simp

theorem read_csv_samples_witness:
  "read_csv decimal_ml (csv_text (replicate 130 (''12.3456789'', ''-0.5'', '' 3''))) =
     Inr (replicate 2 (concat (replicate 64 [12345678, -500000, 3000000])))"
proof -
  let ?r = "(''12.3456789'', ''-0.5'', '' 3'')"
  have ok: "row_ok decimal_ml ?r" by (simp add: row_ok_def cell_ok_def decimal_ml_def decimal_demo)
  have n: "row_numbers decimal_ml ?r = (12345678, -500000, 3000000)"
    by (simp add: row_numbers_def decimal_ml_def decimal_demo)
  have "\<forall>r \<in> set (replicate 130 ?r). row_ok decimal_ml r" using ok by simp
  from read_csv_samples [OF this] n show ?thesis
    by (simp add: groups_replicate flat_def numeral_2_eq_2)
qed

text \<open>
  A request with fewer than 64 rows of CSV data is answered with the error about missing
  samples; nothing is classified.
\<close>

lemma short_csv_rejected:
  assumes "\<forall>r \<in> set rows. row_ok m r" and "length rows < 64" and "num_samples r = Inr n"
    and "csv_data r = Some (Inr (csv_text rows))"
  shows "diagnose m (Inr r) = Inr (Diag_Json No_Sample)"
proof -
  have "length rows div 64 = 0" using assms(2) by simp
  then show ?thesis
    using csv_rows_groups [OF assms(1), of "[]"] csv_lines [OF assms(1)] assms(3,4)
    by (simp add: diagnose_def read_csv_def)
qed

section \<open>What the diagnosis needs of the models\<close>

text \<open>
  The contract of the networks: all eight generators are there, and what one returns has the 192
  numbers that the output loop reads. Under it the diagnosis has no undefined behaviour and no
  answer about a missing model.
\<close>

locale diagnosis_models =
  fixes models_ready :: "'f ml \<Rightarrow> bool"
  assumes all_loaded: "models_ready m \<Longrightarrow> g < 8 \<Longrightarrow> generator_loaded m g"
    and full_results: "models_ready m \<Longrightarrow> g < 8 \<Longrightarrow> generate m g x = Inr r \<Longrightarrow> 192 \<le> length r"
begin

lemma generate_all_full:
  "models_ready m \<Longrightarrow> g < 8 \<Longrightarrow> generate_all m g js = Inr rs \<Longrightarrow> \<forall>r \<in> set rs. 192 \<le> length r"
  by (induction js arbitrary: rs) (auto split: sum.splits dest: full_results)

lemma generate_csv_ok:
  assumes "models_ready m" and "g < 8"
  shows "(\<exists>e. generate_csv m g n = Inr (Diag_Json (Exception e))) \<or> (\<exists>out. generate_csv m g n = Inr (Diag_Csv out))"
proof (cases "generate_all m g [0..<sample_count n]")
  case (Inr rs)
  have "\<exists>out. render_results m rs = Inr out" if "\<forall>r \<in> set rs. 192 \<le> length r" for rs
    using that by (induction rs) auto
  then obtain out where "render_results m rs = Inr out" using generate_all_full [OF assms Inr] by blast
  with Inr show ?thesis by (simp add: generate_csv_def)
qed (simp add: generate_csv_def)

lemma pred_class_small: "pred_class m probs < 8"
  by (simp add: pred_class_def Let_def)

lemma diagnose_ok:
  assumes "models_ready m"
  shows "\<exists>a. diagnose m req = Inr a \<and> a \<noteq> Diag_Json No_Generator \<and> a \<noteq> Diag_Json Default_Missing"
proof -
  have g: "\<exists>a. generate_csv m g n = Inr a \<and> a \<noteq> Diag_Json No_Generator \<and> a \<noteq> Diag_Json Default_Missing" if "g < 8" for g n
    using generate_csv_ok [OF assms that, of n] by auto
  show ?thesis
    by (auto simp: diagnose_def Let_def all_loaded [OF assms] pred_class_small g
        split: sum.split option.split csv_stop.split list.split)
qed

end

end
