(* ===== verification/Http_Route.thy ===== *)
theory Http_Route
  imports Http_Parse Session Diagnose
begin

text \<open>
  \<open>http_conn::do_request\<close>: what a complete request leads to. Login check, diagnosis,
  registration and login, logout, and the static files.

  The rest of the world is the record \<open>world\<close>: the session manager with the Redis server's
  state, the database behind MySQL, and the map \<open>users\<close> that the process keeps of the
  registered users. What is not code of the repository is the record \<open>outside\<close>: hiredis, MySQL's
  query, \<open>stat\<close>, opening and mapping a file, the random digits of a token, and the JSON and
  neural network libraries. The buffers of the C code (\<open>m_real_file\<close>, \<open>name[100]\<close>,
  \<open>password[100]\<close>, the 200 bytes of the SQL text and of \<open>m_url_real\<close>) keep their sizes: writing
  past one of them is undefined behaviour.
\<close>

record ('w, 'd, 'f) outside =
  api :: "'w redis_api"
  mysql_query :: "nat \<Rightarrow> string \<Rightarrow> 'd \<Rightarrow> 'd \<times> int"
  file_stat :: "string \<Rightarrow> stat option"
  open_mmap :: "string \<Rightarrow> int \<Rightarrow> file_addr"
  random_hex :: "nat list"
  g_session_ttl :: int
  parse_json :: "string \<Rightarrow> string + diag_request"
  dump_error :: "diag_error \<Rightarrow> string"
  models :: "'f ml"

record ('w, 'd) world =
  manager :: redis_manager
  redis :: 'w
  database :: 'd
  users :: "string \<Rightarrow> string option"

section \<open>Cookies and sessions\<close>

text \<open>\<open>std::string::find\<close>: the first position of a substring.\<close>

fun find_str :: "string \<Rightarrow> string \<Rightarrow> nat option" where
  "find_str p [] = (if p = [] then Some 0 else None)"
| "find_str p (x # xs) =
     (if take (length p) (x # xs) = p then Some 0 else map_option Suc (find_str p xs))"

definition session_field :: string where "session_field = ''session_id=''"

text \<open>The token: from behind \<open>session_id=\<close> to the next semicolon or the end.\<close>

definition cookie_token :: "string \<Rightarrow> string option" where
  "cookie_token cookie =
     map_option (\<lambda>pos. takeWhile (\<lambda>x. x \<noteq> CHR '';'') (drop (pos + 11) cookie)) (find_str session_field cookie)"

definition logged_in ::
    "('w, 'd, 'f) outside \<Rightarrow> ('w, 'd) world \<Rightarrow> string \<Rightarrow> ('w, 'd) world \<times> bool" where
  "logged_in ext w cookie = (case cookie_token cookie of
     None \<Rightarrow> (w, False)
   | Some token \<Rightarrow> (case verify_session (api ext) (manager w) (redis w) token of
       (r, v, u) \<Rightarrow> (w\<lparr>manager := r, redis := v\<rparr>, u \<noteq> None)))"

text \<open>The responses with status 302; the result is always \<open>REDIRECT_REQUEST\<close>.\<close>

definition redirect :: "http_conn \<Rightarrow> string list \<Rightarrow> http_conn \<times> HTTP_CODE" where
  "redirect c lines =
     (fst (add_blank_line (foldl (\<lambda>d l. fst (add_response d l)) (fst (add_status_line c 302 ''Found'')) lines)),
      REDIRECT_REQUEST)"

section \<open>Serving a file\<close>

text \<open>\<open>stat\<close>, the permission bit, in the second of the two places the directory bit, then the mapping.\<close>

definition serve_file ::
    "('w, 'd, 'f) outside \<Rightarrow> http_conn \<Rightarrow> bool \<Rightarrow> (http_conn \<times> HTTP_CODE) res" where
  "serve_file ext c check_dir =
     rbind (c_str FILENAME_LEN (m_real_file c) 0) (\<lambda>path.
       Inr (case file_stat ext path of
         None \<Rightarrow> (c, NO_RESOURCE)
       | Some st \<Rightarrow>
           let c1 = c\<lparr>m_file_stat := st\<rparr> in
           if \<not> st_iroth st then (c1, FORBIDDEN_REQUEST)
           else if check_dir \<and> st_isdir st then (c1, BAD_REQUEST)
           else (c1\<lparr>m_file_address := open_mmap ext path (st_size st)\<rparr>, FILE_REQUEST)))"

definition url_of :: "http_conn \<Rightarrow> (int \<times> string) res" where
  "url_of c = (case m_url c of
     None \<Rightarrow> Inl Null_Deref
   | Some u \<Rightarrow> rbind (c_str READ_BUFFER_SIZE (m_read_buf c) u) (\<lambda>s. Inr (u, s)))"

section \<open>1. The login check\<close>

definition diagnose_url :: string where "diagnose_url = ''/diagnose''"
definition root_url :: string where "root_url = ''/''"

text \<open>\<open>None\<close> where the function goes on behind the check.\<close>

definition check_login ::
    "('w, 'd, 'f) outside \<Rightarrow> ('w, 'd) world \<Rightarrow> http_conn \<Rightarrow> string
     \<Rightarrow> (('w, 'd) world \<times> http_conn \<times> HTTP_CODE option) res" where
  "check_login ext w c url =
     (if cgi c = 0 \<and> (url = root_url \<or> url = diagnose_url)
      then case logged_in ext w (m_cookie c) of (w1, valid) \<Rightarrow>
        if \<not> valid
        then (case redirect c [''Location: /log.html'' @ crlf] of (c1, ret) \<Rightarrow> Inr (w1, c1, Some ret))
        else if url = root_url
        then rbind (strcpy FILENAME_LEN (m_real_file c) 0 (doc_root c)) (\<lambda>f1.
             rbind (strcpy FILENAME_LEN f1 (int (length (doc_root c))) ''/diagnose.html'') (\<lambda>f2.
             rbind (serve_file ext (c\<lparr>m_real_file := f2\<rparr>) False) (\<lambda>(c1, ret).
             Inr (w1, c1, Some ret))))
        else Inr (w1, c, None)
      else Inr (w, c, None))"

section \<open>2. The diagnosis\<close>

definition run_diagnose ::
    "('w, 'd, 'f) outside \<Rightarrow> http_conn \<Rightarrow> (http_conn \<times> HTTP_CODE) res" where
  "run_diagnose ext c = (case m_string c of
     None \<Rightarrow> Inl Null_Deref
   | Some p \<Rightarrow>
       rbind (c_str READ_BUFFER_SIZE (m_read_buf c) p) (\<lambda>text.
       rbind (diagnose (models ext) (parse_json ext text)) (\<lambda>a.
       Inr (case a of
         Diag_Json e \<Rightarrow> (c\<lparr>m_response_json := dump_error ext e\<rparr>, DIAGNOSE_REQUEST)
       | Diag_Csv s \<Rightarrow> (c\<lparr>m_response_csv := s\<rparr>, DIAGNOSE_CSV_REQUEST)))))"

section \<open>3. Registration and login\<close>

text \<open>
  Copying from \<open>m_read_buf\<close> at \<open>p\<close> up to the byte \<open>stop\<close> into an array of 100 bytes that holds \<open>j\<close>
  bytes already, and the terminating NUL; the position of \<open>stop\<close>.
\<close>

function copy_field :: "char \<Rightarrow> chars \<Rightarrow> int \<Rightarrow> int \<Rightarrow> (string \<times> int) res" where
  "copy_field stop buf p j =
     (if p < 0 \<or> READ_BUFFER_SIZE \<le> p \<or> 100 \<le> j then Inl Out_Of_Bounds
      else if buf p = stop then Inr ([], p)
      else rbind (copy_field stop buf (p + 1) (j + 1)) (\<lambda>(s, q). Inr (buf p # s, q)))"
  by pat_completeness auto
termination
  by (relation "measure (\<lambda>(stop, buf, p, j). nat (100 - j))") auto

declare copy_field.simps [simp del]

text \<open>The two loops over \<open>m_string\<close>: the user from index 5 to \<open>&\<close>, the password from 10 behind it.\<close>

definition read_credentials :: "http_conn \<Rightarrow> (string \<times> string) res" where
  "read_credentials c = (case m_string c of
     None \<Rightarrow> Inl Null_Deref
   | Some p \<Rightarrow>
       rbind (copy_field (CHR ''&'') (m_read_buf c) (p + 5) 0) (\<lambda>(name, q).
       rbind (copy_field NUL (m_read_buf c) (q + 10) 0) (\<lambda>(password, _).
       Inr (c_string name, password))))"

definition insert_text :: "string \<Rightarrow> string \<Rightarrow> string" where
  "insert_text name password =
     ''INSERT INTO user(username, passwd) VALUES('' @ [CHR 0x27] @ name @ [CHR 0x27] @ '', '' @ [CHR 0x27]
     @ password @ [CHR 0x27] @ '')''"

text \<open>\<open>strcpy(m_url, s)\<close> overwrites the request in \<open>m_read_buf\<close>.\<close>

definition set_url :: "http_conn \<Rightarrow> int \<Rightarrow> string \<Rightarrow> http_conn res" where
  "set_url c u s = rbind (strcpy READ_BUFFER_SIZE (m_read_buf c) u s) (\<lambda>b. Inr (c\<lparr>m_read_buf := b\<rparr>))"

definition register_user ::
    "('w, 'd, 'f) outside \<Rightarrow> ('w, 'd) world \<Rightarrow> http_conn \<Rightarrow> int \<Rightarrow> string \<Rightarrow> string
     \<Rightarrow> (('w, 'd) world \<times> http_conn) res" where
  "register_user ext w c u name password =
     (if length (insert_text name password) \<ge> 200 then Inl Out_Of_Bounds
      else if users w name = None
      then (case mysql c of
         None \<Rightarrow> Inl Null_Deref
       | Some con \<Rightarrow>
           (case mysql_query ext con (insert_text name password) (database w) of (d, res) \<Rightarrow>
             let w1 = w\<lparr>database := d, users := (users w)(name \<mapsto> password)\<rparr> in
             rbind (set_url c u (if res = 0 then ''/log.html'' else ''/registerError.html'')) (\<lambda>c1.
             Inr (w1, c1))))
      else rbind (set_url c u ''/registerError.html'') (\<lambda>c1. Inr (w, c1)))"

definition login_user ::
    "('w, 'd, 'f) outside \<Rightarrow> ('w, 'd) world \<Rightarrow> http_conn \<Rightarrow> int \<Rightarrow> string \<Rightarrow> string
     \<Rightarrow> (('w, 'd) world \<times> http_conn \<times> HTTP_CODE option) res" where
  "login_user ext w c u name password =
     (if users w name = Some password
      then (case create_session (api ext) (manager w) (redis w) (g_session_ttl ext) (random_hex ext) name of
        (r, v, token) \<Rightarrow>
          (case redirect c [''Set-Cookie: session_id='' @ c_string token @ ''; Path=/'' @ crlf, ''Location: /'' @ crlf] of
            (c1, ret) \<Rightarrow> Inr (w\<lparr>manager := r, redis := v\<rparr>, c1, Some ret)))
      else rbind (set_url c u ''/logError.html'') (\<lambda>c1. Inr (w, c1, None)))"

text \<open>
  The whole branch. \<open>p\<close> is the last slash of the URL and \<open>len\<close> the length of \<open>doc_root\<close>. The path
  is first set to the URL without its second character.
\<close>

definition account ::
    "('w, 'd, 'f) outside \<Rightarrow> ('w, 'd) world \<Rightarrow> http_conn \<Rightarrow> int \<Rightarrow> int \<Rightarrow> int
     \<Rightarrow> (('w, 'd) world \<times> http_conn \<times> HTTP_CODE option) res" where
  "account ext w c u p len =
     rbind (c_str READ_BUFFER_SIZE (m_read_buf c) (u + 2)) (\<lambda>tail.
     if length tail + 1 \<ge> 200 then Inl Out_Of_Bounds
     else rbind (strncpy FILENAME_LEN (m_real_file c) len (''/'' @ tail) (FILENAME_LEN - len - 1)) (\<lambda>f.
     let c1 = c\<lparr>m_real_file := f\<rparr> in
     rbind (read_credentials c1) (\<lambda>(name, password).
     if m_read_buf c1 (p + 1) = CHR ''3''
     then rbind (register_user ext w c1 u name password) (\<lambda>(w1, c2). Inr (w1, c2, None))
     else login_user ext w c1 u name password)))"

section \<open>4. Logout and static files\<close>

definition logout ::
    "('w, 'd, 'f) outside \<Rightarrow> ('w, 'd) world \<Rightarrow> http_conn \<Rightarrow> ('w, 'd) world \<times> http_conn \<times> HTTP_CODE" where
  "logout ext w c =
     (let w1 = (case cookie_token (m_cookie c) of
            None \<Rightarrow> w
          | Some token \<Rightarrow> (case remove_session (api ext) (manager w) (redis w) token of
              (r, v) \<Rightarrow> w\<lparr>manager := r, redis := v\<rparr>))
      in (case redirect c [''Set-Cookie: session_id=; Path=/; Max-Age=0'' @ crlf, ''Location: /log.html'' @ crlf] of
        (c1, ret) \<Rightarrow> (w1, c1, ret)))"

definition page_of :: "char \<Rightarrow> string option" where
  "page_of x =
     (if x = CHR ''0'' then Some ''/register.html''
      else if x = CHR ''1'' then Some ''/log.html''
      else if x = CHR ''5'' then Some ''/picture.html''
      else if x = CHR ''6'' then Some ''/video.html''
      else if x = CHR ''7'' then Some ''/fans.html''
      else None)"

text \<open>The five pages are copied without their NUL, everything else padded to the array's end.\<close>

definition static_path :: "http_conn \<Rightarrow> char \<Rightarrow> int \<Rightarrow> http_conn res" where
  "static_path c x len =
     rbind (case page_of x of
        Some page \<Rightarrow> strncpy FILENAME_LEN (m_real_file c) len page (int (length page))
      | None \<Rightarrow> rbind (url_of c) (\<lambda>(_, url).
          strncpy FILENAME_LEN (m_real_file c) len url (FILENAME_LEN - len - 1))) (\<lambda>f.
     Inr (c\<lparr>m_real_file := f\<rparr>))"

text \<open>The end of the function: the byte behind the last slash \<open>p\<close>, read again, decides.\<close>

definition last_part ::
    "('w, 'd, 'f) outside \<Rightarrow> ('w, 'd) world \<Rightarrow> http_conn \<Rightarrow> int \<Rightarrow> int
     \<Rightarrow> (('w, 'd) world \<times> http_conn \<times> HTTP_CODE) res" where
  "last_part ext w c p len =
     (if m_read_buf c (p + 1) = CHR ''4'' then Inr (logout ext w c)
      else rbind (static_path c (m_read_buf c (p + 1)) len) (\<lambda>c3.
           rbind (serve_file ext c3 True) (\<lambda>(c4, ret). Inr (w, c4, ret))))"

text \<open>Everything from the third part on.\<close>

definition route ::
    "('w, 'd, 'f) outside \<Rightarrow> ('w, 'd) world \<Rightarrow> http_conn \<Rightarrow> (('w, 'd) world \<times> http_conn \<times> HTTP_CODE) res" where
  "route ext w c =
     rbind (strcpy FILENAME_LEN (m_real_file c) 0 (doc_root c)) (\<lambda>f.
     let c1 = c\<lparr>m_real_file := f\<rparr>; len = int (length (doc_root c)) in
     rbind (url_of c1) (\<lambda>(u, _).
     rbind (strrchr READ_BUFFER_SIZE (m_read_buf c1) u (CHR ''/'')) (\<lambda>r.
     (case r of
        None \<Rightarrow> Inl Null_Deref
      | Some p \<Rightarrow>
          rbind (if cgi c1 = 1 \<and> (m_read_buf c1 (p + 1) = CHR ''2'' \<or> m_read_buf c1 (p + 1) = CHR ''3'')
                 then account ext w c1 u p len else Inr (w, c1, None)) (\<lambda>(w2, c2, done2).
          (case done2 of
             Some ret \<Rightarrow> Inr (w2, c2, ret)
           | None \<Rightarrow> last_part ext w2 c2 p len))))))"

definition do_request ::
    "('w, 'd, 'f) outside \<Rightarrow> ('w, 'd) world \<Rightarrow> http_conn \<Rightarrow> (('w, 'd) world \<times> http_conn \<times> HTTP_CODE) res" where
  "do_request ext w c =
     rbind (url_of c) (\<lambda>(_, url).
     rbind (check_login ext w c url) (\<lambda>(w1, c1, done1).
     (case done1 of
        Some ret \<Rightarrow> Inr (w1, c1, ret)
      | None \<Rightarrow>
          if cgi c1 = 1 \<and> url = diagnose_url
          then rbind (run_diagnose ext c1) (\<lambda>(c2, ret). Inr (w1, c2, ret))
          else route ext w1 c1)))"

section \<open>Paths\<close>

lemma strcpy_root:
  "0 \<le> i \<Longrightarrow> i + int (length s) < n \<Longrightarrow> strcpy n a i s = Inr (put a i (s @ [NUL]))"
  by (simp add: strcpy_def)

lemma put_put_end: "put (put a i (s @ t)) (i + int (length s)) r = put (put a i s) (i + int (length s)) r"
  if "length t \<le> length r"
  using that by (auto simp: fun_eq_iff put_def nth_append nat_less_iff)

text \<open>The array as \<open>strcpy(m_real_file, doc_root)\<close> and the copies behind it leave it.\<close>

lemma c_str_put2:
  assumes "NUL \<notin> set s" and "NUL \<notin> set t" and "int (length s) + int (length t) < n"
    and "b = put (put a 0 s) (int (length s)) t" and "a (int (length s) + int (length t)) = NUL"
  shows "c_str n b 0 = Inr (s @ t)"
proof -
  have b: "b = put a 0 (s @ t)" using assms(4) put_append [of a 0 s t] by simp
  then have "get b 0 (length (s @ t)) = s @ t" by (simp only: get_put_same)
  moreover have "b (0 + int (length (s @ t))) = NUL"
    using assms(5) by (simp add: b put_outside)
  ultimately show ?thesis using assms(1-3) by (intro c_strI) simp_all
qed

lemma get_put_prefix: "get (put a i (t @ r)) i (length t) = t"
  by (rule nth_equalityI) (simp_all add: put_def nth_append)

text \<open>The array begins with the root directory and ends with a NUL.\<close>

definition rooted :: "string \<Rightarrow> chars \<Rightarrow> bool" where
  "rooted root f \<longleftrightarrow> get f 0 (length root) = root \<and> f 199 = NUL \<and> NUL \<notin> set root \<and> length root \<le> 180"

lemma padded_path:
  assumes "rooted root f" and "NUL \<notin> set s"
  obtains f2 where "strncpy FILENAME_LEN f (int (length root)) s (FILENAME_LEN - int (length root) - 1) = Inr f2"
    and "c_str FILENAME_LEN f2 0 = Inr (root @ take (199 - length root) s)" and "rooted root f2"
proof -
  let ?k = "199 - length root"
  let ?f2 = "put f (int (length root)) (strncpy_bytes s ?k)"
  note r = assms(1) [unfolded rooted_def]
  have l: "length (strncpy_bytes s ?k) = ?k" by (simp add: strncpy_bytes_def)
  have k: "nat (FILENAME_LEN - int (length root) - 1) = ?k" using r by (simp add: FILENAME_LEN_def)
  have 1: "strncpy FILENAME_LEN f (int (length root)) s (FILENAME_LEN - int (length root) - 1) = Inr ?f2"
    unfolding strncpy_def k using r by (simp add: FILENAME_LEN_def)
  have root: "get ?f2 0 (length root) = root" using r by (simp add: get_put_disjoint)
  have e: "?f2 199 = NUL" using r l by (simp add: put_outside)
  have t: "get ?f2 (int (length root)) (length (take ?k s)) = take ?k s"
    unfolding strncpy_bytes_def by (rule get_put_prefix)
  have "?f2 (0 + int (length (root @ take ?k s))) = NUL"
  proof (cases "length s < ?k")
    case True
    then show ?thesis using r by (auto simp: put_def strncpy_bytes_def nth_append)
  next
    case False
    then have "0 + int (length (root @ take ?k s)) = 199" using r by (simp add: min_def)
    with e show ?thesis by simp
  qed
  moreover have "get ?f2 0 (length (root @ take ?k s)) = root @ take ?k s"
    using get_add [of ?f2 0 "length root" "length (take ?k s)"] root t by simp
  ultimately have "c_str FILENAME_LEN ?f2 0 = Inr (root @ take ?k s)"
    using r assms(2) by (intro c_strI) (auto simp: FILENAME_LEN_def dest: in_set_takeD)
  moreover have "rooted root ?f2" unfolding rooted_def using root e r by blast
  ultimately show ?thesis by (rule that [OF 1])
qed

lemma rooted_start: "NUL \<notin> set root \<Longrightarrow> length root \<le> 180 \<Longrightarrow> rooted root (put blank 0 (root @ [NUL]))"
  using get_put_prefix [of blank 0 root "[NUL]"] by (simp add: rooted_def put_def blank_def)

lemma page_path:
  assumes "NUL \<notin> set root" and "NUL \<notin> set s" and "length root + length s \<le> 199" and "s \<noteq> []"
  obtains f2 where "strncpy FILENAME_LEN (put blank 0 (root @ [NUL])) (int (length root)) s (int (length s)) = Inr f2"
    and "c_str FILENAME_LEN f2 0 = Inr (root @ s)"
proof -
  let ?f2 = "put (put blank 0 (root @ [NUL])) (int (length root)) s"
  have 1: "strncpy FILENAME_LEN (put blank 0 (root @ [NUL])) (int (length root)) s (int (length s)) = Inr ?f2"
    using assms(3) by (simp add: strncpy_def FILENAME_LEN_def strncpy_bytes_def)
  have "?f2 = put (put blank 0 root) (int (length root)) s"
    using put_put_end [of "[NUL]" s blank 0 root] assms(4) by (cases s) simp_all
  from c_str_put2 [OF assms(1,2) _ this, of FILENAME_LEN] assms(3)
  have "c_str FILENAME_LEN ?f2 0 = Inr (root @ s)" by (simp add: FILENAME_LEN_def blank_def)
  with 1 show ?thesis by (rule that)
qed

section \<open>Static files\<close>

text \<open>What \<open>serve_file\<close> does for a path.\<close>

definition file_result :: "('w, 'd, 'f) outside \<Rightarrow> string \<Rightarrow> bool \<Rightarrow> http_conn \<Rightarrow> http_conn \<times> HTTP_CODE" where
  "file_result ext path check_dir c = (case file_stat ext path of
     None \<Rightarrow> (c, NO_RESOURCE)
   | Some st \<Rightarrow>
       if \<not> st_iroth st then (c\<lparr>m_file_stat := st\<rparr>, FORBIDDEN_REQUEST)
       else if check_dir \<and> st_isdir st then (c\<lparr>m_file_stat := st\<rparr>, BAD_REQUEST)
       else (c\<lparr>m_file_stat := st, m_file_address := open_mmap ext path (st_size st)\<rparr>, FILE_REQUEST))"

lemma serve_file_path:
  "c_str FILENAME_LEN (m_real_file c) 0 = Inr path \<Longrightarrow> serve_file ext c b = Inr (file_result ext path b c)"
  by (auto simp: serve_file_def file_result_def Let_def split: option.splits)

text \<open>The page a URL names below \<open>doc_root\<close>.\<close>

definition after_slash :: "string \<Rightarrow> char" where
  "after_slash url = (case last_index (CHR ''/'') url of None \<Rightarrow> NUL | Some k \<Rightarrow> (url @ [NUL]) ! (k + 1))"

definition target :: "string \<Rightarrow> string \<Rightarrow> string" where
  "target root url = (case page_of (after_slash url) of
     Some page \<Rightarrow> page | None \<Rightarrow> take (199 - length root) url)"

lemma url_ofE:
  assumes "url_of c = Inr (u, url)"
  shows "m_url c = Some u" and "c_str READ_BUFFER_SIZE (m_read_buf c) u = Inr url" and "NUL \<notin> set url"
  using assms by (auto simp: url_of_def rbind_eq_Inr c_str_Inr_iff split: option.splits)

lemma url_of_cong: "m_url c = m_url d \<Longrightarrow> m_read_buf c = m_read_buf d \<Longrightarrow> url_of c = url_of d"
  by (cases "m_url d") (simp_all add: url_of_def)

lemma url_of_fields [simp]:
  "url_of (c\<lparr>m_real_file := f\<rparr>) = url_of c" "url_of (c\<lparr>m_cookie := k\<rparr>) = url_of c"
  by (rule url_of_cong; simp)+

lemma url_last_slash:
  assumes "url_of c = Inr (u, url)" and "CHR ''/'' \<in> set url"
  obtains k where "last_index (CHR ''/'') url = Some k" and "k < length url"
    and "strrchr READ_BUFFER_SIZE (m_read_buf c) u (CHR ''/'') = Inr (Some (u + int k))"
    and "m_read_buf c (u + int k + 1) = after_slash url"
proof -
  note u = url_ofE [OF assms(1)]
  obtain k where k: "last_index (CHR ''/'') url = Some k"
    using assms(2) last_index_None [of "CHR ''/''" url] by (cases "last_index (CHR ''/'') url") auto
  then have lt: "k < length url" by (simp add: last_index_Some)
  have "m_read_buf c (u + int (k + 1)) = (url @ [NUL]) ! (k + 1)"
  proof (cases "k + 1 < length url")
    case True
    then show ?thesis using c_str_nth(1) [OF u(2) True] by (simp add: nth_append)
  next
    case False
    with lt have "k + 1 = length url" by simp
    then show ?thesis using c_str_end(1) [OF u(2)] by (simp add: nth_append)
  qed
  moreover have "strrchr READ_BUFFER_SIZE (m_read_buf c) u (CHR ''/'') = Inr (Some (u + int k))"
    by (simp add: strrchr_def u k)
  ultimately show ?thesis using k lt by (intro that) (simp_all add: after_slash_def algebra_simps)
qed

lemma page_of_props:
  "page_of x = Some page \<Longrightarrow> NUL \<notin> set page \<and> length page \<le> 14 \<and> page \<noteq> []"
  by (auto simp: page_of_def split: if_splits)

lemma static_path_target:
  assumes "url_of c = Inr (u, url)" and "m_real_file c = put blank 0 (root @ [NUL])"
    and "NUL \<notin> set root" and "length root \<le> 180"
  obtains f where "static_path c (after_slash url) (int (length root)) = Inr (c\<lparr>m_real_file := f\<rparr>)"
    and "c_str FILENAME_LEN f 0 = Inr (root @ target root url)"
proof (cases "page_of (after_slash url)")
  case None
  have "rooted root (m_real_file c)" unfolding assms(2) using assms(3,4) by (rule rooted_start)
  from padded_path [OF this url_ofE(3) [OF assms(1)]]
  obtain f where "strncpy FILENAME_LEN (m_real_file c) (int (length root)) url (FILENAME_LEN - int (length root) - 1) = Inr f"
    and f: "c_str FILENAME_LEN f 0 = Inr (root @ take (199 - length root) url)" by blast
  with None assms(1) have "static_path c (after_slash url) (int (length root)) = Inr (c\<lparr>m_real_file := f\<rparr>)"
    by (simp add: static_path_def)
  with f None show ?thesis by (intro that) (simp_all add: target_def)
next
  case (Some page)
  with page_of_props assms(4) have pg: "NUL \<notin> set page" "length root + length page \<le> 199" "page \<noteq> []"
    by (blast, force, blast)
  obtain f where "strncpy FILENAME_LEN (m_real_file c) (int (length root)) page (int (length page)) = Inr f"
    and f: "c_str FILENAME_LEN f 0 = Inr (root @ page)"
    using page_path [OF assms(3) pg] unfolding assms(2) by blast
  with Some have "static_path c (after_slash url) (int (length root)) = Inr (c\<lparr>m_real_file := f\<rparr>)"
    by (simp add: static_path_def)
  with f Some show ?thesis by (intro that) (simp_all add: target_def)
qed

text \<open>The state of a connection that the routes start from.\<close>

definition fresh_path :: "http_conn \<Rightarrow> bool" where
  "fresh_path c \<longleftrightarrow> m_real_file c = blank \<and> NUL \<notin> set (doc_root c) \<and> length (doc_root c) \<le> 180"

lemma fresh_path_strcpy:
  assumes "fresh_path c"
  shows "strcpy FILENAME_LEN (m_real_file c) 0 (doc_root c) = Inr (put blank 0 (doc_root c @ [NUL]))"
  using assms by (simp add: fresh_path_def strcpy_def FILENAME_LEN_def)

lemma route_file:
  assumes "url_of c = Inr (u, url)" and "CHR ''/'' \<in> set url" and "fresh_path c"
    and "cgi c = 1 \<longrightarrow> after_slash url \<noteq> CHR ''2'' \<and> after_slash url \<noteq> CHR ''3''" and "after_slash url \<noteq> CHR ''4''"
  shows "\<exists>f. route ext w c = Inr (w, file_result ext (doc_root c @ target (doc_root c) url) True (c\<lparr>m_real_file := f\<rparr>))"
proof -
  let ?c1 = "c\<lparr>m_real_file := put blank 0 (doc_root c @ [NUL])\<rparr>"
  have u1: "url_of ?c1 = Inr (u, url)" by (simp add: assms(1))
  from url_last_slash [OF u1 assms(2)] obtain k where
    k: "strrchr READ_BUFFER_SIZE (m_read_buf ?c1) u (CHR ''/'') = Inr (Some (u + int k))"
      "m_read_buf ?c1 (u + int k + 1) = after_slash url" by blast
  obtain f where f: "static_path ?c1 (after_slash url) (int (length (doc_root c))) = Inr (c\<lparr>m_real_file := f\<rparr>)"
      "c_str FILENAME_LEN f 0 = Inr (doc_root c @ target (doc_root c) url)"
    by (rule static_path_target [OF u1]) (use assms(3) in \<open>auto simp: fresh_path_def\<close>)
  have no_account: "(cgi c = 1 \<and> (after_slash url = CHR ''2'' \<or> after_slash url = CHR ''3'')) = False" using assms(4) by blast
  have "route ext w c = Inr (case file_result ext (doc_root c @ target (doc_root c) url) True (c\<lparr>m_real_file := f\<rparr>)
      of (c4, ret) \<Rightarrow> (w, c4, ret))"
    unfolding route_def last_part_def Let_def
    by (simp add: fresh_path_strcpy [OF assms(3)] u1 k [simplified] assms(1,5) no_account f [simplified] serve_file_path split: prod.split)
  then show ?thesis by (intro exI [of _ f]) (simp split: prod.splits)
qed

lemma static_file_route:
  assumes "url_of c = Inr (u, url)" and "CHR ''/'' \<in> set url" and "fresh_path c"
    and "cgi c = 0" and "url \<noteq> root_url" and "url \<noteq> diagnose_url" and "after_slash url \<noteq> CHR ''4''"
  shows "\<exists>f. do_request ext w c =
    Inr (w, file_result ext (doc_root c @ target (doc_root c) url) True (c\<lparr>m_real_file := f\<rparr>))"
  using route_file [OF assms(1-3) _ assms(7), of ext w] assms(4-6)
  by (simp add: do_request_def assms(1) check_login_def)

text \<open>
  A GET request that is neither for the guarded pages nor a logout is answered from the file
  below \<open>doc_root\<close> that \<open>target\<close> names: the five numbered pages, else the URL itself, cut where
  the array ends. Nothing else in the world changes. The URL is taken as it is, dots included.
\<close>

theorem static_file_found:
  assumes "url_of c = Inr (u, url)" and "CHR ''/'' \<in> set url" and "fresh_path c"
    and "cgi c = 0" and "url \<noteq> root_url" and "url \<noteq> diagnose_url" and "after_slash url \<noteq> CHR ''4''"
  shows "\<exists>f. do_request ext w c =
    Inr (w, file_result ext (doc_root c @ target (doc_root c) url) True (c\<lparr>m_real_file := f\<rparr>))"
  using assms by (rule static_file_route)

section \<open>The login check\<close>

text \<open>What the code relies on, and the session a request shows.\<close>

definition session_user :: "('w \<Rightarrow> string \<Rightarrow> string option) \<Rightarrow> ('w, 'd) world \<Rightarrow> string \<Rightarrow> string option" where
  "session_user sess w cookie = (case cookie_token cookie of
     None \<Rightarrow> None | Some token \<Rightarrow> sess (redis w) (session_key token))"

lemma logged_in_session:
  assumes "redis_spec (api ext) sess" and "isConnected (manager w)"
  obtains v where "logged_in ext w cookie = (w\<lparr>redis := v\<rparr>, session_user sess w cookie \<noteq> None)"
    and "sess v = sess (redis w)"
proof (cases "cookie_token cookie")
  case None
  then show ?thesis by (intro that [of "redis w"]) (simp_all add: logged_in_def session_user_def)
next
  case (Some t)
  obtain v where "getSession (api ext) (manager w) (redis w) t = (manager w, v, sess (redis w) (session_key t))"
    and "sess v = sess (redis w)"
    by (rule getSession_ok [OF assms])
  with Some show ?thesis
    by (intro that [of v]) (simp_all add: logged_in_def verify_session_def session_user_def)
qed

lemma diagnose_page_path:
  assumes "fresh_path c"
  obtains f1 f2 where "strcpy FILENAME_LEN (m_real_file c) 0 (doc_root c) = Inr f1"
    and "strcpy FILENAME_LEN f1 (int (length (doc_root c))) ''/diagnose.html'' = Inr f2"
    and "c_str FILENAME_LEN f2 0 = Inr (doc_root c @ ''/diagnose.html'')"
proof -
  let ?f1 = "put blank 0 (doc_root c @ [NUL])"
  let ?t = "''/diagnose.html''"
  let ?f2 = "put ?f1 (int (length (doc_root c))) (?t @ [NUL])"
  have l: "length (doc_root c) \<le> 180" "NUL \<notin> set (doc_root c)" using assms by (auto simp: fresh_path_def)
  have 2: "strcpy FILENAME_LEN ?f1 (int (length (doc_root c))) ?t = Inr ?f2"
    using l(1) by (simp add: strcpy_def FILENAME_LEN_def)
  have "?f2 = put (put blank 0 (doc_root c)) (int (length (doc_root c))) (?t @ [NUL])"
    using put_put_end [of "[NUL]" "?t @ [NUL]" blank 0 "doc_root c"] by simp
  also have "\<dots> = put (put (put blank 0 (doc_root c)) (int (length (doc_root c))) ?t) (int (length (doc_root c)) + int (length ?t)) [NUL]"
    by (rule put_append)
  finally have e: "?f2 = put (put blank 0 (doc_root c)) (int (length (doc_root c))) ?t"
    by (auto simp: fun_eq_iff put_def blank_def nth_append)
  have "c_str FILENAME_LEN ?f2 0 = Inr (doc_root c @ ?t)"
    by (rule c_str_put2 [OF l(2) _ _ e]) (use l in \<open>auto simp: FILENAME_LEN_def blank_def\<close>)
  with fresh_path_strcpy [OF assms] 2 show ?thesis by (rule that)
qed

text \<open>
  C19. A GET of \<open>/\<close> is answered with the page of the diagnosis when its cookie carries the token of
  a stored session, and with the redirect to the login page when it does not; the sessions stay
  as they are. The check is for GET only: a POST of \<open>/\<close> is not redirected, but it gets what lies at
  \<open>doc_root/\<close> itself, which as a directory is refused, and never the page.
\<close>

theorem root_page_needs_session:
  assumes "redis_spec (api ext) sess" and "isConnected (manager w)"
    and "url_of c = Inr (u, root_url)" and "fresh_path c"
  shows "\<exists>w1 f. sess (redis w1) = sess (redis w) \<and> users w1 = users w \<and> database w1 = database w
    \<and> do_request ext w c = Inr (w1,
        if cgi c \<noteq> 0 then file_result ext (doc_root c @ ''/'') True (c\<lparr>m_real_file := f\<rparr>)
        else if session_user sess w (m_cookie c) = None then redirect c [''Location: /log.html'' @ crlf]
        else file_result ext (doc_root c @ ''/diagnose.html'') False (c\<lparr>m_real_file := f\<rparr>))"
proof (cases "cgi c = 0")
  case False
  have a: "after_slash root_url = NUL" "CHR ''/'' \<in> set root_url" by (simp_all add: after_slash_def root_url_def)
  have "1 \<le> 199 - length (doc_root c)" using assms(4) by (auto simp: fresh_path_def)
  with a(1) have "target (doc_root c) root_url = ''/''" by (simp add: target_def page_of_def root_url_def)
  with route_file [OF assms(3) a(2) assms(4), of ext w] a(1) obtain f where
    "route ext w c = Inr (w, file_result ext (doc_root c @ ''/'') True (c\<lparr>m_real_file := f\<rparr>))" by auto
  moreover have "root_url \<noteq> diagnose_url" by (simp add: root_url_def diagnose_url_def)
  ultimately show ?thesis
    using False by (intro exI [of _ w] exI [of _ f]) (simp add: do_request_def assms(3) check_login_def)
next
  case get: True
  obtain v where v: "logged_in ext w (m_cookie c) = (w\<lparr>redis := v\<rparr>, session_user sess w (m_cookie c) \<noteq> None)"
      "sess v = sess (redis w)"
    by (rule logged_in_session [OF assms(1,2)])
  obtain f1 f2 where f: "strcpy FILENAME_LEN (m_real_file c) 0 (doc_root c) = Inr f1"
      "strcpy FILENAME_LEN f1 (int (length (doc_root c))) ''/diagnose.html'' = Inr f2"
      "c_str FILENAME_LEN f2 0 = Inr (doc_root c @ ''/diagnose.html'')"
    by (rule diagnose_page_path [OF assms(4)])
  have "do_request ext w c = Inr (w\<lparr>redis := v\<rparr>,
        if session_user sess w (m_cookie c) = None then redirect c [''Location: /log.html'' @ crlf]
        else file_result ext (doc_root c @ ''/diagnose.html'') False (c\<lparr>m_real_file := f2\<rparr>))"
  proof (cases "session_user sess w (m_cookie c)")
    case None
    then show ?thesis
      using v(1) by (simp add: do_request_def assms(3) get check_login_def split: prod.splits)
  next
    case (Some user)
    then show ?thesis
      using v(1) f by (simp add: do_request_def assms(3) get check_login_def serve_file_path split: prod.splits)
  qed
  with v(2) get show ?thesis by (intro exI [of _ "w\<lparr>redis := v\<rparr>"] exI [of _ f2]) simp
qed

section \<open>Concrete requests\<close>

definition demo_ext :: "(string \<Rightarrow> string option, string list, int) outside" where
  "demo_ext = \<lparr>api = ref_redis, mysql_query = (\<lambda>con q d. (d @ [q], 0)),
     file_stat = (\<lambda>path. Some \<lparr>st_size = 5, st_iroth = True, st_isdir = False\<rparr>),
     open_mmap = (\<lambda>path n. FA_Mapped ''hello''), random_hex = replicate 32 7, g_session_ttl = 3600,
     parse_json = (\<lambda>s. Inr \<lparr>csv_data = None, num_samples = Inr 1\<rparr>), dump_error = (\<lambda>e. []),
     models = decimal_ml\<lparr>generate := (\<lambda>g xs. Inr (replicate 192 0))\<rparr>\<rparr>"

definition demo_world :: "(string \<Rightarrow> string option, string list) world" where
  "demo_world = \<lparr>manager = connected, redis = (\<lambda>_. None), database = [], users = (\<lambda>_. None)\<rparr>"

text \<open>A connection that has parsed a request for \<open>url\<close> with the given body.\<close>

definition demo_conn :: "int \<Rightarrow> string \<Rightarrow> string \<Rightarrow> http_conn" where
  "demo_conn post url body = zero_conn\<lparr>m_read_buf := put (put blank 0 (url @ [NUL])) 100 (body @ [NUL]),
     m_url := Some 0, m_string := Some 100, cgi := post, doc_root := ''/srv'', mysql := Some 1\<rparr>"

lemma demo_url: "NUL \<notin> set url \<Longrightarrow> length url < 100 \<Longrightarrow> url_of (demo_conn post url body) = Inr (0, url)"
proof -
  assume u: "NUL \<notin> set url" "length url < 100"
  let ?b = "put (put blank 0 (url @ [NUL])) 100 (body @ [NUL])"
  have "get ?b 0 (length url) = get (put blank 0 (url @ [NUL])) 0 (length url)"
    using u(2) by (intro get_put_disjoint) simp
  then have "get ?b 0 (length url) = url" by (simp only: get_put_prefix)
  moreover have "?b (int (length url)) = NUL" using u(2) by (simp add: put_def nth_append)
  ultimately have "c_str READ_BUFFER_SIZE ?b 0 = Inr url"
    using u by (intro c_strI) (simp_all add: READ_BUFFER_SIZE_def)
  then show ?thesis by (simp add: url_of_def demo_conn_def)
qed

lemma demo_fields [simp]:
  "cgi (demo_conn post url body) = post" "mysql (demo_conn post url body) = Some 1"
  "m_string (demo_conn post url body) = Some 100" "m_cookie (demo_conn post url body) = []"
  "doc_root (demo_conn post url body) = ''/srv''"
  by (simp_all add: demo_conn_def zero_conn_def)

lemma demo_fresh: "fresh_path (demo_conn post url body)"
  by (simp add: fresh_path_def demo_conn_def zero_conn_def)

lemma demo_ext_spec: "redis_spec (api demo_ext) id" "isConnected (manager demo_world)"
  by (simp_all add: demo_ext_def ref_redis_spec demo_world_def isConnected_def connected_def)

theorem static_file_found_witness:
  "\<exists>c'. do_request demo_ext demo_world (demo_conn 0 ''/a/../b.html'' []) = Inr (demo_world, c', FILE_REQUEST)"
proof -
  have "\<exists>f. do_request demo_ext demo_world (demo_conn 0 ''/a/../b.html'' []) =
    Inr (demo_world, file_result demo_ext (''/srv'' @ target ''/srv'' ''/a/../b.html'') True
      (demo_conn 0 ''/a/../b.html'' []\<lparr>m_real_file := f\<rparr>))"
    using static_file_found [OF demo_url [of "''/a/../b.html''" 0 "[]"] _ demo_fresh, of demo_ext demo_world]
    by (simp add: root_url_def diagnose_url_def after_slash_def)
  then show ?thesis by (auto simp: file_result_def demo_ext_def)
qed

theorem root_page_needs_session_witness:
  "\<exists>w1. do_request demo_ext demo_world (demo_conn 0 root_url []) =
     Inr (w1, redirect (demo_conn 0 root_url []) [''Location: /log.html'' @ crlf])"
proof -
  have u: "url_of (demo_conn 0 root_url []) = Inr (0, root_url)" by (rule demo_url) (simp_all add: root_url_def)
  have "session_user id demo_world [] = None" by (simp add: session_user_def cookie_token_def session_field_def)
  then show ?thesis
    using root_page_needs_session [OF demo_ext_spec u demo_fresh] by auto
qed

end
