(* ===== verification/Http_Account.thy ===== *)
theory Http_Account
  imports Http_Route
begin

text \<open>
  The requests that change something: registration, login, logout and the diagnosis, as
  \<open>do_request\<close> of \<open>Http_Route\<close> carries them out. The credentials come from the request's body;
  \<open>registration_overflow_boundary\<close> says which of them the function's arrays hold.
\<close>

section \<open>Registration and login\<close>

lemma copy_field_ok:
  assumes "get a p (length s) = s" and "stop \<notin> set s" and "a (p + int (length s)) = stop"
    and "0 \<le> p" and "p + int (length s) < READ_BUFFER_SIZE" and "j + int (length s) < 100"
  shows "copy_field stop a p j = Inr (s, p + int (length s))"
  using assms
proof (induction s arbitrary: p j)
  case Nil
  then show ?case by (simp add: copy_field.simps [of _ _ p])
next
  case (Cons x s)
  then have "a p = x" "get a (p + 1) (length s) = s" by (simp_all add: get_Suc)
  with Cons.IH [of "p + 1" "j + 1"] Cons.prems show ?case
    by (auto simp: copy_field.simps [of _ _ p] algebra_simps)
qed

lemma copy_field_over:
  assumes "get a p (length s) = s" and "stop \<notin> set s" and "100 \<le> j + int (length s)"
  shows "copy_field stop a p j = Inl Out_Of_Bounds"
  using assms
proof (induction s arbitrary: p j)
  case Nil
  then show ?case by (simp add: copy_field.simps [of _ _ p])
next
  case (Cons x s)
  then have "a p = x" "get a (p + 1) (length s) = s" by (simp_all add: get_Suc)
  with Cons.IH [of "p + 1" "j + 1"] Cons.prems show ?case
    by (auto simp: copy_field.simps [of _ _ p])
qed

text \<open>A body with a user and a password as the pages of the site send it.\<close>

definition form_body :: "string \<Rightarrow> string \<Rightarrow> string" where
  "form_body name password = ''user='' @ name @ ''&password='' @ password"

definition plain_field :: "string \<Rightarrow> bool" where
  "plain_field s \<longleftrightarrow> CHR ''&'' \<notin> set s \<and> NUL \<notin> set s"

definition form_request :: "http_conn \<Rightarrow> string \<Rightarrow> string \<Rightarrow> bool" where
  "form_request c name password \<longleftrightarrow> (\<exists>p. m_string c = Some p \<and> 0 \<le> p
     \<and> p + int (length (form_body name password)) < READ_BUFFER_SIZE
     \<and> get (m_read_buf c) p (length (form_body name password)) = form_body name password
     \<and> m_read_buf c (p + int (length (form_body name password))) = NUL)"

lemma get_part:
  assumes "get a p (length (s @ t @ r)) = s @ t @ r"
  shows "get a (p + int (length s)) (length t) = t"
proof -
  have "get a p (length s) @ get a (p + int (length s)) (length t) @ get a (p + int (length s) + int (length t)) (length r)
      = s @ t @ r"
    using assms get_add [of a p "length s" "length t + length r"]
      get_add [of a "p + int (length s)" "length t" "length r"] by simp
  then show ?thesis by simp
qed

lemma read_credentials_form:
  assumes "form_request c name password" and "plain_field name" and "NUL \<notin> set password"
  shows "read_credentials c = (if length name < 100 \<and> length password < 100 then Inr (name, password) else Inl Out_Of_Bounds)"
proof -
  obtain p where p: "m_string c = Some p" "0 \<le> p"
      "p + int (length (form_body name password)) < READ_BUFFER_SIZE"
      "get (m_read_buf c) p (length (form_body name password)) = form_body name password"
      "m_read_buf c (p + int (length (form_body name password))) = NUL"
    using assms(1) by (auto simp: form_request_def)
  have n1: "get (m_read_buf c) (p + 5) (length name) = name"
    using get_part [of "m_read_buf c" p "''user=''" name "''&password='' @ password"] p(4) by (simp add: form_body_def)
  have "get (m_read_buf c) (p + int (length (''user='' @ name))) (length ''&'') = ''&''"
    by (rule get_part [where r = "''password='' @ password"]) (use p(4) in \<open>simp add: form_body_def\<close>)
  then have n2: "m_read_buf c (p + 5 + int (length name)) = CHR ''&''"
    by (simp add: get_def algebra_simps)
  have "get (m_read_buf c) (p + int (length (''user='' @ name @ ''&password=''))) (length password) = password"
    by (rule get_part [where r = "[]"]) (use p(4) in \<open>simp add: form_body_def\<close>)
  then have w1: "get (m_read_buf c) (p + 5 + int (length name) + 10) (length password) = password"
    by (simp add: algebra_simps)
  have w2: "m_read_buf c (p + 5 + int (length name) + 10 + int (length password)) = NUL"
    using p(5) by (simp add: form_body_def algebra_simps)
  have N: "p + 5 + int (length name) + 10 + int (length password) < READ_BUFFER_SIZE"
    using p(3) by (simp add: form_body_def)
  show ?thesis
  proof (cases "length name < 100")
    case False
    then have "copy_field (CHR ''&'') (m_read_buf c) (p + 5) 0 = Inl Out_Of_Bounds"
      using assms(2) by (intro copy_field_over [OF n1]) (auto simp: plain_field_def)
    with False show ?thesis by (simp add: read_credentials_def p(1))
  next
    case True
    have c1: "copy_field (CHR ''&'') (m_read_buf c) (p + 5) 0 = Inr (name, p + 5 + int (length name))"
      by (rule copy_field_ok [OF n1 _ n2]) (use assms(2) p(2) N True in \<open>auto simp: plain_field_def\<close>)
    have nm: "c_string name = name"
      by (rule c_string_id) (use assms(2) in \<open>simp add: plain_field_def no_nul_def\<close>)
    show ?thesis
    proof (cases "length password < 100")
      case False
      then have "copy_field NUL (m_read_buf c) (p + 5 + int (length name) + 10) 0 = Inl Out_Of_Bounds"
        by (intro copy_field_over [OF w1 assms(3)]) simp
      with False c1 show ?thesis by (simp add: read_credentials_def p(1))
    next
      case pw: True
      have "copy_field NUL (m_read_buf c) (p + 5 + int (length name) + 10) 0
          = Inr (password, p + 5 + int (length name) + 10 + int (length password))"
        by (rule copy_field_ok [OF w1 assms(3) w2]) (use p(2) N pw in auto)
      with True pw c1 nm show ?thesis by (simp add: read_credentials_def p(1))
    qed
  qed
qed

text \<open>A request for \<open>/2...\<close> or \<open>/3...\<close> whose last segment is the whole URL, up to the credentials.\<close>

definition account_url :: "char \<Rightarrow> string \<Rightarrow> bool" where
  "account_url x url \<longleftrightarrow> (\<exists>rest. url = CHR ''/'' # x # rest \<and> CHR ''/'' \<notin> set rest \<and> length rest < 199)"

lemma account_url_slash:
  "account_url x url \<Longrightarrow> x \<noteq> CHR ''/'' \<Longrightarrow> last_index (CHR ''/'') url = Some 0 \<and> after_slash url = x"
  by (auto simp: account_url_def after_slash_def last_index_None [THEN iffD2])

lemma route_account:
  assumes "url_of c = Inr (u, url)" and "account_url x url" and "x = CHR ''2'' \<or> x = CHR ''3''"
    and "cgi c = 1" and "fresh_path c"
  obtains f where "rooted (doc_root c) f" and
    "do_request ext w c = rbind (read_credentials c) (\<lambda>(name, password).
       rbind (if x = CHR ''3''
              then rbind (register_user ext w (c\<lparr>m_real_file := f\<rparr>) u name password) (\<lambda>(w1, c2). Inr (w1, c2, None))
              else login_user ext w (c\<lparr>m_real_file := f\<rparr>) u name password) (\<lambda>(w2, c2, done2).
       (case done2 of
          Some ret \<Rightarrow> Inr (w2, c2, ret)
        | None \<Rightarrow> last_part ext w2 c2 u (int (length (doc_root c))))))"
proof -
  obtain rest where rest: "url = CHR ''/'' # x # rest" "length rest < 199" using assms(2) by (auto simp: account_url_def)
  note u = url_ofE [OF assms(1)]
  let ?f0 = "put blank 0 (doc_root c @ [NUL])"
  have nul: "NUL \<notin> set (CHR ''/'' # rest)" using u(3) rest(1) by auto
  have "rooted (doc_root c) ?f0" using assms(5) by (intro rooted_start) (auto simp: fresh_path_def)
  from padded_path [OF this nul] obtain f where
    f: "strncpy FILENAME_LEN ?f0 (int (length (doc_root c))) (CHR ''/'' # rest) (FILENAME_LEN - int (length (doc_root c)) - 1) = Inr f"
      "rooted (doc_root c) f" by blast
  have tail: "c_str READ_BUFFER_SIZE (m_read_buf c) (u + 2) = Inr rest"
    using c_str_drop [OF u(2), of 2] rest(1) by simp
  have x: "m_read_buf c (u + 1) = x" using c_str_nth(1) [OF u(2), of 1] rest(1) by simp
  have sl: "strrchr READ_BUFFER_SIZE (m_read_buf c) u (CHR ''/'') = Inr (Some u)"
    using account_url_slash [OF assms(2)] assms(3) by (auto simp: strrchr_def u)
  have cr: "read_credentials (c\<lparr>m_real_file := f\<rparr>) = read_credentials c"
    by (cases "m_string c") (simp_all add: read_credentials_def)
  have no_diag: "url \<noteq> diagnose_url" using rest(1) assms(3) by (auto simp: diagnose_url_def)
  have "account ext w (c\<lparr>m_real_file := ?f0\<rparr>) u u (int (length (doc_root c))) = rbind (read_credentials c) (\<lambda>(name, password).
       if x = CHR ''3''
       then rbind (register_user ext w (c\<lparr>m_real_file := f\<rparr>) u name password) (\<lambda>(w1, c2). Inr (w1, c2, None))
       else login_user ext w (c\<lparr>m_real_file := f\<rparr>) u name password)"
    unfolding account_def Let_def using rest(2) by (cases "x = CHR ''3''") (simp_all add: tail f(1) x cr)
  then have "do_request ext w c = rbind (rbind (read_credentials c) (\<lambda>(name, password).
       if x = CHR ''3''
       then rbind (register_user ext w (c\<lparr>m_real_file := f\<rparr>) u name password) (\<lambda>(w1, c2). Inr (w1, c2, None))
       else login_user ext w (c\<lparr>m_real_file := f\<rparr>) u name password)) (\<lambda>(w2, c2, done2).
       (case done2 of
          Some ret \<Rightarrow> Inr (w2, c2, ret)
        | None \<Rightarrow> last_part ext w2 c2 u (int (length (doc_root c)))))"
    using assms(3,4) no_diag
    by (simp add: do_request_def assms(1) check_login_def route_def Let_def fresh_path_strcpy [OF assms(5)] sl x)
  then show ?thesis
    by (intro that [OF f(2)]) (cases "read_credentials c"; simp add: case_prod_beta)
qed

lemma set_url_ok:
  assumes "url_of c = Inr (u, url)" and "u + int (length s) < READ_BUFFER_SIZE" and "NUL \<notin> set s"
  obtains b where "set_url c u s = Inr (c\<lparr>m_read_buf := b\<rparr>)" and "url_of (c\<lparr>m_read_buf := b\<rparr>) = Inr (u, s)"
proof -
  note u = url_ofE [OF assms(1)]
  have u0: "0 \<le> u" using c_str_end(2) [OF u(2)] .
  let ?b = "put (m_read_buf c) u (s @ [NUL])"
  have "get ?b u (length s) = s" by (rule get_put_prefix)
  moreover have "?b (u + int (length s)) = NUL" by (simp add: put_def nth_append)
  ultimately have "c_str READ_BUFFER_SIZE ?b u = Inr s" using assms(2,3) u0 by (intro c_strI)
  with u u0 assms(2) show ?thesis by (intro that [of ?b]) (simp_all add: set_url_def strcpy_def url_of_def)
qed

text \<open>After the URL has been replaced by a page, the request goes on to that page.\<close>

lemma page_after_set_url:
  assumes "url_of c = Inr (u, page)" and "rooted (doc_root c) (m_real_file c)"
    and "page = ''/log.html'' \<or> page = ''/registerError.html'' \<or> page = ''/logError.html''"
  obtains f where "last_part ext w c u (int (length (doc_root c))) =
      Inr (w, file_result ext (doc_root c @ page) True (c\<lparr>m_real_file := f\<rparr>))"
proof -
  note u = url_ofE [OF assms(1)]
  have "m_read_buf c (u + 1) = page ! 1" using c_str_nth(1) [OF u(2), of 1] assms(3) by auto
  then have x: "m_read_buf c (u + 1) \<noteq> CHR ''4''" "page_of (m_read_buf c (u + 1)) = None"
    using assms(3) by (auto simp: page_of_def)
  have "NUL \<notin> set page" using assms(3) by auto
  from padded_path [OF assms(2) this] obtain f where
    f: "strncpy FILENAME_LEN (m_real_file c) (int (length (doc_root c))) page (FILENAME_LEN - int (length (doc_root c)) - 1) = Inr f"
      "c_str FILENAME_LEN f 0 = Inr (doc_root c @ take (199 - length (doc_root c)) page)" by blast
  have "length page \<le> 199 - length (doc_root c)" using assms(2,3) by (auto simp: rooted_def)
  with f x assms(1) show ?thesis
    by (intro that [of f]) (simp add: last_part_def static_path_def serve_file_path split: prod.split)
qed

lemma length_insert_text: "length (insert_text name password) = 49 + length name + length password"
  by (simp add: insert_text_def)

lemma do_register:
  assumes "url_of c = Inr (u, url)" and "account_url (CHR ''3'') url" and "cgi c = 1" and "fresh_path c"
    and "form_request c name password" and "plain_field name" and "NUL \<notin> set password"
    and "u + 19 < READ_BUFFER_SIZE" and "mysql c = Some con" and "users w name = None"
  shows "if length name < 100 \<and> length password < 100 \<and> length name + length password \<le> 150
    then \<exists>f b. do_request ext w c =
      (case mysql_query ext con (insert_text name password) (database w) of (d, res) \<Rightarrow>
       Inr (w\<lparr>database := d, users := (users w)(name \<mapsto> password)\<rparr>,
         file_result ext (doc_root c @ (if res = 0 then ''/log.html'' else ''/registerError.html'')) True
           (c\<lparr>m_read_buf := b, m_real_file := f\<rparr>)))
    else do_request ext w c = Inl Out_Of_Bounds"
proof -
  obtain f where f: "rooted (doc_root c) f" and
    req: "do_request ext w c = rbind (read_credentials c) (\<lambda>(name, password).
       rbind (rbind (register_user ext w (c\<lparr>m_real_file := f\<rparr>) u name password) (\<lambda>(w1, c2). Inr (w1, c2, None))) (\<lambda>(w2, c2, done2).
       (case done2 of
          Some ret \<Rightarrow> Inr (w2, c2, ret)
        | None \<Rightarrow> last_part ext w2 c2 u (int (length (doc_root c))))))"
    by (rule route_account [OF assms(1,2) _ assms(3,4), of ext w]) auto
  note cred = read_credentials_form [OF assms(5-7)]
  obtain d res where q: "mysql_query ext con (insert_text name password) (database w) = (d, res)" by force
  let ?page = "if res = 0 then ''/log.html'' else ''/registerError.html''"
  have u1: "url_of (c\<lparr>m_real_file := f\<rparr>) = Inr (u, url)" by (simp add: assms(1))
  have "u + int (length ?page) < READ_BUFFER_SIZE" "NUL \<notin> set ?page" using assms(8) by auto
  from set_url_ok [OF u1 this] obtain b where
    b: "set_url (c\<lparr>m_real_file := f\<rparr>) u ?page = Inr (c\<lparr>m_real_file := f, m_read_buf := b\<rparr>)"
      "url_of (c\<lparr>m_real_file := f, m_read_buf := b\<rparr>) = Inr (u, ?page)" .
  have rooted: "rooted (doc_root (c\<lparr>m_real_file := f, m_read_buf := b\<rparr>)) (m_real_file (c\<lparr>m_real_file := f, m_read_buf := b\<rparr>))"
    using f by simp
  let ?w1 = "w\<lparr>database := d, users := (users w)(name \<mapsto> password)\<rparr>"
  obtain f2 where f2: "last_part ext ?w1 (c\<lparr>m_real_file := f, m_read_buf := b\<rparr>) u (int (length (doc_root c)))
     = Inr (?w1, file_result ext (doc_root c @ ?page) True ((c\<lparr>m_real_file := f, m_read_buf := b\<rparr>)\<lparr>m_real_file := f2\<rparr>))"
    by (rule page_after_set_url [OF b(2) rooted, of ext ?w1]) auto
  have reg: "register_user ext w (c\<lparr>m_real_file := f\<rparr>) u name password =
      (if length name + length password \<le> 150 then Inr (?w1, c\<lparr>m_real_file := f, m_read_buf := b\<rparr>) else Inl Out_Of_Bounds)"
    using b(1) assms(9,10) by (simp add: register_user_def length_insert_text q Let_def)
  show ?thesis
  proof (cases "length name < 100 \<and> length password < 100 \<and> length name + length password \<le> 150")
    case True
    then have "do_request ext w c = Inr (?w1, file_result ext (doc_root c @ ?page) True (c\<lparr>m_read_buf := b, m_real_file := f2\<rparr>))"
      using f2 by (simp add: req cred reg)
    with True q show ?thesis by auto
  next
    case False
    then show ?thesis by (auto simp: req cred reg)
  qed
qed

lemma do_login:
  assumes "url_of c = Inr (u, url)" and "account_url (CHR ''2'') url" and "cgi c = 1" and "fresh_path c"
    and "form_request c name password" and "plain_field name" and "NUL \<notin> set password"
    and "length name < 100" and "length password < 100"
    and "redis_spec (api ext) sess" and "isConnected (manager w)" and "0 < g_session_ttl ext" and "g_session_ttl ext \<le> INT_MAX"
    and "users w name = Some password"
  shows "\<exists>v c'. do_request ext w c = Inr (w\<lparr>redis := v\<rparr>, c', REDIRECT_REQUEST)
    \<and> sess v = (sess (redis w))(session_key (token_of (random_hex ext)) \<mapsto> name)"
proof -
  obtain f where
    req: "do_request ext w c = rbind (read_credentials c) (\<lambda>(name, password).
       rbind (login_user ext w (c\<lparr>m_real_file := f\<rparr>) u name password) (\<lambda>(w2, c2, done2).
       (case done2 of
          Some ret \<Rightarrow> Inr (w2, c2, ret)
        | None \<Rightarrow> last_part ext w2 c2 u (int (length (doc_root c))))))"
    by (rule route_account [OF assms(1,2) _ assms(3,4), of ext w]) auto
  have nm: "c_string name = name"
    by (rule c_string_id) (use assms(6) in \<open>simp add: plain_field_def no_nul_def\<close>)
  obtain v where v: "setSession (api ext) (manager w) (redis w) (token_of (random_hex ext)) name (g_session_ttl ext) = (manager w, v, True)"
      "sess v = (sess (redis w))(session_key (token_of (random_hex ext)) \<mapsto> c_string name)"
    by (rule setSession_ok [OF assms(10-13)])
  have "create_session (api ext) (manager w) (redis w) (g_session_ttl ext) (random_hex ext) name
      = (manager w, v, token_of (random_hex ext))"
    by (simp add: create_session_def Let_def v(1))
  then have "\<exists>c'. do_request ext w c = Inr (w\<lparr>redis := v\<rparr>, c', REDIRECT_REQUEST)"
    using assms(8,9,14) by (simp add: req read_credentials_form [OF assms(5-7)] login_user_def redirect_def)
  with v(2) nm show ?thesis by metis
qed

text \<open>
  C18. Registration, then login: a user that is not registered yet, with a password, both short
  enough, is registered when the database accepts the insertion, and a login with the same
  data then opens a session of that user.
\<close>

theorem register_then_login:
  assumes ext: "redis_spec (api ext) sess" "isConnected (manager w)" "0 < g_session_ttl ext" "g_session_ttl ext \<le> INT_MAX"
    and reg: "url_of c = Inr (u, url)" "account_url (CHR ''3'') url" "cgi c = 1" "fresh_path c"
      "form_request c name password" "u + 19 < READ_BUFFER_SIZE" "mysql c = Some con"
    and log: "url_of d = Inr (v, url')" "account_url (CHR ''2'') url'" "cgi d = 1" "fresh_path d"
      "form_request d name password"
    and data: "plain_field name" "NUL \<notin> set password" "length name < 100" "length password < 100"
      "length name + length password \<le> 150"
    and new: "users w name = None" "snd (mysql_query ext con (insert_text name password) (database w)) = 0"
  shows "\<exists>w1 f b w2 d'. do_request ext w c =
      Inr (w1, file_result ext (doc_root c @ ''/log.html'') True (c\<lparr>m_read_buf := b, m_real_file := f\<rparr>))
    \<and> users w1 = (users w)(name \<mapsto> password)
    \<and> do_request ext w1 d = Inr (w2, d', REDIRECT_REQUEST)
    \<and> sess (redis w2) (session_key (token_of (random_hex ext))) = Some name"
proof -
  obtain e where q: "mysql_query ext con (insert_text name password) (database w) = (e, 0)"
    using new(2) by (cases "mysql_query ext con (insert_text name password) (database w)") simp
  let ?w1 = "w\<lparr>database := e, users := (users w)(name \<mapsto> password)\<rparr>"
  obtain f b where "do_request ext w c =
      Inr (?w1, file_result ext (doc_root c @ ''/log.html'') True (c\<lparr>m_read_buf := b, m_real_file := f\<rparr>))"
    using do_register [OF reg(1-5) data(1,2) reg(6,7) new(1), of ext] q data(3-5) by auto
  moreover obtain x d' where "do_request ext ?w1 d = Inr (?w1\<lparr>redis := x\<rparr>, d', REDIRECT_REQUEST)"
      "sess x = (sess (redis ?w1))(session_key (token_of (random_hex ext)) \<mapsto> name)"
    using do_login [OF log data(1-4) ext(1) _ ext(3,4), of ?w1] ext(2) by auto
  ultimately show ?thesis
    by (intro exI [of _ ?w1] exI [of _ f] exI [of _ b] exI [of _ "?w1\<lparr>redis := x\<rparr>"] exI [of _ d']) simp
qed

text \<open>
  C30. Exactly the registrations whose user and password are both below 100 bytes and together at
  most 150 stay inside the arrays of the function; a longer one writes past one of them.
\<close>

theorem registration_overflow_boundary:
  assumes "url_of c = Inr (u, url)" and "account_url (CHR ''3'') url" and "cgi c = 1" and "fresh_path c"
    and "form_request c name password" and "plain_field name" and "NUL \<notin> set password"
    and "u + 19 < READ_BUFFER_SIZE" and "mysql c = Some con" and "users w name = None"
  shows "(do_request ext w c = Inl Out_Of_Bounds) =
    (100 \<le> length name \<or> 100 \<le> length password \<or> 150 < length name + length password)"
  using do_register [OF assms, of ext]
  by (cases "mysql_query ext con (insert_text name password) (database w)") (auto split: if_splits)

section \<open>The diagnosis needs no login\<close>

lemma generate_all_ok:
  assumes "\<And>xs. \<exists>r. generate m g xs = Inr r \<and> length r = 192"
  shows "\<exists>rs. generate_all m g is = Inr rs \<and> (\<forall>r \<in> set rs. length r = 192)"
proof (induction "is")
  case (Cons i "is")
  obtain r where "generate m g (noise_vector m i) = Inr r" "length r = 192" using assms by blast
  with Cons show ?case by auto
qed simp

lemma render_ok: "\<forall>r \<in> set rs. length r = 192 \<Longrightarrow> is_ok (render_results m rs)"
  by (induction rs) (auto simp: is_ok_iff)

text \<open>
  Data generated by the default model go out to a POST of \<open>/diagnose\<close> whatever its cookie
  is, without a look at the sessions, although the comment above the login check names
  \<open>/diagnose\<close> as guarded.
\<close>

theorem post_diagnose_unguarded:
  assumes "url_of c = Inr (u, diagnose_url)" and "cgi c = 1" and "m_string c = Some p"
    and "c_str READ_BUFFER_SIZE (m_read_buf c) p = Inr text"
    and "parse_json ext text = Inr \<lparr>csv_data = None, num_samples = Inr n\<rparr>"
    and "generator_loaded (models ext) 0"
    and "\<And>xs. \<exists>r. generate (models ext) 0 xs = Inr r \<and> length r = 192"
  shows "\<exists>csv. \<forall>cookie. do_request ext w (c\<lparr>m_cookie := cookie\<rparr>) =
    Inr (w, c\<lparr>m_cookie := cookie, m_response_csv := csv\<rparr>, DIAGNOSE_CSV_REQUEST)"
proof -
  obtain rs where rs: "generate_all (models ext) 0 [0..<sample_count n] = Inr rs" "\<forall>r \<in> set rs. length r = 192"
    using generate_all_ok [OF assms(7)] by blast
  obtain csv where "render_results (models ext) rs = Inr csv" using render_ok [OF rs(2)] by (auto simp: is_ok_iff)
  with rs(1) have d: "diagnose (models ext) (parse_json ext text) = Inr (Diag_Csv csv)"
    by (simp add: diagnose_def assms(5,6) generate_csv_def)
  have "do_request ext w (c\<lparr>m_cookie := cookie\<rparr>) =
      Inr (w, c\<lparr>m_cookie := cookie, m_response_csv := csv\<rparr>, DIAGNOSE_CSV_REQUEST)" for cookie
    by (simp add: do_request_def assms(1,2) check_login_def run_diagnose_def assms(3,4) d)
  then show ?thesis by blast
qed

section \<open>Logout\<close>

text \<open>
  C20. A request, GET or POST, for a page whose last segment begins with \<open>4\<close> ends the session its
  cookie names: the same cookie opens no guarded page afterwards.
\<close>

theorem logout_ends_session:
  assumes "redis_spec (api ext) sess" and "isConnected (manager w)" and "url_of c = Inr (u, url)"
    and "CHR ''/'' \<in> set url" and "after_slash url = CHR ''4''" and "fresh_path c"
  shows "\<exists>w1 c'. do_request ext w c = Inr (w1, c', REDIRECT_REQUEST)
    \<and> isConnected (manager w1) \<and> session_user sess w1 (m_cookie c) = None"
proof -
  let ?c1 = "c\<lparr>m_real_file := put blank 0 (doc_root c @ [NUL])\<rparr>"
  have u1: "url_of ?c1 = Inr (u, url)" by (simp add: assms(3))
  from url_last_slash [OF u1 assms(4)] obtain k where
    k: "strrchr READ_BUFFER_SIZE (m_read_buf ?c1) u (CHR ''/'') = Inr (Some (u + int k))"
      "m_read_buf ?c1 (u + int k + 1) = after_slash url" by blast
  have "route ext w c = Inr (logout ext w ?c1)"
    unfolding route_def last_part_def Let_def
    by (simp add: fresh_path_strcpy [OF assms(6)] u1 k [simplified] assms(3,5))
  moreover have "url \<noteq> root_url" "url \<noteq> diagnose_url"
    using assms(5) by (auto simp: after_slash_def root_url_def diagnose_url_def)
  ultimately have req: "do_request ext w c = Inr (logout ext w ?c1)"
    by (simp add: do_request_def assms(3) check_login_def)
  show ?thesis
  proof (cases "cookie_token (m_cookie c)")
    case None
    then show ?thesis
      using req assms(2) by (simp add: logout_def Let_def redirect_def session_user_def)
  next
    case (Some t)
    obtain v where v: "delSession (api ext) (manager w) (redis w) t = (manager w, v, sess (redis w) (session_key t) \<noteq> None)"
        "sess v = (sess (redis w))(session_key t := None)"
      by (rule delSession_ok [OF assms(1,2)])
    have "logout ext w ?c1 = (w\<lparr>redis := v\<rparr>, redirect ?c1 [''Set-Cookie: session_id=; Path=/; Max-Age=0'' @ crlf, ''Location: /log.html'' @ crlf])"
      by (simp add: logout_def Let_def Some remove_session_def v(1) split: prod.split)
    then have "\<exists>c'. do_request ext w c = Inr (w\<lparr>redis := v\<rparr>, c', REDIRECT_REQUEST)"
      by (simp add: req redirect_def)
    moreover have "session_user sess (w\<lparr>redis := v\<rparr>) (m_cookie c) = None" by (simp add: session_user_def Some v(2))
    ultimately show ?thesis
      using assms(2) by (elim exE) (rule exI [of _ "w\<lparr>redis := v\<rparr>"], auto)
  qed
qed

section \<open>Concrete requests\<close>

lemma demo_form:
  "length (form_body name password) < 1000 \<Longrightarrow> form_request (demo_conn post url (form_body name password)) name password"
  using get_put_prefix [of _ 100 "form_body name password" "[NUL]"]
  by (auto simp: form_request_def demo_conn_def READ_BUFFER_SIZE_def put_def nth_append)

theorem register_then_login_witness:
  "\<exists>w1 c' w2 d'. do_request demo_ext demo_world (demo_conn 1 ''/3'' (form_body ''eve'' ''pw'')) = Inr (w1, c', FILE_REQUEST)
    \<and> do_request demo_ext w1 (demo_conn 1 ''/2'' (form_body ''eve'' ''pw'')) = Inr (w2, d', REDIRECT_REQUEST)
    \<and> redis w2 (session_key (token_of (replicate 32 7))) = Some ''eve''"
proof -
  let ?b = "form_body ''eve'' ''pw''"
  have c: "url_of (demo_conn 1 ''/3'' ?b) = Inr (0, ''/3'')" "url_of (demo_conn 1 ''/2'' ?b) = Inr (0, ''/2'')"
    by (rule demo_url; simp)+
  have f: "form_request (demo_conn 1 x ?b) ''eve'' ''pw''" for x by (rule demo_form) (simp add: form_body_def)
  have a: "account_url (CHR ''3'') ''/3''" "account_url (CHR ''2'') ''/2''" by (simp_all add: account_url_def)
  note rl = register_then_login [OF demo_ext_spec _ _ c(1) a(1) demo_fields(1) demo_fresh f _ demo_fields(2)
      c(2) a(2) demo_fields(1) demo_fresh f]
  have ttl: "0 < g_session_ttl demo_ext" "g_session_ttl demo_ext \<le> INT_MAX" by (simp_all add: demo_ext_def INT_MAX_def)
  have u: "0 + 19 < READ_BUFFER_SIZE" by (simp add: READ_BUFFER_SIZE_def)
  have n: "users demo_world ''eve'' = None" "snd (mysql_query demo_ext 1 (insert_text ''eve'' ''pw'') (database demo_world)) = 0"
    by (simp_all add: demo_world_def demo_ext_def)
  obtain w1 fr b w2 d' where "do_request demo_ext demo_world (demo_conn 1 ''/3'' ?b) =
      Inr (w1, file_result demo_ext (''/srv'' @ ''/log.html'') True ((demo_conn 1 ''/3'' ?b)\<lparr>m_read_buf := b, m_real_file := fr\<rparr>))"
    "do_request demo_ext w1 (demo_conn 1 ''/2'' ?b) = Inr (w2, d', REDIRECT_REQUEST)"
    "id (redis w2) (session_key (token_of (random_hex demo_ext))) = Some ''eve''"
    using rl [OF ttl u _ _ _ _ _ n] by (auto simp: plain_field_def)
  then show ?thesis by (auto simp: file_result_def demo_ext_def)
qed

theorem registration_overflow_boundary_witness:
  "do_request demo_ext demo_world (demo_conn 1 ''/3'' (form_body (replicate 80 (CHR ''a'')) (replicate 80 (CHR ''b''))))
    = Inl Out_Of_Bounds"
proof -
  let ?n = "replicate 80 (CHR ''a'')" and ?p = "replicate 80 (CHR ''b'')"
  have c: "url_of (demo_conn 1 ''/3'' (form_body ?n ?p)) = Inr (0, ''/3'')" by (rule demo_url) simp_all
  have a: "account_url (CHR ''3'') ''/3''" by (simp add: account_url_def)
  have f: "form_request (demo_conn 1 ''/3'' (form_body ?n ?p)) ?n ?p" by (rule demo_form) (simp add: form_body_def)
  have u: "0 + 19 < READ_BUFFER_SIZE" by (simp add: READ_BUFFER_SIZE_def)
  have n: "users demo_world ?n = None" by (simp add: demo_world_def)
  have p: "plain_field ?n" "NUL \<notin> set ?p" by (simp_all add: plain_field_def)
  from registration_overflow_boundary [OF c a demo_fields(1) demo_fresh f p u demo_fields(2) n, of demo_ext]
  show ?thesis by simp
qed

theorem post_diagnose_unguarded_witness:
  "\<exists>csv. do_request demo_ext demo_world (demo_conn 1 diagnose_url []) =
    Inr (demo_world, (demo_conn 1 diagnose_url [])\<lparr>m_response_csv := csv\<rparr>, DIAGNOSE_CSV_REQUEST)"
proof -
  let ?c = "demo_conn 1 diagnose_url []"
  have u: "url_of ?c = Inr (0, diagnose_url)" by (rule demo_url) (simp_all add: diagnose_url_def)
  have t: "c_str READ_BUFFER_SIZE (m_read_buf ?c) 100 = Inr []"
    by (simp add: demo_conn_def c_str.simps put_def READ_BUFFER_SIZE_def)
  have g: "parse_json demo_ext [] = Inr \<lparr>csv_data = None, num_samples = Inr 1\<rparr>" "generator_loaded (models demo_ext) 0"
    "\<And>xs. \<exists>r. generate (models demo_ext) 0 xs = Inr r \<and> length r = 192"
    by (simp_all add: demo_ext_def decimal_ml_def)
  obtain csv where d: "do_request demo_ext demo_world (?c\<lparr>m_cookie := []\<rparr>) =
    Inr (demo_world, ?c\<lparr>m_cookie := [], m_response_csv := csv\<rparr>, DIAGNOSE_CSV_REQUEST)"
    using post_diagnose_unguarded [OF u demo_fields(1,3) t g, of demo_world] by blast
  have "?c\<lparr>m_cookie := []\<rparr> = ?c" by (simp add: demo_conn_def zero_conn_def)
  with d show ?thesis by metis
qed

theorem logout_ends_session_witness:
  "\<exists>w1 c'. do_request demo_ext demo_world (demo_conn 1 ''/4'' []\<lparr>m_cookie := ''session_id=ab''\<rparr>) = Inr (w1, c', REDIRECT_REQUEST)
    \<and> session_user id w1 ''session_id=ab'' = None"
proof -
  let ?c = "demo_conn 1 ''/4'' []\<lparr>m_cookie := ''session_id=ab''\<rparr>"
  have u: "url_of ?c = Inr (0, ''/4'')" by (simp add: demo_url)
  have f: "fresh_path ?c" using demo_fresh [of 1 "''/4''" "[]"] by (simp add: fresh_path_def)
  from logout_ends_session [OF demo_ext_spec u _ _ f] show ?thesis
    by (auto simp: after_slash_def)
qed

end
