(* ===== verification/Http_Write.thy ===== *)
theory Http_Write
  imports Http_Response
begin

text \<open>
  \<open>http_conn::write\<close> and \<open>unmap\<close>: sending the response with \<open>writev\<close>, in as many calls as the
  socket's buffer makes necessary.

  What \<open>writev\<close> does is given by a script of results, one per call: a number of bytes the
  socket would take (it takes at most what \<open>m_iv\<close> denotes), or an error, which is \<open>EAGAIN\<close> or
  not. At the end of the script the socket takes no more (\<open>EAGAIN\<close>). A call of the model
  returns what the C++ call returns and, besides, the bytes that went out. An \<open>iovec\<close> that
  does not denote an object is undefined behaviour here (the kernel would answer \<open>EFAULT\<close> or
  send whatever lies at that address).
\<close>

datatype writev_result = Sent nat | Send_Error bool

definition unmap :: "http_conn \<Rightarrow> http_conn res" where
  "unmap c = (case m_file_address c of
     FA_Unset \<Rightarrow> Inl Uninitialised
   | FA_Null \<Rightarrow> Inr c
   | _ \<Rightarrow> Inr (c\<lparr>m_file_address := FA_Null\<rparr>))"

definition after_send :: "http_conn \<Rightarrow> int \<Rightarrow> http_conn" where
  "after_send c temp =
     (let c1 = c\<lparr>bytes_have_send := bytes_have_send c + temp, bytes_to_send := bytes_to_send c - temp\<rparr>
      in if bytes_have_send c1 \<ge> iov_len (m_iv0 c1)
         then c1\<lparr>m_iv0 := (m_iv0 c1)\<lparr>iov_len := 0\<rparr>,
                m_iv1 := \<lparr>iov_base = File_Addr (bytes_have_send c1 - m_write_idx c1),
                           iov_len = bytes_to_send c1\<rparr>\<rparr>
         else c1\<lparr>m_iv0 := \<lparr>iov_base = Write_Buf (bytes_have_send c1),
                            iov_len = iov_len (m_iv0 c1) - bytes_have_send c1\<rparr>\<rparr>)"

fun write_loop :: "os \<Rightarrow> http_conn \<Rightarrow> writev_result list \<Rightarrow> (os \<times> http_conn \<times> string \<times> bool) res" where
  "write_loop k c [] = Inr (modfd k (m_sockfd c) EPOLLOUT (m_TRIGMode c), c, [], True)"
| "write_loop k c (Send_Error again # rs) =
     (if again then Inr (modfd k (m_sockfd c) EPOLLOUT (m_TRIGMode c), c, [], True)
      else rbind (unmap c) (\<lambda>c1. Inr (k, c1, [], False)))"
| "write_loop k c (Sent n # rs) =
     rbind (outgoing c) (\<lambda>s.
     let sent = take n s; c1 = after_send c (int (length sent)) in
     if bytes_to_send c1 \<le> 0 then
       rbind (unmap c1) (\<lambda>c2.
       let k1 = modfd k (m_sockfd c2) EPOLLIN (m_TRIGMode c2) in
       if m_linger c2 then Inr (k1, init c2, sent, True) else Inr (k1, c2, sent, False))
     else rbind (write_loop k c1 rs) (\<lambda>(k', c', out, r). Inr (k', c', sent @ out, r)))"

definition write_conn :: "os \<Rightarrow> http_conn \<Rightarrow> writev_result list \<Rightarrow> (os \<times> http_conn \<times> string \<times> bool) res" where
  "write_conn k c rs =
     (if bytes_to_send c = 0 then Inr (modfd k (m_sockfd c) EPOLLIN (m_TRIGMode c), init c, [], True)
      else write_loop k c rs)"

section \<open>The reference: a position in the message\<close>

datatype progress = Done | Again | Failed

text \<open>How far a script of results carries a message of \<open>len\<close> bytes from position \<open>w\<close>.\<close>

fun deliver :: "nat \<Rightarrow> nat \<Rightarrow> writev_result list \<Rightarrow> nat \<times> progress" where
  "deliver len w [] = (w, Again)"
| "deliver len w (Send_Error again # rs) = (w, if again then Again else Failed)"
| "deliver len w (Sent n # rs) =
     (if len \<le> w + n then (len, Done) else deliver len (w + n) rs)"

text \<open>
  No second \<open>writev\<close> in a row may end inside the \<open>h\<close> bytes of the head: once a part of the
  head is out, the next one must finish it.
\<close>

fun header_ok :: "nat \<Rightarrow> nat \<Rightarrow> writev_result list \<Rightarrow> bool" where
  "header_ok h w [] = True"
| "header_ok h w (Send_Error again # rs) = True"
| "header_ok h w (Sent n # rs) = ((0 < w \<and> w < h \<longrightarrow> h \<le> w + n) \<and> header_ok h (w + n) rs)"

text \<open>\<open>sending c h body w\<close>: the first \<open>w\<close> bytes of \<open>h @ body\<close> are out, the rest is still to go.\<close>

definition sending :: "http_conn \<Rightarrow> string \<Rightarrow> string \<Rightarrow> nat \<Rightarrow> bool" where
  "sending c h body w \<longleftrightarrow>
     wrote c h \<and> int (length h) < WRITE_BUFFER_SIZE \<and> w < length (h @ body)
   \<and> bytes_have_send c = int w \<and> bytes_to_send c = int (length (h @ body)) - int w
   \<and> (if w < length h then m_iv0 c = \<lparr>iov_base = Write_Buf (int w), iov_len = int (length h) - int w\<rparr>
      else iov_len (m_iv0 c) = 0)
   \<and> (m_iv_count c = 1 \<and> body = [] \<and> m_file_address c \<noteq> FA_Unset
      \<or> m_iv_count c = 2 \<and> m_file_address c = FA_Mapped body
        \<and> m_iv1 c = (if w < length h then \<lparr>iov_base = File_Addr 0, iov_len = int (length body)\<rparr>
            else \<lparr>iov_base = File_Addr (int w - int (length h)), iov_len = int (length (h @ body)) - int w\<rparr>))"

lemma get_drop: "get a (int w) (n - w) = drop w (get a 0 n)" if "w \<le> n"
  using that by (intro nth_equalityI) (simp_all add: of_nat_diff)

lemma sending_outgoing:
  assumes "sending c h body w"
  shows "outgoing c = Inr (drop w (h @ body))"
proof -
  have 0: "iov_bytes c (m_iv0 c) = Inr (drop w h)"
  proof (cases "w < length h")
    case True
    then have "get (m_write_buf c) (int w) (nat (int (length h) - int w)) = drop w h"
      using assms get_drop [of w "length h" "m_write_buf c"] by (simp add: sending_def wrote_def nat_diff_distrib)
    with True assms show ?thesis by (simp add: sending_def iov_bytes_def)
  qed (use assms in \<open>simp add: sending_def iov_bytes_def\<close>)
  have 1: "iov_bytes c (m_iv1 c) = Inr (drop (w - length h) body)" if "m_iv_count c \<noteq> 1"
    using assms that by (auto simp: sending_def iov_bytes_def slice_def nat_diff_distrib split: if_splits)
  show ?thesis using 0 1 assms by (auto simp: outgoing_def sending_def)
qed

lemma sending_step:
  assumes "sending c h body w" and "w + n < length (h @ body)" and "0 < w \<and> w < length h \<longrightarrow> length h \<le> w + n"
  shows "sending (after_send c (int n)) h body (w + n)"
proof -
  have old: "wrote c h" "int (length h) < WRITE_BUFFER_SIZE" "bytes_have_send c = int w"
    "bytes_to_send c = int (length (h @ body)) - int w"
    "w < length h \<Longrightarrow> m_iv0 c = \<lparr>iov_base = Write_Buf (int w), iov_len = int (length h) - int w\<rparr>"
    "\<not> w < length h \<Longrightarrow> iov_len (m_iv0 c) = 0"
    and two: "m_iv_count c = 1 \<and> body = [] \<and> m_file_address c \<noteq> FA_Unset
      \<or> m_iv_count c = 2 \<and> m_file_address c = FA_Mapped body
        \<and> m_iv1 c = (if w < length h then \<lparr>iov_base = File_Addr 0, iov_len = int (length body)\<rparr>
            else \<lparr>iov_base = File_Addr (int w - int (length h)), iov_len = int (length (h @ body)) - int w\<rparr>)"
    using assms(1) by (simp_all add: sending_def)
  have wi: "m_write_idx c = int (length h)" using old(1) by (simp add: wrote_def)
  show ?thesis
  proof (cases "length h \<le> w + n")
    case True
    then have "iov_len (m_iv0 c) \<le> int (w + n)" using old(5,6) by (cases "w < length h") simp_all
    then have "after_send c (int n) = c\<lparr>bytes_have_send := int (w + n),
        bytes_to_send := int (length (h @ body)) - int (w + n),
        m_iv0 := (m_iv0 c)\<lparr>iov_len := 0\<rparr>,
        m_iv1 := \<lparr>iov_base = File_Addr (int (w + n) - int (length h)), iov_len = int (length (h @ body)) - int (w + n)\<rparr>\<rparr>"
      using old(3,4) wi by (simp add: after_send_def Let_def diff_diff_eq)
    with True old two assms(2) show ?thesis by (auto simp: sending_def wrote_def)
  next
    case False
    with assms(3) have w: "w = 0" and n: "n < length h" by auto
    have "m_iv0 c = \<lparr>iov_base = Write_Buf 0, iov_len = int (length h)\<rparr>"
      using old(5) w n by (cases "length h") simp_all
    with w n have "after_send c (int n) = c\<lparr>bytes_have_send := int n,
        bytes_to_send := int (length (h @ body)) - int n,
        m_iv0 := \<lparr>iov_base = Write_Buf (int n), iov_len = int (length h) - int n\<rparr>\<rparr>"
      using old(3,4) by (simp add: after_send_def Let_def)
    with w n old two assms(2) show ?thesis by (auto simp: sending_def wrote_def)
  qed
qed


lemma after_send_done:
  "bytes_to_send (after_send c n) = bytes_to_send c - n"
  "m_file_address (after_send c n) = m_file_address c"
  "m_sockfd (after_send c n) = m_sockfd c"
  "m_TRIGMode (after_send c n) = m_TRIGMode c"
  "m_linger (after_send c n) = m_linger c"
  by (simp_all add: after_send_def Let_def)

lemma unmap_ok:
  "m_file_address c \<noteq> FA_Unset \<Longrightarrow> unmap c = Inr (c\<lparr>m_file_address := FA_Null\<rparr>)"
  by (cases "m_file_address c") (simp_all add: unmap_def)

text \<open>What a call leaves behind when the message is complete, blocked or lost.\<close>

definition wrote_out ::
    "os \<Rightarrow> http_conn \<Rightarrow> string \<Rightarrow> string \<Rightarrow> nat \<times> progress \<Rightarrow> os \<times> http_conn \<times> bool \<Rightarrow> bool" where
  "wrote_out k c h body p r = (case p of (w, st) \<Rightarrow> case r of (k', c', ret) \<Rightarrow>
     (case st of
        Done \<Rightarrow> k' = modfd k (m_sockfd c) EPOLLIN (m_TRIGMode c) \<and> ret = m_linger c
                \<and> m_file_address c' = FA_Null \<and> (ret \<longrightarrow> bytes_to_send c' = 0 \<and> read_inv c' \<and> mysql c' = None)
      | Again \<Rightarrow> k' = modfd k (m_sockfd c) EPOLLOUT (m_TRIGMode c) \<and> ret \<and> sending c' h body w
      | Failed \<Rightarrow> k' = k \<and> \<not> ret \<and> m_file_address c' = FA_Null))"

lemma deliver_ge: "w \<le> len \<Longrightarrow> w \<le> fst (deliver len w rs)"
proof (induction len w rs rule: deliver.induct)
  case (3 len w n rs)
  then show ?case by (cases "len \<le> w + n") auto
qed auto

lemma wrote_out_cong:
  "m_sockfd c = m_sockfd d \<Longrightarrow> m_TRIGMode c = m_TRIGMode d \<Longrightarrow> m_linger c = m_linger d \<Longrightarrow>
   wrote_out k c h body p r = wrote_out k d h body p r"
  by (cases p; cases r; cases "snd p") (simp_all add: wrote_out_def)

lemma sending_mapped: "sending c h body w \<Longrightarrow> m_file_address c \<noteq> FA_Unset"
  by (auto simp: sending_def)

lemma write_loop_delivers:
  assumes "sending c h body w" and "header_ok (length h) w rs"
  shows "\<exists>k' c' ret. write_loop k c rs =
      Inr (k', c', drop w (take (fst (deliver (length (h @ body)) w rs)) (h @ body)), ret)
    \<and> wrote_out k c h body (deliver (length (h @ body)) w rs) (k', c', ret)"
  using assms
proof (induction rs arbitrary: c w)
  case Nil
  then show ?case by (intro exI [of _ True] exI [of _ c] exI) (simp add: wrote_out_def)
next
  case (Cons r rs)
  define msg where "msg = h @ body"
  note out = sending_outgoing [OF Cons.prems(1), folded msg_def] and addr = sending_mapped [OF Cons.prems(1)]
  have to_send: "bytes_to_send c = int (length msg) - int w" and w: "w < length msg"
    using Cons.prems(1) by (simp_all add: sending_def msg_def)
  have "\<exists>k' c' ret. write_loop k c (r # rs) =
      Inr (k', c', drop w (take (fst (deliver (length msg) w (r # rs))) msg), ret)
    \<and> wrote_out k c h body (deliver (length msg) w (r # rs)) (k', c', ret)"
  proof (cases r)
    case (Send_Error again)
    with Cons.prems show ?thesis by (cases again) (simp_all add: wrote_out_def unmap_ok addr ex_bool_eq)
  next
    case (Sent n)
    let ?sent = "take n (drop w msg)"
    have len: "length ?sent = min n (length msg - w)" by (simp add: min.commute)
    show ?thesis
    proof (cases "length msg \<le> w + n")
      case True
      then have all: "?sent = drop w msg" and n: "int (length ?sent) = int (length msg) - int w"
        using w by (simp_all add: of_nat_diff)
      let ?c1 = "after_send c (int (length ?sent))"
      have zero: "bytes_to_send ?c1 = 0" using to_send n by (simp add: after_send_done)
      have "write_loop k c (r # rs) =
        (let c2 = ?c1\<lparr>m_file_address := FA_Null\<rparr>; k1 = modfd k (m_sockfd c) EPOLLIN (m_TRIGMode c) in
         if m_linger c then Inr (k1, init c2, drop w msg, True) else Inr (k1, c2, drop w msg, False))"
        using out addr zero all
        by (simp add: Sent Let_def unmap_ok after_send_done)
      moreover have "deliver (length msg) w (r # rs) = (length msg, Done)" using True by (simp add: Sent)
      ultimately show ?thesis by (cases "m_linger c") (simp_all add: wrote_out_def init_frames init_def read_inv_def READ_BUFFER_SIZE_def Let_def ex_bool_eq)
    next
      case False
      then have n: "length ?sent = n" using w unfolding len by (intro min_absorb1) linarith
      have step: "sending (after_send c (int n)) h body (w + n)"
        using Cons.prems False by (intro sending_step) (simp_all add: Sent msg_def)
      from Cons.IH [OF step, folded msg_def] Cons.prems(2) obtain k' c' ret where
        IH: "write_loop k (after_send c (int n)) rs =
          Inr (k', c', drop (w + n) (take (fst (deliver (length msg) (w + n) rs)) msg), ret)"
        "wrote_out k (after_send c (int n)) h body (deliver (length msg) (w + n) rs) (k', c', ret)"
        by (auto simp: Sent)
      let ?w' = "fst (deliver (length msg) (w + n) rs)"
      have w': "w + n \<le> ?w'" using False by (intro deliver_ge) simp
      have "?sent @ drop (w + n) (take ?w' msg) = drop w (take ?w' msg)"
      proof -
        have "take n (drop w (take ?w' msg)) = ?sent"
          using w' by (simp add: take_drop min_def)
        then show ?thesis
          using append_take_drop_id [of n "drop w (take ?w' msg)"] by (simp add: add.commute)
      qed
      moreover have "0 < bytes_to_send (after_send c (int n))"
        using False to_send by (simp add: after_send_done)
      ultimately have "write_loop k c (r # rs) = Inr (k', c', drop w (take ?w' msg), ret)"
        using out n IH(1) by (simp add: Sent Let_def)
      moreover have "wrote_out k c h body (deliver (length msg) w (r # rs)) (k', c', ret)"
        using IH(2) False wrote_out_cong [of c "after_send c (int n)"] by (simp add: Sent after_send_done)
      moreover have "fst (deliver (length msg) w (r # rs)) = ?w'" using False by (simp add: Sent)
      ultimately show ?thesis by metis
    qed
  qed
  then show ?case by (simp only: msg_def)
qed

lemma sending_to_send: "sending c h body w \<Longrightarrow> bytes_to_send c \<noteq> 0"
  by (auto simp: sending_def)

definition short_conn :: http_conn where
  "short_conn = zero_conn\<lparr>m_write_buf := put blank 0 ''abcde'', m_write_idx := 5,
     bytes_have_send := 2, bytes_to_send := 3,
     m_iv0 := \<lparr>iov_base = Write_Buf 2, iov_len = 3\<rparr>, m_iv_count := 1\<rparr>"

lemma short_conn_sending: "sending short_conn ''abcde'' [] 2"
  by (simp add: sending_def short_conn_def zero_conn_def wrote_def WBS get_def put_def upt_rec)

section \<open>The claims\<close>


lemma sending_two:
  assumes "wrote c h" and "int (length h) < WRITE_BUFFER_SIZE" and "body \<noteq> []"
    and "int (length body) + WRITE_BUFFER_SIZE \<le> INT_MAX"
    and "m_file_address c = FA_Mapped body" and "bytes_have_send c = 0" and "h \<noteq> []"
  shows "sending (fst (send_two c (File_Addr 0) (int (length body)))) h body 0"
  using assms outgoing_send_two(2) [OF assms(1,2,4), of "File_Addr 0"]
  by (simp add: sending_def send_two_def wrote_def)

lemma sending_file:
  assumes "wrote c []" and "m_file_address c = FA_Mapped s" and "st_size (m_file_stat c) = int (length s)"
    and "s \<noteq> []" and "int (length s) + WRITE_BUFFER_SIZE \<le> INT_MAX" and "bytes_have_send c = 0"
  shows "sending (fst (process_write c FILE_REQUEST)) (plain_head 200 ''OK'' (int (length s)) (m_linger c)) s 0"
proof -
  let ?h = "plain_head 200 ''OK'' (int (length s)) (m_linger c)"
  let ?c2 = "fst (add_headers (fst (add_status_line c 200 ''OK'')) (int (length s)))"
  have range: "INT_MIN \<le> int (length s)" "int (length s) \<le> INT_MAX"
    using assms(5) by (simp_all add: WBS INT_MIN_def INT_MAX_def)
  have h: "wrote ?c2 ?h" "length ?h \<le> 200"
    using wrote_plain_head [OF assms(1), of "''OK''" 200 "int (length s)"] range
    by (simp_all add: INT_MIN_def INT_MAX_def)
  have "?h \<noteq> []" by (simp add: plain_head_def message_defs)
  then have "sending (fst (send_two ?c2 (File_Addr 0) (int (length s)))) ?h s 0"
    using h assms(2,4-6) by (intro sending_two) (simp_all add: WBS add_status_line_def)
  then show ?thesis
    using assms(3,4) by (simp add: process_write_def to_int32_id range)
qed


text \<open>A file goes out behind its head, byte for byte.\<close>

theorem file_is_delivered:
  assumes "wrote c []" and "bytes_have_send c = 0"
    and "m_file_address c = FA_Mapped s" and "st_size (m_file_stat c) = int (length s)"
    and "s \<noteq> []" and "int (length s) + WRITE_BUFFER_SIZE \<le> INT_MAX"
    and "header_ok (length (plain_head 200 ''OK'' (int (length s)) (m_linger c))) 0 rs"
  defines "msg \<equiv> plain_head 200 ''OK'' (int (length s)) (m_linger c) @ s"
  shows "\<exists>k' c' ret. write_conn k (fst (process_write c FILE_REQUEST)) rs =
      Inr (k', c', take (fst (deliver (length msg) 0 rs)) msg, ret)"
proof -
  have send: "sending (fst (process_write c FILE_REQUEST)) (plain_head 200 ''OK'' (int (length s)) (m_linger c)) s 0"
    by (rule sending_file) fact+
  then have "bytes_to_send (fst (process_write c FILE_REQUEST)) \<noteq> 0" by (rule sending_to_send)
  then show ?thesis
    using write_loop_delivers [OF send assms(7), of k] by (auto simp: write_conn_def msg_def)
qed

theorem file_is_delivered_witness:
  "\<forall>k. \<exists>k' c' ret. write_conn k (fst (process_write file_conn FILE_REQUEST)) [Sent 1000] =
     Inr (k', c', plain_head 200 ''OK'' 5 False @ ''hello'', ret)"
proof -
  have len: "length (plain_head 200 ''OK'' 5 False) = 55"
    by (simp add: plain_head_def message_defs show_int_def show_nat.simps)
  show ?thesis
    using file_is_delivered [of file_conn "''hello''" "[Sent 1000]"] file_conn_sendable(1) len
    by (simp add: file_conn_def zero_conn_def WBS INT_MAX_def)
qed

section \<open>Two short writes inside the head\<close>

text \<open>
  The vector holds fewer bytes than are still to be sent; when it holds none, sending nothing
  changes nothing.
\<close>

definition stuck :: "http_conn \<Rightarrow> bool" where
  "stuck c \<longleftrightarrow> m_iv_count c = 1 \<and> 0 \<le> bytes_have_send c \<and> 0 \<le> iov_len (m_iv0 c)
     \<and> iov_len (m_iv0 c) < bytes_to_send c \<and> iov_len (m_iv0 c) \<le> WRITE_BUFFER_SIZE
     \<and> (if iov_len (m_iv0 c) = 0
        then m_iv1 c = \<lparr>iov_base = File_Addr (bytes_have_send c - m_write_idx c), iov_len = bytes_to_send c\<rparr>
        else \<exists>b. iov_base (m_iv0 c) = Write_Buf b \<and> 0 \<le> b \<and> b + iov_len (m_iv0 c) \<le> WRITE_BUFFER_SIZE)"

lemma stuck_outgoing:
  assumes "stuck c"
  obtains s where "outgoing c = Inr s" and "int (length s) = iov_len (m_iv0 c)"
proof (cases "iov_len (m_iv0 c) = 0")
  case True
  with assms show ?thesis by (intro that [of "[]"]) (simp_all add: stuck_def outgoing_def iov_bytes_def)
next
  case False
  with assms obtain b where b: "iov_base (m_iv0 c) = Write_Buf b" "0 \<le> b" "b + iov_len (m_iv0 c) \<le> WRITE_BUFFER_SIZE"
    "0 < iov_len (m_iv0 c)" "m_iv_count c = 1" by (auto simp: stuck_def)
  then show ?thesis
    by (intro that [of "get (m_write_buf c) b (nat (iov_len (m_iv0 c)))"]) (simp_all add: outgoing_def iov_bytes_def)
qed

lemma stuck_step:
  assumes "stuck c" and "0 \<le> m" and "m \<le> iov_len (m_iv0 c)"
  shows "stuck (after_send c m)" and "iov_len (m_iv0 (after_send c m)) \<le> max 0 (iov_len (m_iv0 c) - m)"
    and "0 < bytes_to_send (after_send c m)"
  using assms by (auto simp: stuck_def after_send_def Let_def)

lemma stuck_empty:
  assumes "stuck c" and "iov_len (m_iv0 c) = 0"
  shows "outgoing c = Inr []" and "after_send c 0 = c"
  using assms by (auto simp: stuck_def outgoing_def iov_bytes_def after_send_def Let_def)

lemma stuck_loop:
  assumes "stuck c"
  shows "\<exists>c' out. write_loop k c (map Sent ns) = Inr (modfd k (m_sockfd c) EPOLLOUT (m_TRIGMode c), c', out, True)
    \<and> stuck c' \<and> (0 \<notin> set ns \<longrightarrow> iov_len (m_iv0 c') \<le> max 0 (iov_len (m_iv0 c) - int (length ns)))"
  using assms
proof (induction ns arbitrary: c)
  case Nil
  then show ?case by (intro exI [of _ c] exI [of _ "[]"]) simp
next
  case (Cons n ns)
  obtain s where s: "outgoing c = Inr s" "int (length s) = iov_len (m_iv0 c)" by (rule stuck_outgoing [OF Cons.prems])
  define m where "m = int (length (take n s))"
  have m: "0 \<le> m" "m \<le> iov_len (m_iv0 c)" using s(2) by (simp_all add: m_def)
  note st = stuck_step [OF Cons.prems m]
  obtain c' out where c': "write_loop k (after_send c m) (map Sent ns) =
      Inr (modfd k (m_sockfd c) EPOLLOUT (m_TRIGMode c), c', out, True)" "stuck c'"
      "0 \<notin> set ns \<longrightarrow> iov_len (m_iv0 c') \<le> max 0 (iov_len (m_iv0 (after_send c m)) - int (length ns))"
    using Cons.IH [OF st(1)] by (auto simp: after_send_done)
  have "write_loop k c (map Sent (n # ns)) = Inr (modfd k (m_sockfd c) EPOLLOUT (m_TRIGMode c), c', take n s @ out, True)"
    using s(1) st(3) c'(1) by (simp add: Let_def flip: m_def del: length_take)
  moreover have "iov_len (m_iv0 c') \<le> max 0 (iov_len (m_iv0 c) - int (length (n # ns)))" if "0 \<notin> set (n # ns)"
  proof -
    have "1 \<le> m \<or> iov_len (m_iv0 c) = 0" using that s(2) unfolding m_def by (cases s) auto
    with that c'(3) st(2) m(1) show ?thesis by auto
  qed
  ultimately show ?case using c'(2) by blast
qed

lemma short_head_stuck:
  assumes "sending c h [] w" and "m_iv_count c = 1" and "0 < w" and "w + n < length h"
  shows "stuck (after_send c (int n))" and "iov_len (m_iv0 (after_send c (int n))) \<le> int (length h)"
proof -
  have old: "bytes_have_send c = int w" "bytes_to_send c = int (length h) - int w" "int (length h) < WRITE_BUFFER_SIZE"
    "m_iv0 c = \<lparr>iov_base = Write_Buf (int w), iov_len = int (length h) - int w\<rparr>"
    using assms(1,4) by (auto simp: sending_def)
  then show "stuck (after_send c (int n))" "iov_len (m_iv0 (after_send c (int n))) \<le> int (length h)"
    using assms(2-4) by (auto simp: stuck_def after_send_def Let_def)
qed

text \<open>
  C33. When a first call of \<open>writev\<close> has ended inside the head of a response without a file and a
  second one ends there too, the response is never completed, whatever the socket takes from
  then on: the vector holds fewer bytes than are to be sent. After at most as many calls that
  take something as the head has bytes, the vector is empty, and the loop of \<open>write\<close> calls
  \<open>writev\<close> on nothing, without a change, for ever.
\<close>

theorem short_head_writes_spin:
  assumes "sending c h [] w" and "m_iv_count c = 1" and "0 < w" and "w + n < length h"
  shows "\<exists>c' out. write_loop k (after_send c (int n)) (map Sent ns) =
      Inr (modfd k (m_sockfd c) EPOLLOUT (m_TRIGMode c), c', out, True)
    \<and> 0 < bytes_to_send c'
    \<and> (0 \<notin> set ns \<and> length h \<le> length ns \<longrightarrow> outgoing c' = Inr [] \<and> after_send c' 0 = c')"
proof -
  note c1 = short_head_stuck [OF assms]
  obtain c' out where c': "write_loop k (after_send c (int n)) (map Sent ns) =
      Inr (modfd k (m_sockfd c) EPOLLOUT (m_TRIGMode c), c', out, True)" "stuck c'"
      "0 \<notin> set ns \<longrightarrow> iov_len (m_iv0 c') \<le> max 0 (iov_len (m_iv0 (after_send c (int n))) - int (length ns))"
    using stuck_loop [OF c1(1), of k ns] by (auto simp: after_send_done)
  have "0 < bytes_to_send c'" "0 \<le> iov_len (m_iv0 c')" using c'(2) by (auto simp: stuck_def)
  moreover have "iov_len (m_iv0 c') = 0" if "0 \<notin> set ns" "length h \<le> length ns"
    using that c'(3) c1(2) \<open>0 \<le> iov_len (m_iv0 c')\<close> by auto
  ultimately show ?thesis using c'(1) stuck_empty [OF c'(2)] by blast
qed

theorem short_head_writes_spin_witness:
  "\<forall>k. \<exists>c' out. write_loop k (after_send short_conn 1) (map Sent [1, 1, 1, 1, 1]) = Inr (modfd k 0 EPOLLOUT 0, c', out, True)
    \<and> 0 < bytes_to_send c' \<and> outgoing c' = Inr [] \<and> after_send c' 0 = c'"
proof
  fix k
  have c: "m_iv_count short_conn = 1" "m_sockfd short_conn = 0" "m_TRIGMode short_conn = 0"
    by (simp_all add: short_conn_def zero_conn_def)
  from short_head_writes_spin [OF short_conn_sending c(1), of 1 k "[1, 1, 1, 1, 1]"]
  show "\<exists>c' out. write_loop k (after_send short_conn 1) (map Sent [1, 1, 1, 1, 1]) = Inr (modfd k 0 EPOLLOUT 0, c', out, True)
    \<and> 0 < bytes_to_send c' \<and> outgoing c' = Inr [] \<and> after_send c' 0 = c'"
    by (simp only: c) simp
qed

text \<open>
  A CSV answer that does not go out in one piece continues in \<open>m_file_address\<close> instead of
  in the CSV text.
\<close>

theorem csv_continues_in_file:
  assumes "iov_len (m_iv0 c) \<le> bytes_have_send c + n" and "m_iv_count c = 2"
    and "m_file_address c = FA_Null" and "n < bytes_to_send c"
  shows "iov_base (m_iv1 (after_send c n)) = File_Addr (bytes_have_send c + n - m_write_idx c)
    \<and> outgoing (after_send c n) = Inl Null_Deref"
  using assms by (simp add: after_send_def Let_def outgoing_def iov_bytes_def)

definition csv_conn :: http_conn where
  "csv_conn = zero_conn\<lparr>m_response_csv := ''1,2,3'', m_write_idx := 4, bytes_to_send := 9,
     m_iv0 := \<lparr>iov_base = Write_Buf 0, iov_len = 4\<rparr>,
     m_iv1 := \<lparr>iov_base = Csv_Data 0, iov_len = 5\<rparr>, m_iv_count := 2\<rparr>"

theorem csv_continues_in_file_witness: "outgoing (after_send csv_conn 6) = Inl Null_Deref"
  using csv_continues_in_file [of csv_conn 6] by (simp add: csv_conn_def zero_conn_def)

end
