(* ===== verification/Bounded_Fifo.thy ===== *)
theory Bounded_Fifo
  imports Prelude
begin

text \<open>
  What the two queues of the server promise their users: a bounded first-in first-out queue.
  The log's \<open>block_queue\<close> and the thread pool's request queue both provide it (theories
  \<open>Block_Queue\<close> and \<open>Thread_Pool\<close>). A user only relies on the laws of the locale; what
  follows from them for any sequence of operations is proved here once.
\<close>

datatype 'a qop = Put 'a | Take

locale bounded_fifo =
  fixes ok :: "'q \<Rightarrow> bool"
    and items :: "'q \<Rightarrow> 'a list"
    and cap :: "'q \<Rightarrow> nat"
    and put_item :: "'q \<Rightarrow> 'a \<Rightarrow> 'q \<times> bool"
    and take_item :: "'q \<Rightarrow> ('q \<times> 'a) option"
  assumes bound: "ok q \<Longrightarrow> length (items q) \<le> cap q"
    and put_law: "ok q \<Longrightarrow> ok (fst (put_item q x)) \<and> cap (fst (put_item q x)) = cap q
      \<and> snd (put_item q x) = (length (items q) < cap q)
      \<and> items (fst (put_item q x)) = (if length (items q) < cap q then items q @ [x] else items q)"
    and take_none: "ok q \<Longrightarrow> take_item q = None \<longleftrightarrow> items q = []"
    and take_some: "ok q \<Longrightarrow> take_item q = Some (q', x) \<Longrightarrow> ok q' \<and> cap q' = cap q \<and> items q = x # items q'"
begin

text \<open>A run of operations: the final queue, the items accepted and the items taken.\<close>

fun run :: "'q \<Rightarrow> 'a qop list \<Rightarrow> 'q \<times> 'a list \<times> 'a list" where
  "run q [] = (q, [], [])"
| "run q (Put x # ops) =
     (case put_item q x of (q1, b) \<Rightarrow>
      (case run q1 ops of (q2, ins, outs) \<Rightarrow> (q2, (if b then [x] else []) @ ins, outs)))"
| "run q (Take # ops) =
     (case take_item q of
        None \<Rightarrow> run q ops
      | Some (q1, x) \<Rightarrow> (case run q1 ops of (q2, ins, outs) \<Rightarrow> (q2, ins, x # outs)))"

text \<open>Nothing is lost, duplicated or reordered.\<close>

lemma fifo:
  assumes "ok q" and "run q ops = (q', ins, outs)"
  shows "ok q' \<and> cap q' = cap q \<and> items q @ ins = outs @ items q'"
  using assms
proof (induction q ops arbitrary: q' ins outs rule: run.induct)
  case (2 q x ops)
  obtain q1 b where p: "put_item q x = (q1, b)" by (cases "put_item q x")
  obtain q2 i o' where r: "run q1 ops = (q2, i, o')" by (cases "run q1 ops") auto
  have law: "ok q1" "cap q1 = cap q" "b = (length (items q) < cap q)"
    "items q1 = (if length (items q) < cap q then items q @ [x] else items q)"
    using put_law [OF "2.prems"(1), of x] p by simp_all
  from "2.IH" [OF p [symmetric] law(1) r]
  have "ok q2 \<and> cap q2 = cap q1 \<and> items q1 @ i = o' @ items q2" by simp
  with "2.prems"(2) p r law show ?case by (auto split: if_splits)
next
  case (3 q ops)
  show ?case
  proof (cases "take_item q")
    case None
    with "3.IH"(1) [OF None "3.prems"(1)] "3.prems"(2) show ?thesis by simp
  next
    case (Some p)
    obtain q1 x where p: "p = (q1, x)" by (cases p)
    obtain q2 i o' where r: "run q1 ops = (q2, i, o')" by (cases "run q1 ops") auto
    have law: "ok q1" "cap q1 = cap q" "items q = x # items q1"
      using take_some [OF "3.prems"(1), of q1 x] Some p by simp_all
    from "3.IH"(2) [OF Some p [symmetric] law(1) r] have "ok q2 \<and> cap q2 = cap q1 \<and> items q1 @ i = o' @ items q2" by simp
    with "3.prems"(2) Some p r law show ?thesis by auto
  qed
qed auto

lemma never_over_capacity:
  assumes "ok q" and "run q ops = (q', ins, outs)"
  shows "length (items q') \<le> cap q"
  using fifo [OF assms] bound [of q'] by simp

end

end
