(* ===== verification/Locker.thy ===== *)
theory Locker
  imports Prelude
begin

text \<open>
  The synchronisation primitives of \<open>lock/locker.h\<close>: \<open>sem\<close>, \<open>locker\<close> and \<open>cond\<close>.

  A mutex is the thread that holds it. A condition variable is the list of the threads that
  sleep on it. \<open>cond::wait\<close> adopts the caller's lock into a \<open>unique_lock\<close>, sleeps, and lets the
  \<open>unique_lock\<close> go with \<open>release()\<close>, so that its destructor does not unlock; the model has the
  \<open>unique_lock\<close> as a value and runs its destructor. A blocking call is a partial step: \<open>None\<close>
  while it cannot proceed.
\<close>

type_synonym thread = nat
type_synonym mutex = "thread option"

section \<open>Semaphores\<close>

text \<open>\<open>sem\<close>: the guarded decrement, the increment, and the reset of \<open>m_count\<close>.\<close>

definition sem_wait :: "int \<Rightarrow> int option" where
  "sem_wait m_count = (if m_count > 0 then Some (m_count - 1) else None)"

definition sem_post :: "int \<Rightarrow> int" where
  "sem_post m_count = m_count + 1"

definition sem_init :: "int \<Rightarrow> int" where
  "sem_init num = num"

section \<open>Mutexes and condition variables\<close>

definition mutex_lock :: "thread \<Rightarrow> mutex \<Rightarrow> mutex option" where
  "mutex_lock t m = (if m = None then Some (Some t) else None)"

definition mutex_unlock :: "thread \<Rightarrow> mutex \<Rightarrow> mutex" where
  "mutex_unlock t m = (if m = Some t then None else m)"

text \<open>A \<open>unique_lock\<close> owns the mutex or does not; the destructor unlocks what it owns.\<close>

datatype unique_lock = Owns bool

fun destroy_lock :: "thread \<Rightarrow> unique_lock \<Rightarrow> mutex \<Rightarrow> mutex" where
  "destroy_lock t (Owns b) m = (if b then mutex_unlock t m else m)"

definition adopt_lock :: unique_lock where
  "adopt_lock = Owns True"

definition release_lock :: "unique_lock \<Rightarrow> unique_lock" where
  "release_lock l = Owns False"

record monitor =
  owner :: mutex
  sleeping :: "thread list"

text \<open>The first half of a wait gives the mutex up and sleeps.\<close>

definition cond_sleep :: "thread \<Rightarrow> monitor \<Rightarrow> monitor" where
  "cond_sleep t s = s\<lparr>owner := mutex_unlock t (owner s), sleeping := sleeping s @ [t]\<rparr>"

definition cond_signal :: "monitor \<Rightarrow> monitor" where
  "cond_signal s = s\<lparr>sleeping := drop 1 (sleeping s)\<rparr>"

definition cond_broadcast :: "monitor \<Rightarrow> monitor" where
  "cond_broadcast s = s\<lparr>sleeping := []\<rparr>"

text \<open>
  The second half: a thread that no longer sleeps takes the mutex again, and \<open>cond::wait\<close>
  returns through \<open>release()\<close> and the destructor of its \<open>unique_lock\<close>.
\<close>

definition cond_resume :: "thread \<Rightarrow> monitor \<Rightarrow> monitor option" where
  "cond_resume t s =
     (if t \<in> set (sleeping s) then None
      else case mutex_lock t (owner s) of
        None \<Rightarrow> None
      | Some m \<Rightarrow> Some (s\<lparr>owner := destroy_lock t (release_lock adopt_lock) m\<rparr>))"

text \<open>
  \<open>timewait\<close>: the second half may also begin when the clock, here in nanoseconds, has passed the
  point of time that the \<open>timespec\<close> is converted to; the result is whether it had not.
\<close>

definition time_point :: "int \<times> int \<Rightarrow> int" where
  "time_point t = fst t * 1000000000 + snd t"

definition cond_timewait :: "thread \<Rightarrow> int \<times> int \<Rightarrow> int \<Rightarrow> monitor \<Rightarrow> (monitor \<times> bool) option" where
  "cond_timewait i t now s =
     (let no_timeout = (now < time_point t) in
      if i \<in> set (sleeping s) \<and> no_timeout then None
      else case mutex_lock i (owner s) of
        None \<Rightarrow> None
      | Some m \<Rightarrow> Some (s\<lparr>owner := destroy_lock i (release_lock adopt_lock) m,
                        sleeping := removeAll i (sleeping s)\<rparr>, no_timeout))"

text \<open>A \<open>wait\<close> returns with the mutex held by the caller, as \<open>pthread_cond_wait\<close> does.\<close>

theorem cond_wait_keeps_mutex:
  assumes "cond_resume t s = Some s'"
  shows "owner s = None \<and> owner s' = Some t \<and> sleeping s' = sleeping s"
  using assms by (auto simp: cond_resume_def mutex_lock_def release_lock_def split: if_splits option.splits)

theorem cond_wait_keeps_mutex_witness:
  "owner (the (cond_resume 1 (cond_broadcast (cond_sleep 1 \<lparr>owner = Some 1, sleeping = []\<rparr>)))) = Some 1"
  using cond_wait_keeps_mutex [of 1 "cond_broadcast (cond_sleep 1 \<lparr>owner = Some 1, sleeping = []\<rparr>)"]
  by (simp add: cond_resume_def cond_broadcast_def cond_sleep_def mutex_unlock_def mutex_lock_def release_lock_def)

section \<open>Counting threads\<close>

definition cnt :: "('a \<Rightarrow> bool) \<Rightarrow> 'a list \<Rightarrow> int" where
  "cnt P xs = int (length (filter P xs))"

lemma cnt_simps [simp]: "cnt P [] = 0" "cnt P (x # xs) = (if P x then 1 else 0) + cnt P xs"
  by (simp_all add: cnt_def)

lemma cnt_update:
  "i < length xs \<Longrightarrow> cnt P (xs[i := v]) = cnt P xs - (if P (xs ! i) then 1 else 0) + (if P v then 1 else 0)"
proof (induction xs arbitrary: i)
  case (Cons x xs)
  then show ?case by (cases i) auto
qed simp

lemma cnt_nonneg [simp]: "0 \<le> cnt P xs"
  by (simp add: cnt_def)

lemma cnt_pos: "i < length xs \<Longrightarrow> P (xs ! i) \<Longrightarrow> 0 < cnt P xs"
  by (metis cnt_def filter_empty_conv length_greater_0_conv nth_mem of_nat_0_less_iff)

lemma cnt_replicate: "cnt P (replicate n x) = (if P x then int n else 0)"
  by (simp add: cnt_def)

end
