(* ===== verification/Sql_Pool.thy ===== *)
theory Sql_Pool
  imports Locker "HOL-Library.Multiset"
begin

text \<open>
  \<open>connection_pool\<close> (\<open>CGImysql/sql_connection_pool.cpp\<close>): the pool of database connections.

  A connection is a number; the results of \<open>mysql_real_connect\<close> are an argument of \<open>init_pool\<close>
  (\<open>None\<close> where it fails, which makes the program exit). \<open>GetConnection\<close> and
  \<open>ReleaseConnection\<close> are not atomic: the test of the list's size happens before the
  semaphore and outside the lock, and the semaphore is raised after the lock is given up. Their
  phases are separate functions, and the threads that run them are a list of program counters
  with an interleaving step relation.
\<close>

type_synonym conn = nat

record sql_pool =
  m_MaxConn :: int
  m_CurConn :: int
  m_FreeConn :: int
  connList :: "conn list"
  reserve :: int
  m_Port :: string

definition new_pool :: sql_pool where
  "new_pool = \<lparr>m_MaxConn = 0, m_CurConn = 0, m_FreeConn = 0, connList = [], reserve = 0, m_Port = []\<rparr>"

text \<open>\<open>m_Port\<close> is a string, and assigning an \<open>int\<close> to a string stores one character.\<close>

definition init_pool :: "sql_pool \<Rightarrow> int \<Rightarrow> conn option list \<Rightarrow> sql_pool option" where
  "init_pool p Port connects =
     (if None \<in> set connects then None
      else let n = m_FreeConn p + int (length connects)
           in Some (p\<lparr>m_Port := [char_of (nat (Port mod 256))],
                      connList := connList p @ map the connects,
                      m_FreeConn := n, reserve := sem_init n, m_MaxConn := n\<rparr>))"

section \<open>The phases of the operations\<close>

text \<open>\<open>GetConnection\<close>: the test for an empty list, \<open>reserve.wait()\<close>, and the locked section.\<close>

definition get_check :: "sql_pool \<Rightarrow> bool" where
  "get_check p = (0 \<noteq> length (connList p))"

definition get_reserve :: "sql_pool \<Rightarrow> sql_pool option" where
  "get_reserve p = map_option (\<lambda>n. p\<lparr>reserve := n\<rparr>) (sem_wait (reserve p))"

text \<open>\<open>front()\<close> and \<open>pop_front()\<close> of an empty list are undefined behaviour.\<close>

definition get_take :: "sql_pool \<Rightarrow> (sql_pool \<times> conn) res" where
  "get_take p = (case connList p of
     [] \<Rightarrow> Inl Out_Of_Bounds
   | con # rest \<Rightarrow> Inr (p\<lparr>connList := rest, m_FreeConn := m_FreeConn p - 1, m_CurConn := m_CurConn p + 1\<rparr>, con))"

text \<open>\<open>ReleaseConnection\<close>: the locked section, then \<open>reserve.post()\<close>.\<close>

definition release_push :: "sql_pool \<Rightarrow> conn \<Rightarrow> sql_pool" where
  "release_push p con =
     p\<lparr>connList := connList p @ [con], m_FreeConn := m_FreeConn p + 1, m_CurConn := m_CurConn p - 1\<rparr>"

definition release_post :: "sql_pool \<Rightarrow> sql_pool" where
  "release_post p = p\<lparr>reserve := sem_post (reserve p)\<rparr>"

text \<open>The operations when no other thread interferes; \<open>None\<close> while \<open>GetConnection\<close> blocks.\<close>

definition GetConnection :: "sql_pool \<Rightarrow> (sql_pool \<times> conn option) res option" where
  "GetConnection p =
     (if \<not> get_check p then Some (Inr (p, None))
      else map_option (\<lambda>p1. rbind (get_take p1) (\<lambda>(p2, con). Inr (p2, Some con))) (get_reserve p))"

definition ReleaseConnection :: "sql_pool \<Rightarrow> conn option \<Rightarrow> sql_pool \<times> bool" where
  "ReleaseConnection p con = (case con of
     None \<Rightarrow> (p, False)
   | Some c \<Rightarrow> (release_post (release_push p c), True))"

definition DestroyPool :: "sql_pool \<Rightarrow> sql_pool" where
  "DestroyPool p =
     (if length (connList p) > 0 then p\<lparr>m_CurConn := 0, m_FreeConn := 0, connList := []\<rparr> else p)"

definition GetFreeConn :: "sql_pool \<Rightarrow> int" where
  "GetFreeConn p = m_FreeConn p"

text \<open>\<open>connectionRAII\<close>: its constructor and its destructor.\<close>

definition connectionRAII :: "sql_pool \<Rightarrow> (sql_pool \<times> conn option) res option" where
  "connectionRAII connPool = GetConnection connPool"

definition end_connectionRAII :: "sql_pool \<Rightarrow> conn option \<Rightarrow> sql_pool" where
  "end_connectionRAII poolRAII conRAII = fst (ReleaseConnection poolRAII conRAII)"

section \<open>Threads\<close>

datatype pc = Idle | Checked | Reserved | Holding conn | Pushed | Crashed

inductive sql_step :: "sql_pool \<times> pc list \<Rightarrow> sql_pool \<times> pc list \<Rightarrow> bool" where
  check: "i < length ts \<Longrightarrow> ts ! i = Idle \<Longrightarrow> get_check p \<Longrightarrow> sql_step (p, ts) (p, ts[i := Checked])"
| reserve: "i < length ts \<Longrightarrow> ts ! i = Checked \<Longrightarrow> get_reserve p = Some p' \<Longrightarrow> sql_step (p, ts) (p', ts[i := Reserved])"
| take: "i < length ts \<Longrightarrow> ts ! i = Reserved \<Longrightarrow> get_take p = Inr (p', con) \<Longrightarrow> sql_step (p, ts) (p', ts[i := Holding con])"
| crash: "i < length ts \<Longrightarrow> ts ! i = Reserved \<Longrightarrow> get_take p = Inl e \<Longrightarrow> sql_step (p, ts) (p, ts[i := Crashed])"
| push: "i < length ts \<Longrightarrow> ts ! i = Holding con \<Longrightarrow> sql_step (p, ts) (release_push p con, ts[i := Pushed])"
| post: "i < length ts \<Longrightarrow> ts ! i = Pushed \<Longrightarrow> sql_step (p, ts) (release_post p, ts[i := Idle])"

inductive_cases sql_stepE: "sql_step (p, ts) (p', ts')"

definition sql_start :: "nat \<Rightarrow> conn list \<Rightarrow> (sql_pool \<times> pc list) option" where
  "sql_start n cs = map_option (\<lambda>p. (p, replicate n Idle)) (init_pool new_pool 3306 (map Some cs))"

fun held :: "pc list \<Rightarrow> conn list" where
  "held [] = []"
| "held (Holding c # ts) = c # held ts"
| "held (_ # ts) = held ts"

text \<open>
  The invariant: the connections in the list and in the hands of threads are those the pool was
  made with, each once; the list has one connection for each unit of the semaphore, each thread
  past the semaphore and each thread before its \<open>post\<close>; the counters count.
\<close>

definition pool_ok :: "conn list \<Rightarrow> sql_pool \<times> pc list \<Rightarrow> bool" where
  "pool_ok cs s \<longleftrightarrow> (case s of (p, ts) \<Rightarrow>
     mset (connList p) + mset (held ts) = mset cs
   \<and> int (length (connList p)) = reserve p + cnt (\<lambda>t. t = Reserved) ts + cnt (\<lambda>t. t = Pushed) ts
   \<and> 0 \<le> reserve p
   \<and> m_FreeConn p = int (length (connList p)) \<and> m_CurConn p = int (length (held ts))
   \<and> Crashed \<notin> set ts)"

lemma held_append: "held (xs @ ys) = held xs @ held ys"
  by (induction xs rule: held.induct) simp_all

lemma held_split:
  assumes "i < length ts"
  obtains xs ys where "ts = xs @ ts ! i # ys" and "\<forall>v. ts[i := v] = xs @ v # ys"
proof -
  have "\<forall>v. ts[i := v] = take i ts @ v # drop (Suc i) ts" using upd_conv_take_nth_drop [OF assms] by blast
  with id_take_nth_drop [OF assms] show ?thesis by (rule that)
qed

lemma held_update:
  assumes "i < length ts"
  shows "mset (held (ts[i := v])) + mset (held [ts ! i]) = mset (held ts) + mset (held [v])"
proof -
  obtain xs ys where s: "ts = xs @ ts ! i # ys" and u: "\<forall>v. ts[i := v] = xs @ v # ys"
    by (rule held_split [OF assms])
  have one: "held (v # ys) = held [v] @ held ys" for v using held_append [of "[v]" ys] by simp
  have "held ts = held xs @ held [ts ! i] @ held ys" using s held_append [of xs "ts ! i # ys"] one by metis
  then show ?thesis using u by (simp add: held_append one)
qed

lemma held_update_pc:
  assumes "i < length ts"
  shows "\<lbrakk>\<forall>c. ts ! i \<noteq> Holding c; \<forall>c. v \<noteq> Holding c\<rbrakk> \<Longrightarrow> mset (held (ts[i := v])) = mset (held ts)"
    and "\<lbrakk>\<forall>c. ts ! i \<noteq> Holding c\<rbrakk> \<Longrightarrow> mset (held (ts[i := Holding c])) = add_mset c (mset (held ts))"
    and "\<lbrakk>ts ! i = Holding c; \<forall>c. v \<noteq> Holding c\<rbrakk> \<Longrightarrow> add_mset c (mset (held (ts[i := v]))) = mset (held ts)"
proof -
  have none: "held [t] = []" if "\<forall>c. t \<noteq> Holding c" for t using that by (cases t) simp_all
  show "\<lbrakk>\<forall>c. ts ! i \<noteq> Holding c; \<forall>c. v \<noteq> Holding c\<rbrakk> \<Longrightarrow> mset (held (ts[i := v])) = mset (held ts)"
    using held_update [OF assms, of v] none by simp
  show "\<lbrakk>\<forall>c. ts ! i \<noteq> Holding c\<rbrakk> \<Longrightarrow> mset (held (ts[i := Holding c])) = add_mset c (mset (held ts))"
    using held_update [OF assms, of "Holding c"] none by simp
  show "\<lbrakk>ts ! i = Holding c; \<forall>c. v \<noteq> Holding c\<rbrakk> \<Longrightarrow> add_mset c (mset (held (ts[i := v]))) = mset (held ts)"
    using held_update [OF assms, of v] none by simp
qed

lemma set_update_not: "x \<notin> set ts \<Longrightarrow> v \<noteq> x \<Longrightarrow> x \<notin> set (ts[i := v])"
  using set_update_subset_insert [of ts i v] by auto

lemma length_held: "length (held ts) = size (mset (held ts))"
  by simp

lemma sql_step_ok:
  assumes "sql_step s s'" and "pool_ok cs s"
  shows "pool_ok cs s'"
  using assms
proof cases
  case (check i ts p)
  with assms(2) have "mset (held (ts[i := Checked])) = mset (held ts)" by (intro held_update_pc) simp_all
  then have "length (held (ts[i := Checked])) = length (held ts)" by (metis size_mset)
  with check assms(2) \<open>mset _ = _\<close> show ?thesis by (simp add: pool_ok_def cnt_update set_update_not)
next
  case (reserve i ts p p')
  then have m: "mset (held (ts[i := Reserved])) = mset (held ts)" by (intro held_update_pc) simp_all
  then have "length (held (ts[i := Reserved])) = length (held ts)" by (metis size_mset)
  moreover have "p' = p\<lparr>reserve := reserve p - 1\<rparr>" "0 < reserve p"
    using reserve(5) by (auto simp: get_reserve_def sem_wait_def split: if_splits)
  ultimately show ?thesis using reserve assms(2) m by (simp add: pool_ok_def cnt_update set_update_not)
next
  case (take i ts p p' con)
  then have m: "mset (held (ts[i := Holding con])) = add_mset con (mset (held ts))" by (intro held_update_pc) simp_all
  then have "length (held (ts[i := Holding con])) = Suc (length (held ts))" by (metis size_mset size_add_mset)
  moreover obtain rest where "connList p = con # rest"
    "p' = p\<lparr>connList := rest, m_FreeConn := m_FreeConn p - 1, m_CurConn := m_CurConn p + 1\<rparr>"
    using take(5) by (auto simp: get_take_def split: list.splits)
  ultimately show ?thesis using take assms(2) m by (simp add: pool_ok_def cnt_update set_update_not)
next
  case (crash i ts p e)
  then have "0 < cnt (\<lambda>t. t = Reserved) ts" by (intro cnt_pos [of i]) simp_all
  moreover have "connList p = []" using crash(5) by (auto simp: get_take_def split: list.splits)
  moreover have "0 \<le> reserve p" "int (length (connList p)) = reserve p + cnt (\<lambda>t. t = Reserved) ts + cnt (\<lambda>t. t = Pushed) ts"
    using assms(2) crash(1) by (simp_all add: pool_ok_def)
  ultimately have False using cnt_nonneg [of "\<lambda>t. t = Pushed" ts] by simp
  then show ?thesis ..
next
  case (push i ts con p)
  then have m: "add_mset con (mset (held (ts[i := Pushed]))) = mset (held ts)" by (intro held_update_pc) simp_all
  then have "Suc (length (held (ts[i := Pushed]))) = length (held ts)" by (metis size_mset size_add_mset)
  moreover have "mset (connList p) + add_mset con (mset (held (ts[i := Pushed]))) = mset cs"
    using assms(2) push(1) m by (simp add: pool_ok_def)
  ultimately show ?thesis
    using push assms(2) by (simp add: pool_ok_def cnt_update set_update_not release_push_def)
next
  case (post i ts p)
  then have m: "mset (held (ts[i := Idle])) = mset (held ts)" by (intro held_update_pc) simp_all
  then have "length (held (ts[i := Idle])) = length (held ts)" by (metis size_mset)
  with post assms(2) m show ?thesis
    by (simp add: pool_ok_def cnt_update set_update_not release_post_def sem_post_def)
qed

lemma held_replicate: "held (replicate n Idle) = []"
  by (induction n) simp_all

lemma sql_start_ok: "sql_start n cs = Some s \<Longrightarrow> pool_ok cs s"
  by (auto simp: sql_start_def init_pool_def new_pool_def sem_init_def Let_def pool_ok_def cnt_replicate held_replicate comp_def)

section \<open>The claims\<close>

lemma reach_ok: "sql_step\<^sup>*\<^sup>* s s' \<Longrightarrow> pool_ok cs s \<Longrightarrow> pool_ok cs s'"
  by (induction rule: rtranclp_induct) (auto intro: sql_step_ok)

lemma held_mem: "i < length ts \<Longrightarrow> ts ! i = Holding c \<Longrightarrow> c \<in> set (held ts)"
  by (induction ts arbitrary: i rule: held.induct) (auto simp: nth_Cons split: nat.splits)

lemma held_twice:
  assumes "i < j" and "j < length ts" and "ts ! i = Holding c" and "ts ! j = Holding c"
  shows "\<not> distinct (held ts)"
  using assms
proof (induction ts arbitrary: i j)
  case (Cons t ts)
  show ?case
  proof (cases i)
    case 0
    then obtain j' where "j = Suc j'" using Cons.prems(1) by (cases j) auto
    with 0 Cons.prems held_mem [of j' ts c] show ?thesis by simp
  next
    case (Suc i')
    then obtain j' where "j = Suc j'" using Cons.prems(1) by (cases j) auto
    with Suc Cons show ?thesis by (cases t) auto
  qed
qed simp

text \<open>
  C13. However the threads interleave: no thread takes a connection from an empty list, no
  connection is in two hands or both in a hand and in the list, none is lost, and the counters
  tell the truth.
\<close>

theorem sql_pool_safe:
  assumes "sql_start n cs = Some s" and "distinct cs" and "sql_step\<^sup>*\<^sup>* s (p, ts)"
  shows "Crashed \<notin> set ts \<and> distinct (connList p @ held ts) \<and> set (connList p) \<union> set (held ts) = set cs
    \<and> (\<forall>i j c. i < j \<and> j < length ts \<and> ts ! i = Holding c \<longrightarrow> ts ! j \<noteq> Holding c)
    \<and> GetFreeConn p = int (length (connList p)) \<and> m_CurConn p = int (length (held ts))"
proof -
  have ok: "pool_ok cs (p, ts)" by (rule reach_ok [OF assms(3) sql_start_ok [OF assms(1)]])
  then have m: "mset (connList p @ held ts) = mset cs" by (simp add: pool_ok_def)
  then have d: "distinct (connList p @ held ts)" "set (connList p @ held ts) = set cs"
    using assms(2) mset_eq_imp_distinct_iff mset_eq_setD by blast+
  then have "ts ! j \<noteq> Holding c" if "i < j" "j < length ts" "ts ! i = Holding c" for i j c
    using held_twice [OF that] by auto
  then have "\<forall>i j c. i < j \<and> j < length ts \<and> ts ! i = Holding c \<longrightarrow> ts ! j \<noteq> Holding c" by blast
  with ok d show ?thesis by (simp add: pool_ok_def GetFreeConn_def)
qed

theorem sql_pool_safe_witness:
  "\<exists>p ts. sql_start 2 [10, 11] = Some (p, ts) \<and> distinct (connList p @ held ts)"
proof -
  obtain p ts where s: "sql_start 2 [10, 11] = Some (p, ts)"
    by (auto simp: sql_start_def init_pool_def new_pool_def Let_def)
  from sql_pool_safe [OF s, of p ts] s show ?thesis by auto
qed

text \<open>
  Taken without interference and given back, a connection goes to the end of the list: the
  pool hands its connections out in turn.
\<close>

theorem get_release_rotates:
  assumes "connList p = con # rest" and "reserve p > 0"
  shows "\<exists>p'. GetConnection p = Some (Inr (p', Some con))
    \<and> ReleaseConnection p' (Some con) = (p\<lparr>connList := rest @ [con]\<rparr>, True)"
  using assms
  by (simp add: GetConnection_def get_check_def get_reserve_def sem_wait_def get_take_def
      ReleaseConnection_def release_post_def release_push_def sem_post_def)

theorem get_release_rotates_witness:
  "\<exists>p p'. init_pool new_pool 3306 [Some 5, Some 6] = Some p \<and> GetConnection p = Some (Inr (p', Some 5))
    \<and> connList (fst (ReleaseConnection p' (Some 5))) = [6, 5]"
proof -
  obtain p where p: "init_pool new_pool 3306 [Some 5, Some 6] = Some p" "connList p = [5, 6]" "reserve p > 0"
    by (auto simp: init_pool_def new_pool_def sem_init_def Let_def)
  with get_release_rotates [OF p(2,3)] show ?thesis by fastforce
qed

end
