(* ===== verification/Thread_Pool.thy ===== *)
theory Thread_Pool
  imports Bounded_Fifo Sql_Pool Http_Conn
begin

text \<open>
  \<open>threadpool<T>\<close> (\<open>threadpool/threadpool.h\<close>): the request queue, the body of a worker and the
  protocol between \<open>run\<close>, \<open>append\<close> and \<open>stop\<close>.

  A request is a pointer to a connection, the index \<open>'r\<close> of it. \<open>append\<close> also stores
  \<open>m_state\<close> in the connection, given as a map. The workers wait on a condition variable, a loop
  of the predicate \<open>m_stop || !empty\<close> and a sleep; the relation \<open>tp_step\<close> has the predicate and
  the sleep as separate steps, both with the mutex held; in \<open>append\<close> the part up to \<open>unlock\<close> and
  the \<open>notify_one\<close> behind it, since any worker may run between them; and \<open>stop\<close> as the code has
  it: it sets the flag without the mutex, wakes the sleepers and joins the threads. Only the main
  thread calls \<open>append\<close> and \<open>stop\<close>. A wake-up without a notification, which the standard permits, is
  not a step: it could only wake more.
\<close>

record 'r thread_pool =
  m_actor_model :: int
  m_max_requests :: int
  m_workqueue :: "'r list"
  m_stop :: bool

definition new_thread_pool :: "int \<Rightarrow> int \<Rightarrow> int \<Rightarrow> 'r thread_pool option" where
  "new_thread_pool actor_model thread_num max_requests =
     (if thread_num \<le> 0 \<or> max_requests \<le> 0 then None
      else Some \<lparr>m_actor_model = actor_model, m_max_requests = max_requests, m_workqueue = [], m_stop = False\<rparr>)"

definition append_p :: "'r thread_pool \<Rightarrow> 'r \<Rightarrow> 'r thread_pool \<times> bool" where
  "append_p p request =
     (if m_stop p then (p, False)
      else if int (length (m_workqueue p)) \<ge> m_max_requests p then (p, False)
      else (p\<lparr>m_workqueue := m_workqueue p @ [request]\<rparr>, True))"

definition append_state :: "'r thread_pool \<Rightarrow> ('r \<Rightarrow> int) \<Rightarrow> 'r \<Rightarrow> int \<Rightarrow> 'r thread_pool \<times> ('r \<Rightarrow> int) \<times> bool" where
  "append_state p st request state =
     (if m_stop p then (p, st, False)
      else if int (length (m_workqueue p)) \<ge> m_max_requests p then (p, st, False)
      else (p\<lparr>m_workqueue := m_workqueue p @ [request]\<rparr>, st(request := state), True))"

text \<open>The locked part of \<open>run\<close> when the queue is not empty.\<close>

definition fetch :: "'r thread_pool \<Rightarrow> ('r thread_pool \<times> 'r) option" where
  "fetch p = (case m_workqueue p of [] \<Rightarrow> None
     | r # rs \<Rightarrow> Some (p\<lparr>m_workqueue := rs\<rparr>, r))"

definition accepting :: "'r thread_pool \<Rightarrow> bool" where
  "accepting p \<longleftrightarrow> \<not> m_stop p \<and> 0 < m_max_requests p \<and> int (length (m_workqueue p)) \<le> m_max_requests p"

interpretation requests: bounded_fifo accepting m_workqueue "\<lambda>p. nat (m_max_requests p)" append_p fetch
  by unfold_locales (auto simp: accepting_def append_p_def fetch_def split: list.splits)

section \<open>Serving one request\<close>

text \<open>
  What a worker does with a request: a database connection for \<open>mysql\<close>, \<open>process()\<close>, and the
  connection back. In reactor mode only requests with \<open>m_state = 0\<close> are served. \<open>m_connPool\<close> is
  \<open>None\<close> for the null pointer.
\<close>

definition served :: "int \<Rightarrow> http_conn \<Rightarrow> bool" where
  "served actor_model c = (if actor_model = 1 then m_state c = 0 else True)"

definition serve_get :: "sql_pool option \<Rightarrow> http_conn \<Rightarrow> (sql_pool option \<times> http_conn) res option" where
  "serve_get m_connPool c = (case m_connPool of
     None \<Rightarrow> Some (Inr (None, c))
   | Some p \<Rightarrow> map_option (\<lambda>r. rbind r (\<lambda>(p1, con). Inr (Some p1, c\<lparr>mysql := con\<rparr>))) (GetConnection p))"

definition serve_release :: "sql_pool option \<Rightarrow> http_conn \<Rightarrow> sql_pool option \<times> http_conn" where
  "serve_release m_connPool c = (case m_connPool of
     None \<Rightarrow> (None, c)
   | Some p \<Rightarrow> if mysql c \<noteq> None then (Some (fst (ReleaseConnection p (mysql c))), c\<lparr>mysql := None\<rparr>)
               else (Some p, c))"

section \<open>Workers and stop\<close>

datatype 'r worker = At_Lock | Holds | Pre_Sleep | Asleep | Working 'r | Exited

text \<open>The main thread: elsewhere, in \<open>append\<close> between \<open>unlock\<close> and \<open>notify_one\<close>, or in \<open>stop\<close>.\<close>

datatype main = Running | Notifying | Flagged | Joining

definition wake_all :: "'r worker list \<Rightarrow> 'r worker list" where
  "wake_all ws = map (\<lambda>w. if w = Asleep then At_Lock else w) ws"

text \<open>The mutex is free when no worker is between taking it and giving it up.\<close>

definition mutex_free :: "'r worker list \<Rightarrow> bool" where
  "mutex_free ws \<longleftrightarrow> (\<forall>w \<in> set ws. w \<noteq> Holds \<and> w \<noteq> Pre_Sleep)"

type_synonym 'r tp_state = "'r thread_pool \<times> 'r worker list \<times> main"

inductive tp_step :: "'r tp_state \<Rightarrow> 'r tp_state \<Rightarrow> bool" where
  lock: "i < length ws \<Longrightarrow> ws ! i = At_Lock \<Longrightarrow> mutex_free ws \<Longrightarrow> tp_step (p, ws, m) (p, ws[i := Holds], m)"
| exit: "i < length ws \<Longrightarrow> ws ! i = Holds \<Longrightarrow> m_stop p \<Longrightarrow> m_workqueue p = [] \<Longrightarrow>
    tp_step (p, ws, m) (p, ws[i := Exited], m)"
| fetch: "i < length ws \<Longrightarrow> ws ! i = Holds \<Longrightarrow> fetch p = Some (p', r) \<Longrightarrow>
    tp_step (p, ws, m) (p', ws[i := Working r], m)"
| wait: "i < length ws \<Longrightarrow> ws ! i = Holds \<Longrightarrow> \<not> m_stop p \<Longrightarrow> m_workqueue p = [] \<Longrightarrow>
    tp_step (p, ws, m) (p, ws[i := Pre_Sleep], m)"
| sleep: "i < length ws \<Longrightarrow> ws ! i = Pre_Sleep \<Longrightarrow> tp_step (p, ws, m) (p, ws[i := Asleep], m)"
| finish: "i < length ws \<Longrightarrow> ws ! i = Working r \<Longrightarrow> tp_step (p, ws, m) (p, ws[i := At_Lock], m)"
| append: "mutex_free ws \<Longrightarrow> append_p p r = (p', True) \<Longrightarrow> tp_step (p, ws, Running) (p', ws, Notifying)"
| notify_one: "i < length ws \<Longrightarrow> ws ! i = Asleep \<Longrightarrow> tp_step (p, ws, Notifying) (p, ws[i := At_Lock], Running)"
| notify_nobody: "Asleep \<notin> set ws \<Longrightarrow> tp_step (p, ws, Notifying) (p, ws, Running)"
| set_stop: "tp_step (p, ws, Running) (p\<lparr>m_stop := True\<rparr>, ws, Flagged)"
| notify: "tp_step (p, ws, Flagged) (p, wake_all ws, Joining)"

inductive_cases tp_stepE: "tp_step (p, ws, m) s'"
inductive_simps tp_step_join: "tp_step (p, [w], Joining) s'"

section \<open>The claims\<close>

text \<open>
  C36. \<open>stop\<close> can hang: it sets the flag between a worker's test of the predicate and its sleep,
  so the notification finds nobody asleep; then the worker sleeps, and no step is left while
  the main thread waits in \<open>join\<close>.
\<close>

theorem stop_can_hang:
  assumes "new_thread_pool a 1 n = Some (p :: 'r thread_pool)"
  shows "\<exists>p'. tp_step\<^sup>*\<^sup>* (p, [At_Lock], Running) (p', [Asleep], Joining) \<and> m_stop p'
    \<and> (\<forall>s. \<not> tp_step (p', [Asleep], Joining) s)"
proof -
  have p: "\<not> m_stop p" "m_workqueue p = []" using assms by (auto simp: new_thread_pool_def split: if_splits)
  let ?p = "p\<lparr>m_stop := True\<rparr>"
  have 1: "tp_step (p, [At_Lock], Running) (p, [Holds], Running)"
    using tp_step.lock [of 0 "[At_Lock]" p Running] by (simp add: mutex_free_def)
  have 2: "tp_step (p, [Holds], Running) (p, [Pre_Sleep], Running)"
    using tp_step.wait [of 0 "[Holds]" p Running] p by simp
  have 3: "tp_step (p, [Pre_Sleep], Running) (?p, [Pre_Sleep], Flagged)" by (rule tp_step.set_stop)
  have 4: "tp_step (?p, [Pre_Sleep], Flagged) (?p, [Pre_Sleep], Joining)"
    using tp_step.notify [of ?p "[Pre_Sleep]"] by (simp add: wake_all_def)
  have 5: "tp_step (?p, [Pre_Sleep], Joining) (?p, [Asleep], Joining)"
    using tp_step.sleep [of 0 "[Pre_Sleep]" ?p Joining] by simp
  have "tp_step\<^sup>*\<^sup>* (p, [At_Lock], Running) (?p, [Asleep], Joining)"
    using 1 2 3 4 5 by (meson converse_rtranclp_into_rtranclp rtranclp.rtrancl_refl)
  moreover have "\<not> tp_step (?p, [Asleep], Joining) s" for s :: "'r tp_state"
    by (auto simp: tp_step_join)
  ultimately show ?thesis by (intro exI [of _ ?p]) simp
qed

theorem stop_can_hang_witness:
  "\<exists>p p'. new_thread_pool 0 1 10000 = Some (p :: nat thread_pool)
    \<and> tp_step\<^sup>*\<^sup>* (p, [At_Lock], Running) (p', [Asleep], Joining) \<and> m_stop p'"
proof -
  obtain p :: "nat thread_pool" where p: "new_thread_pool 0 1 10000 = Some p" by (simp add: new_thread_pool_def)
  from stop_can_hang [OF p] p show ?thesis by blast
qed

definition in_section :: "'r worker \<Rightarrow> bool" where
  "in_section w \<longleftrightarrow> w = Holds \<or> w = Pre_Sleep"

definition awake :: "'r worker \<Rightarrow> bool" where
  "awake w \<longleftrightarrow> w \<noteq> Asleep \<and> w \<noteq> Exited \<and> w \<noteq> Pre_Sleep"

definition tp_inv :: "'r tp_state \<Rightarrow> bool" where
  "tp_inv s \<longleftrightarrow> (case s of (p, ws, m) \<Rightarrow> ws \<noteq> [] \<and> cnt in_section ws \<le> 1
     \<and> (m = Running \<or> m = Notifying \<longrightarrow> \<not> m_stop p \<and> Exited \<notin> set ws
         \<and> (Pre_Sleep \<in> set ws \<longrightarrow> m_workqueue p = []))
     \<and> (m = Running \<and> m_workqueue p \<noteq> [] \<longrightarrow> (\<exists>w \<in> set ws. awake w)))"

lemma cnt_le_one_other:
  assumes "cnt P xs \<le> 1" and "i < length xs" and "P (xs ! i)" and "x \<in> set (xs[i := v])" and "\<not> P v"
  shows "\<not> P x"
proof
  assume "P x"
  then have "0 < cnt P (xs[i := v])" using assms(4) cnt_pos by (metis in_set_conv_nth)
  with assms cnt_update [OF assms(2), of P v] show False by simp
qed

lemma free_cnt: "mutex_free ws \<Longrightarrow> cnt in_section ws = 0"
  by (simp add: mutex_free_def in_section_def cnt_def)

lemma awake_update: "i < length ws \<Longrightarrow> awake v \<Longrightarrow> \<exists>w \<in> set (ws[i := v]). awake w"
  using set_update_memI by metis

lemma wake_all_cnt: "cnt in_section (wake_all ws) = cnt in_section ws"
  by (induction ws) (auto simp: wake_all_def in_section_def)

lemma in_set_update: "x \<in> set (xs[i := v]) \<Longrightarrow> x = v \<or> x \<in> set xs"
  using set_update_subset_insert [of xs i v] by auto

lemma tp_inv_step:
  assumes "tp_step s s'" and "tp_inv s"
  shows "tp_inv s'"
  using assms
proof cases
  case (lock i ws p m)
  then have "Pre_Sleep \<notin> set (ws[i := Holds])" by (auto simp: mutex_free_def dest!: in_set_update)
  with lock assms(2) free_cnt [of ws] awake_update [of i ws Holds] show ?thesis
    by (auto simp: tp_inv_def cnt_update in_section_def awake_def dest!: in_set_update)
next
  case (exit i ws p m)
  with assms(2) show ?thesis by (auto simp: tp_inv_def cnt_update in_section_def)
next
  case (fetch i ws p p' r m)
  have "Pre_Sleep \<notin> set (ws[i := Working r])" if "cnt in_section ws \<le> 1"
    using cnt_le_one_other [OF that, of i Pre_Sleep "Working r"] fetch by (auto simp: in_section_def)
  moreover have "m_stop p' = m_stop p" using fetch(5) by (auto simp: fetch_def split: list.splits)
  ultimately show ?thesis
    using fetch assms(2) awake_update [of i ws "Working r"]
    by (auto simp: tp_inv_def cnt_update in_section_def awake_def dest!: in_set_update)
next
  case (wait i ws p m)
  with assms(2) show ?thesis
    by (auto simp: tp_inv_def cnt_update in_section_def dest!: in_set_update)
next
  case (sleep i ws p m)
  then have "m = Running \<or> m = Notifying \<longrightarrow> m_workqueue p = []" using assms(2) nth_mem [of i ws] by (auto simp: tp_inv_def)
  with sleep assms(2) show ?thesis
    by (auto simp: tp_inv_def cnt_update in_section_def dest!: in_set_update)
next
  case (finish i ws r p m)
  with assms(2) awake_update [of i ws At_Lock] show ?thesis
    by (auto simp: tp_inv_def cnt_update in_section_def awake_def dest!: in_set_update)
next
  case (append ws p r p')
  have "m_stop p' = m_stop p" using append(4) by (auto simp: append_p_def split: if_splits)
  with append assms(2) show ?thesis by (auto simp: tp_inv_def mutex_free_def)
next
  case (notify_one i ws p)
  with assms(2) awake_update [of i ws At_Lock] show ?thesis
    by (auto simp: tp_inv_def cnt_update in_section_def awake_def dest!: in_set_update)
next
  case (notify_nobody ws p)
  obtain w where "w \<in> set ws" using assms(2) notify_nobody(1) by (cases ws) (auto simp: tp_inv_def)
  then have "\<exists>w \<in> set ws. awake w" if "m_workqueue p \<noteq> []"
    using notify_nobody assms(2) that by (intro bexI [of _ w]) (auto simp: tp_inv_def awake_def)
  with notify_nobody assms(2) show ?thesis by (auto simp: tp_inv_def)
next
  case (set_stop p ws)
  with assms(2) show ?thesis by (simp add: tp_inv_def)
next
  case (notify p ws)
  with assms(2) show ?thesis by (simp add: tp_inv_def wake_all_cnt) (simp add: wake_all_def)
qed

lemma can_notify:
  obtains ws' where "tp_step (p, ws, Notifying) (p, ws', Running)"
proof (cases "Asleep \<in> set ws")
  case True
  then obtain i where "i < length ws" "ws ! i = Asleep" by (auto simp: in_set_conv_nth)
  with that show ?thesis by (blast intro: tp_step.notify_one)
qed (blast intro: that tp_step.notify_nobody)

text \<open>
  C14. As long as \<open>stop\<close> is not called, no wake-up is lost. Between the \<open>unlock\<close> and the
  \<open>notify_one\<close> of \<open>append\<close> all workers may be asleep beside a waiting request; but the notification
  can always be given, and whenever the main thread is outside \<open>append\<close> and a request waits, some
  worker is awake. No two workers are between taking and releasing the mutex.
\<close>

theorem append_finds_worker:
  assumes "new_thread_pool a (int n) b = Some p" and "tp_step\<^sup>*\<^sup>* (p, replicate n At_Lock, Running) (p', ws, m)"
  shows "cnt in_section ws \<le> 1
    \<and> (m = Running \<and> m_workqueue p' \<noteq> [] \<longrightarrow> (\<exists>w \<in> set ws. awake w))
    \<and> (m = Notifying \<longrightarrow> (\<exists>ws'. tp_step (p', ws, Notifying) (p', ws', Running)
         \<and> (m_workqueue p' \<noteq> [] \<longrightarrow> (\<exists>w \<in> set ws'. awake w))))"
proof -
  have "0 < n" "\<not> m_stop p" "m_workqueue p = []" using assms(1) by (auto simp: new_thread_pool_def split: if_splits)
  then have "tp_inv (p, replicate n At_Lock, Running)" by (simp add: tp_inv_def cnt_replicate in_section_def)
  with assms(2) have inv: "tp_inv (p', ws, m)" by (induction rule: rtranclp_induct) (auto intro: tp_inv_step)
  have "\<exists>ws'. tp_step (p', ws, Notifying) (p', ws', Running) \<and> (m_workqueue p' \<noteq> [] \<longrightarrow> (\<exists>w \<in> set ws'. awake w))"
    if "m = Notifying"
  proof -
    obtain ws' where "tp_step (p', ws, Notifying) (p', ws', Running)" by (rule can_notify)
    with tp_inv_step [OF this] inv that show ?thesis by (auto simp: tp_inv_def)
  qed
  with inv show ?thesis by (auto simp: tp_inv_def)
qed

text \<open>Its witness: the only worker sleeps when a request comes, in the gap and behind it.\<close>

lemma demo_gap:
  fixes p :: "nat thread_pool"
  assumes "new_thread_pool 0 1 10000 = Some p"
  shows "tp_step\<^sup>*\<^sup>* (p, replicate 1 At_Lock, Running) (p\<lparr>m_workqueue := [7]\<rparr>, [Asleep], Notifying)"
proof -
  have p: "\<not> m_stop p" "m_workqueue p = []" "m_max_requests p = 10000" using assms by (auto simp: new_thread_pool_def)
  have 1: "tp_step (p, [At_Lock], Running) (p, [Holds], Running)"
    using tp_step.lock [of 0 "[At_Lock]" p Running] by (simp add: mutex_free_def)
  have 2: "tp_step (p, [Holds], Running) (p, [Pre_Sleep], Running)"
    using tp_step.wait [of 0 "[Holds]" p Running] p by simp
  have 3: "tp_step (p, [Pre_Sleep], Running) (p, [Asleep], Running)"
    using tp_step.sleep [of 0 "[Pre_Sleep]" p Running] by simp
  have "append_p p 7 = (p\<lparr>m_workqueue := [7]\<rparr>, True)" using p by (simp add: append_p_def)
  then have 4: "tp_step (p, [Asleep], Running) (p\<lparr>m_workqueue := [7]\<rparr>, [Asleep], Notifying)"
    by (intro tp_step.append [of _ _ 7]) (simp_all add: mutex_free_def)
  have "tp_step\<^sup>*\<^sup>* (p, [At_Lock], Running) (p\<lparr>m_workqueue := [7]\<rparr>, [Asleep], Notifying)"
    using 1 2 3 4 by (meson converse_rtranclp_into_rtranclp rtranclp.rtrancl_refl)
  then show ?thesis by simp
qed

theorem append_finds_worker_witness:
  "\<exists>p p' ws'. new_thread_pool 0 1 10000 = Some (p :: nat thread_pool) \<and> m_workqueue p' = [7]
    \<and> tp_step\<^sup>*\<^sup>* (p, [At_Lock], Running) (p', [Asleep], Notifying)
    \<and> tp_step (p', [Asleep], Notifying) (p', ws', Running) \<and> (\<exists>w \<in> set ws'. awake w)"
proof -
  obtain p :: "nat thread_pool" where p: "new_thread_pool 0 (int 1) 10000 = Some p" by (simp add: new_thread_pool_def)
  then have g: "tp_step\<^sup>*\<^sup>* (p, replicate 1 At_Lock, Running) (p\<lparr>m_workqueue := [7]\<rparr>, [Asleep], Notifying)"
    by (intro demo_gap) simp
  from append_finds_worker [OF p g] obtain ws' where
    "tp_step (p\<lparr>m_workqueue := [7]\<rparr>, [Asleep], Notifying) (p\<lparr>m_workqueue := [7]\<rparr>, ws', Running)"
    "\<exists>w \<in> set ws'. awake w" by auto
  with p g show ?thesis by (intro exI [of _ p] exI [of _ "p\<lparr>m_workqueue := [7]\<rparr>"] exI [of _ ws']) simp
qed

fun request_run :: "'r thread_pool \<Rightarrow> 'r qop list \<Rightarrow> 'r thread_pool \<times> 'r list \<times> 'r list" where
  "request_run q [] = (q, [], [])"
| "request_run q (Put x # ops) =
     (case append_p q x of (q1, b) \<Rightarrow>
      (case request_run q1 ops of (q2, ins, outs) \<Rightarrow> (q2, (if b then [x] else []) @ ins, outs)))"
| "request_run q (Take # ops) =
     (case fetch q of
        None \<Rightarrow> request_run q ops
      | Some (q1, x) \<Rightarrow> (case request_run q1 ops of (q2, ins, outs) \<Rightarrow> (q2, ins, x # outs)))"

lemma request_run_eq: "request_run q ops = requests.run q ops"
  by (induction q ops rule: request_run.induct) (auto split: prod.splits option.splits)

text \<open>The workers fetch the accepted requests in the order of their acceptance, each once.\<close>

theorem requests_in_order:
  assumes "accepting p" and "request_run p ops = (p', ins, outs)"
  shows "m_workqueue p @ ins = outs @ m_workqueue p' \<and> int (length (m_workqueue p')) \<le> m_max_requests p"
proof -
  have "accepting p' \<and> nat (m_max_requests p') = nat (m_max_requests p) \<and> m_workqueue p @ ins = outs @ m_workqueue p'"
    using requests.fifo [OF assms(1), of ops] assms(2) unfolding request_run_eq by blast
  then show ?thesis using assms(1) by (auto simp: accepting_def)
qed

theorem requests_in_order_witness:
  "\<exists>p p'. new_thread_pool 0 8 2 = Some p \<and> request_run p [Put (1::nat), Put 2, Put 3, Take] = (p', [1, 2], [1])
    \<and> m_workqueue p' = [2]"
proof -
  obtain p :: "nat thread_pool" where p: "new_thread_pool 0 8 2 = Some p" "accepting p" "m_workqueue p = []"
    by (simp add: new_thread_pool_def accepting_def)
  then obtain p' where r: "request_run p [Put 1, Put 2, Put 3, Take] = (p', [1, 2], [1])"
    by (auto simp: append_p_def fetch_def new_thread_pool_def)
  from requests_in_order [OF p(2) r] p r show ?thesis by auto
qed

end
