(* ===== verification/Http_Process.thy ===== *)
theory Http_Process
  imports Http_Segments Http_Account Http_Write Thread_Pool
begin

text \<open>
  A connection's whole turn: \<open>process_read\<close> with the request's dispatch, \<open>process\<close>, the body of
  a worker thread around it, and \<open>initmysql_result\<close>, which fills the map of users at the start.
  The theorems compose the parser, the routes, the response writer and \<open>write\<close>.
\<close>

definition process_read ::
    "('w, 'd, 'f) outside \<Rightarrow> ('w, 'd) world \<Rightarrow> http_conn \<Rightarrow> (('w, 'd) world \<times> http_conn \<times> HTTP_CODE) res" where
  "process_read ext w c =
     rbind (read_loop c LINE_OK) (\<lambda>(c1, r).
     (case r of Return ret \<Rightarrow> Inr (w, c1, ret) | Dispatch \<Rightarrow> do_request ext w c1))"

text \<open>After a failed \<open>process_write\<close> the connection is closed and \<open>modfd\<close> still called, with descriptor -1.\<close>

definition process ::
    "('w, 'd, 'f) outside \<Rightarrow> os \<Rightarrow> ('w, 'd) world \<Rightarrow> http_conn \<Rightarrow> (os \<times> ('w, 'd) world \<times> http_conn) res" where
  "process ext k w c =
     rbind (process_read ext w c) (\<lambda>(w1, c1, read_ret).
     if read_ret = NO_REQUEST then Inr (modfd k (m_sockfd c1) EPOLLIN (m_TRIGMode c1), w1, c1)
     else (case process_write c1 read_ret of (c2, write_ret) \<Rightarrow>
       (case (if \<not> write_ret then close_conn k c2 True else (k, c2)) of (k1, c3) \<Rightarrow>
         Inr (modfd k1 (m_sockfd c3) EPOLLOUT (m_TRIGMode c3), w1, c3))))"

text \<open>
  What a worker does with a request it has fetched; \<open>None\<close> while it waits for a database
  connection. The world, the pool and the kernel's tables are shared, so this is the run of a
  worker whom nobody interrupts.
\<close>

definition serve ::
    "('w, 'd, 'f) outside \<Rightarrow> int \<Rightarrow> sql_pool option \<Rightarrow> os \<Rightarrow> ('w, 'd) world \<Rightarrow> http_conn
     \<Rightarrow> (sql_pool option \<times> os \<times> ('w, 'd) world \<times> http_conn) res option" where
  "serve ext actor_model m_connPool k w c =
     (if served actor_model c
      then map_option (\<lambda>r. rbind r (\<lambda>(pool1, c1).
             rbind (process ext k w c1) (\<lambda>(k1, w1, c2).
             (case serve_release pool1 c2 of (pool2, c3) \<Rightarrow> Inr (pool2, k1, w1, c3)))))
           (serve_get m_connPool c)
      else Some (Inr (m_connPool, k, w, c)))"

text \<open>
  \<open>initmysql_result\<close>: a connection from the pool, the rows of the query (\<open>None\<close> when there is no
  result, \<open>None\<close> as a value for SQL's \<open>NULL\<close>), and the connection back when \<open>mysqlcon\<close> dies.
\<close>

fun load_users :: "(string option \<times> string option) list \<Rightarrow> (string \<Rightarrow> string option) \<Rightarrow> (string \<Rightarrow> string option) res" where
  "load_users [] us = Inr us"
| "load_users ((Some temp1, Some temp2) # rows) us = load_users rows (us(temp1 \<mapsto> temp2))"
| "load_users (_ # rows) us = Inl Null_Deref"

definition initmysql_result ::
    "(string option \<times> string option) list option \<Rightarrow> sql_pool \<Rightarrow> (string \<Rightarrow> string option)
     \<Rightarrow> (sql_pool \<times> (string \<Rightarrow> string option)) res option" where
  "initmysql_result rows p us =
     map_option (\<lambda>r. rbind r (\<lambda>(p1, con).
       (case con of
          None \<Rightarrow> Inl Null_Deref
        | Some _ \<Rightarrow>
            rbind (case rows of None \<Rightarrow> Inr us | Some rs \<Rightarrow> load_users rs us) (\<lambda>us1.
            Inr (end_connectionRAII p1 con, us1)))))
       (connectionRAII p)"

section \<open>What reading leaves alone\<close>

definition keeps :: "http_conn \<Rightarrow> http_conn \<Rightarrow> bool" where
  "keeps c c1 \<longleftrightarrow> m_sockfd c1 = m_sockfd c \<and> m_TRIGMode c1 = m_TRIGMode c \<and> mysql c1 = mysql c
     \<and> m_write_idx c1 = m_write_idx c \<and> m_write_buf c1 = m_write_buf c \<and> m_real_file c1 = m_real_file c
     \<and> doc_root c1 = doc_root c \<and> m_file_address c1 = m_file_address c
     \<and> bytes_have_send c1 = bytes_have_send c"

lemma keeps_refl [simp]: "keeps c c"
  by (simp add: keeps_def)

lemma keeps_trans: "keeps a b \<Longrightarrow> keeps b c \<Longrightarrow> keeps a c"
  by (simp add: keeps_def)

lemma request_line_keeps: "parse_request_line c t = Inr (c1, r) \<Longrightarrow> keeps c c1"
proof (erule parse_request_line_cases)
  note defs = request_method_def request_version_def strip_scheme_def keeps_def Let_def
  have m: "keeps a b" if "request_method a x = Inr (b, y)" for a x b y
    using that by (auto simp: defs elim!: rbindE split: option.splits if_splits)
  have v: "keeps a b" if "request_version a x = Inr (b, y)" for a x b y
    using that by (auto simp: defs elim!: rbindE split: option.splits if_splits)
  have s: "keeps a b" if "strip_scheme a x = Inr b" for a x b
    using that by (auto simp: defs elim!: rbindE split: option.splits if_splits)
  note all = m v s keeps_trans
  show "request_method c t = Inr (c1, None) \<Longrightarrow> r = BAD_REQUEST \<Longrightarrow> keeps c c1" by (rule m)
  show "request_method c t = Inr (c2, Some u) \<Longrightarrow> request_version c2 u = Inr (c1, None) \<Longrightarrow> r = BAD_REQUEST \<Longrightarrow> keeps c c1"
    for c2 u by (blast intro: all)
  show "request_method c t = Inr (c2, Some u) \<Longrightarrow> request_version c2 u = Inr (c3, Some x) \<Longrightarrow>
      strip_scheme c3 ''http://'' = Inr c4 \<Longrightarrow> strip_scheme c4 ''https://'' = Inr c1 \<Longrightarrow> r = BAD_REQUEST \<Longrightarrow> keeps c c1"
    for c2 u c3 x c4 by (meson all)
  show "request_method c t = Inr (c2, Some u) \<Longrightarrow> request_version c2 u = Inr (c3, Some x) \<Longrightarrow>
      strip_scheme c3 ''http://'' = Inr c4 \<Longrightarrow> strip_scheme c4 ''https://'' = Inr c5 \<Longrightarrow> m_url c5 = Some url \<Longrightarrow>
      m_read_buf c5 url = CHR ''/'' \<Longrightarrow> 0 \<le> url \<Longrightarrow> url < READ_BUFFER_SIZE \<Longrightarrow>
      c1 = c5\<lparr>m_check_state := CHECK_STATE_HEADER\<rparr> \<Longrightarrow> r = NO_REQUEST \<Longrightarrow> keeps c c1"
    for c2 u c3 x c4 c5 url
  proof -
    assume a: "request_method c t = Inr (c2, Some u)" "request_version c2 u = Inr (c3, Some x)"
      "strip_scheme c3 ''http://'' = Inr c4" "strip_scheme c4 ''https://'' = Inr c5"
      and c1: "c1 = c5\<lparr>m_check_state := CHECK_STATE_HEADER\<rparr>"
    from a have "keeps c c5" by (meson all)
    then show "keeps c c1" by (simp add: c1 keeps_def)
  qed
qed

lemma headers_keeps: "parse_headers c t = Inr (c1, r) \<Longrightarrow> keeps c c1"
  unfolding parse_headers_def by (auto simp: keeps_def elim!: rbindE split: if_splits)

lemma content_keeps: "parse_content c t = Inr (c1, r) \<Longrightarrow> keeps c c1"
  by (auto simp: parse_content_def keeps_def elim!: rbindE split: if_splits)

lemma guard_keeps: "loop_guard c ls = Inr (d, st) \<Longrightarrow> keeps c d"
proof -
  assume g: "loop_guard c ls = Inr (d, st)"
  show ?thesis
  proof (cases "m_check_state c = CHECK_STATE_CONTENT \<and> ls = LINE_OK")
    case True
    with g show ?thesis by (auto simp: loop_guard_def)
  next
    case False
    with g have "parse_line c = Inr (d, st)" by (simp add: loop_guard_def split: if_splits)
    from parse_line_frame [OF this] have "d = c\<lparr>m_read_buf := m_read_buf d, m_checked_idx := m_checked_idx d\<rparr>" by blast
    moreover have "keeps c (c\<lparr>m_read_buf := x, m_checked_idx := y\<rparr>)" for x y by (simp add: keeps_def)
    ultimately show ?thesis by metis
  qed
qed

lemma read_loop_keeps: "read_loop c ls = Inr (c1, r) \<Longrightarrow> keeps c c1"
proof (induction c ls arbitrary: c1 r rule: read_loop.induct)
  case (1 c ls)
  from "1.prems" obtain d st where g: "loop_guard c ls = Inr (d, st)"
    by (cases "loop_guard c ls") (auto simp: read_loop.simps [of c ls])
  let ?d = "d\<lparr>m_start_line := m_checked_idx d\<rparr>"
  have kd: "keeps c ?d" using guard_keeps [OF g] by (simp add: keeps_def)
  show ?case
  proof (cases "st = LINE_OK")
    case False
    with "1.prems" read_loop_stop [OF g] guard_keeps [OF g] show ?thesis by auto
  next
    case True
    note turn = read_loop_turn [OF g [unfolded True]]
    have rec: "keeps c c1" if "keeps ?d e" and "read_loop e ls' = Inr (c1, r) \<Longrightarrow> keeps e c1"
      and "(e = c1) \<or> read_loop e ls' = Inr (c1, r)" for e ls'
      using that kd keeps_trans by blast
    show ?thesis
    proof (cases "m_check_state d")
      case CHECK_STATE_REQUESTLINE
      obtain p where e: "parse_request_line ?d (m_start_line d) = Inr p"
          "(if snd p = BAD_REQUEST then Inr (fst p, Return BAD_REQUEST) else read_loop (fst p) LINE_OK) = Inr (c1, r)"
        using "1.prems" turn(1) CHECK_STATE_REQUESTLINE by (auto elim: rbindE)
      show ?thesis
        by (rule rec [of "fst p" LINE_OK])
          (use e request_line_keeps [of ?d _ "fst p" "snd p"] "1.IH"(1) [OF g, of "get_line d" ?d p c1 r] True
            CHECK_STATE_REQUESTLINE in \<open>auto simp: get_line_def split: if_splits\<close>)
    next
      case CHECK_STATE_HEADER
      obtain p where e: "parse_headers ?d (m_start_line d) = Inr p"
          "(if snd p = BAD_REQUEST then Inr (fst p, Return BAD_REQUEST)
            else if snd p = GET_REQUEST then Inr (fst p, Dispatch) else read_loop (fst p) LINE_OK) = Inr (c1, r)"
        using "1.prems" turn(2) CHECK_STATE_HEADER by (auto elim: rbindE)
      show ?thesis
        by (rule rec [of "fst p" LINE_OK])
          (use e headers_keeps [of ?d _ "fst p" "snd p"] "1.IH"(2) [OF g, of "get_line d" ?d p c1 r] True
            CHECK_STATE_HEADER in \<open>auto simp: get_line_def split: if_splits\<close>)
    next
      case CHECK_STATE_CONTENT
      obtain p where e: "parse_content ?d (m_start_line d) = Inr p"
          "(if snd p = GET_REQUEST then Inr (fst p, Dispatch) else read_loop (fst p) LINE_OPEN) = Inr (c1, r)"
        using "1.prems" turn(3) CHECK_STATE_CONTENT by (auto elim: rbindE)
      show ?thesis
        by (rule rec [of "fst p" LINE_OPEN])
          (use e content_keeps [of ?d _ "fst p" "snd p"] "1.IH"(3) [OF g, of "get_line d" ?d p c1 r] True
            CHECK_STATE_CONTENT in \<open>auto simp: get_line_def split: if_splits\<close>)
    qed
  qed
qed

section \<open>From the bytes of a request to the bytes of the answer\<close>

lemma keeps_start: "keeps (init c) (store (init c) s)"
  by (simp add: keeps_def store_def)

lemma get_answered:
  assumes ready: "ready_conn c0 (render_request (method_name GET) url hs [])"
    and blank: "m_write_idx c0 = 0" "m_real_file c0 = blank" "bytes_have_send c0 = 0"
    and req: "wf_url url" "\<forall>h \<in> set hs. wf_header h" "foldl clen_step 0 hs = 0"
    and url: "CHR ''/'' \<in> set url" "url \<noteq> root_url" "url \<noteq> diagnose_url" "after_slash url \<noteq> CHR ''4''"
    and conn: "NUL \<notin> set (doc_root c0)" "length (doc_root c0) \<le> 180"
    and fil: "file_stat ext (doc_root c0 @ target (doc_root c0) url) = Some \<lparr>st_size = int (length s), st_iroth = True, st_isdir = False\<rparr>"
      "open_mmap ext (doc_root c0 @ target (doc_root c0) url) (int (length s)) = FA_Mapped s"
      "s \<noteq> []" "int (length s) + WRITE_BUFFER_SIZE \<le> INT_MAX"
  defines "l \<equiv> foldl linger_step False hs"
  obtains c1 where "process ext k w c0 = Inr (modfd k (m_sockfd c0) EPOLLOUT (m_TRIGMode c0), w, c1)"
    and "sending c1 (plain_head 200 ''OK'' (int (length s)) l) s 0" and "m_linger c1 = l"
    and "m_sockfd c1 = m_sockfd c0" and "m_TRIGMode c1 = m_TRIGMode c0"
proof -
  obtain d u where d: "read_loop c0 LINE_OK = Inr (d, Dispatch)" "cgi d = 0"
      "m_url d = Some u" "c_str READ_BUFFER_SIZE (m_read_buf d) u = Inr url" "m_linger d = l"
    using ready_request_parsed [of c0 GET url hs "[]"] ready req by (auto simp: l_def)
  have "keeps c0 d" by (rule read_loop_keeps [OF d(1)])
  then have k: "m_sockfd d = m_sockfd c0" "m_TRIGMode d = m_TRIGMode c0" "m_write_idx d = 0" "m_real_file d = blank"
      "doc_root d = doc_root c0" "bytes_have_send d = 0"
    using blank by (simp_all add: keeps_def)
  have "url_of d = Inr (u, url)" by (simp add: url_of_def d)
  moreover have "fresh_path d" using conn by (simp add: fresh_path_def k)
  ultimately obtain f where
    "do_request ext w d = Inr (w, file_result ext (doc_root d @ target (doc_root d) url) True (d\<lparr>m_real_file := f\<rparr>))"
    using static_file_route [OF _ url(1) _ d(2) url(2-4)] by blast
  moreover define e where "e = d\<lparr>m_real_file := f, m_file_stat := \<lparr>st_size = int (length s), st_iroth = True, st_isdir = False\<rparr>,
      m_file_address := FA_Mapped s\<rparr>"
  ultimately have r: "process_read ext w c0 = Inr (w, e, FILE_REQUEST)"
    by (simp add: process_read_def d(1) file_result_def k fil)
  have e: "wrote e []" "m_file_address e = FA_Mapped s" "st_size (m_file_stat e) = int (length s)" "bytes_have_send e = 0"
    "m_linger e = l" "m_sockfd e = m_sockfd c0" "m_TRIGMode e = m_TRIGMode c0"
    by (simp_all add: e_def wrote_def k d(5))
  let ?p = "process_write e FILE_REQUEST"
  have ok: "snd ?p" "m_sockfd (fst ?p) = m_sockfd c0" "m_TRIGMode (fst ?p) = m_TRIGMode c0" "m_linger (fst ?p) = l"
    using fil(3) by (simp_all add: process_write_def send_two_def e add_status_line_def Let_def)
  have send: "sending (fst ?p) (plain_head 200 ''OK'' (int (length s)) l) s 0"
    using sending_file [OF e(1-3) fil(3,4) e(4)] by (simp add: e(5))
  have "process ext k w c0 = Inr (modfd k (m_sockfd c0) EPOLLOUT (m_TRIGMode c0), w, fst ?p)"
    using ok by (cases ?p) (simp add: process_def r)
  then show ?thesis using send ok(4,2,3) by (rule that)
qed

text \<open>
  C3. A GET request for a file, received in one piece, is answered with that file: \<open>process\<close>
  leaves the response in the connection and asks for \<open>EPOLLOUT\<close>, and \<open>write\<close> sends the status
  line, the length of the file, the connection header and the file's bytes, as far as the
  socket takes them.
\<close>

theorem get_is_answered:
  assumes req: "wf_url url" "\<forall>h \<in> set hs. wf_header h" "foldl clen_step 0 hs = 0"
      "int (length (render_request (method_name GET) url hs [])) < READ_BUFFER_SIZE"
    and url: "CHR ''/'' \<in> set url" "url \<noteq> root_url" "url \<noteq> diagnose_url" "after_slash url \<noteq> CHR ''4''"
    and conn: "NUL \<notin> set (doc_root c)" "length (doc_root c) \<le> 180"
    and fil: "file_stat ext (doc_root c @ target (doc_root c) url) = Some \<lparr>st_size = int (length s), st_iroth = True, st_isdir = False\<rparr>"
      "open_mmap ext (doc_root c @ target (doc_root c) url) (int (length s)) = FA_Mapped s"
      "s \<noteq> []" "int (length s) + WRITE_BUFFER_SIZE \<le> INT_MAX"
  defines "head \<equiv> plain_head 200 ''OK'' (int (length s)) (foldl linger_step False hs)"
  shows "\<exists>c1. process ext k w (store (init c) (render_request (method_name GET) url hs [])) =
      Inr (modfd k (m_sockfd c) EPOLLOUT (m_TRIGMode c), w, c1)
    \<and> (\<forall>j rs. header_ok (length head) 0 rs \<longrightarrow> (\<exists>k2 c2 ret. write_conn j c1 rs =
        Inr (k2, c2, take (fst (deliver (length (head @ s)) 0 rs)) (head @ s), ret)))"
proof -
  let ?c0 = "store (init c) (render_request (method_name GET) url hs [])"
  have same: "m_sockfd ?c0 = m_sockfd c" "m_TRIGMode ?c0 = m_TRIGMode c" "doc_root ?c0 = doc_root c"
    "m_write_idx ?c0 = 0" "m_real_file ?c0 = blank" "bytes_have_send ?c0 = 0"
    by (simp_all add: store_def init_def)
  obtain c1 where c1: "process ext k w ?c0 = Inr (modfd k (m_sockfd c) EPOLLOUT (m_TRIGMode c), w, c1)"
      "sending c1 head s 0"
    by (rule get_answered [OF ready_stored [OF req(4)] same(4-6) req(1-3) url conn [folded same(3)] fil [folded same(3)], of k w])
      (simp add: same head_def)
  have "\<exists>k2 c2 ret. write_conn j c1 rs = Inr (k2, c2, take (fst (deliver (length (head @ s)) 0 rs)) (head @ s), ret)"
    if "header_ok (length head) 0 rs" for j rs
    using write_loop_delivers [OF c1(2) that, of j] sending_to_send [OF c1(2)] by (auto simp: write_conn_def)
  with c1(1) show ?thesis by blast
qed

theorem get_is_answered_witness:
  "\<forall>k. \<exists>c1 k2 c2 ret. process demo_ext k demo_world (store (init zero_conn)
        (render_request (method_name GET) ''/a.html'' [''Host: x''] [])) = Inr (modfd k 0 EPOLLOUT 0, demo_world, c1)
    \<and> write_conn (modfd k 0 EPOLLOUT 0) c1 [Sent 1000] =
        Inr (k2, c2, plain_head 200 ''OK'' 5 False @ ''hello'', ret)"
proof
  fix k
  let ?h = "plain_head 200 ''OK'' 5 False"
  have len: "length (?h @ ''hello'') \<le> 1000" "length ?h \<le> 1000"
    by (simp_all add: plain_head_def message_defs show_int_def show_nat.simps)
  have hs: "foldl linger_step False [''Host: x''] = False" "foldl clen_step 0 [''Host: x''] = 0"
    by (simp_all add: linger_step_def clen_step_def is_header_def casecmp_eq_def tolower_def)
  have req: "wf_url ''/a.html''" "\<forall>h \<in> set [''Host: x'']. wf_header h"
      "int (length (render_request (method_name GET) ''/a.html'' [''Host: x''] [])) < READ_BUFFER_SIZE"
    by (simp_all add: wf_url_def wf_header_def no_eol_def no_blank_def render_request_def render_headers_def
        method_name_def READ_BUFFER_SIZE_def)
  obtain c1 where c1: "process demo_ext k demo_world (store (init zero_conn)
        (render_request (method_name GET) ''/a.html'' [''Host: x''] [])) =
        Inr (modfd k (m_sockfd zero_conn) EPOLLOUT (m_TRIGMode zero_conn), demo_world, c1)"
      "\<forall>j rs. header_ok (length ?h) 0 rs \<longrightarrow> (\<exists>k2 c2 ret. write_conn j c1 rs =
        Inr (k2, c2, take (fst (deliver (length (?h @ ''hello'')) 0 rs)) (?h @ ''hello''), ret))"
  proof -
    have t: "target [] ''/a.html'' = ''/a.html''" "after_slash ''/a.html'' = CHR ''a''"
      by (simp_all add: target_def after_slash_def page_of_def)
    show thesis
      by (rule exE [OF get_is_answered [OF req(1,2) hs(2) req(3), of zero_conn demo_ext "''hello''" k demo_world]],
          unfold hs(1)) (use that in \<open>auto simp: t root_url_def diagnose_url_def zero_conn_def demo_ext_def WBS INT_MAX_def\<close>)
  qed
  have "header_ok (length ?h) 0 [Sent 1000]" "deliver (length (?h @ ''hello'')) 0 [Sent 1000] = (length (?h @ ''hello''), Done)"
    using len by simp_all
  then obtain k2 c2 ret where "write_conn (modfd k 0 EPOLLOUT 0) c1 [Sent 1000] = Inr (k2, c2, ?h @ ''hello'', ret)"
    using c1(2) by fastforce
  with c1(1) show "\<exists>c1 k2 c2 ret. process demo_ext k demo_world (store (init zero_conn)
        (render_request (method_name GET) ''/a.html'' [''Host: x''] [])) = Inr (modfd k 0 EPOLLOUT 0, demo_world, c1)
    \<and> write_conn (modfd k 0 EPOLLOUT 0) c1 [Sent 1000] =
        Inr (k2, c2, plain_head 200 ''OK'' 5 False @ ''hello'', ret)"
    by (auto simp: zero_conn_def)
qed

section \<open>The database connection of a request\<close>

lemma add_response_same [simp]: "mysql (fst (add_response c t)) = mysql c" "m_sockfd (fst (add_response c t)) = m_sockfd c"
  by (simp_all add: add_response_def Let_def)

lemma add_headers_same [simp]: "mysql (fst (add_headers c n)) = mysql c" "m_sockfd (fst (add_headers c n)) = m_sockfd c"
  by (simp_all add: add_headers_def and_then_def add_defs)

lemma content_or_fail_same [simp]: "mysql (fst (content_or_fail c t)) = mysql c" "m_sockfd (fst (content_or_fail c t)) = m_sockfd c"
proof -
  have "mysql (fst (add_content c t)) = mysql c" "m_sockfd (fst (add_content c t)) = m_sockfd c" by (simp_all add: add_content_def)
  then show "mysql (fst (content_or_fail c t)) = mysql c" "m_sockfd (fst (content_or_fail c t)) = m_sockfd c"
    by (simp_all add: content_or_fail_def send_buffer_def case_prod_beta)
qed

lemma process_write_same: "mysql (fst (process_write c ret)) = mysql c" "m_sockfd (fst (process_write c ret)) = m_sockfd c"
proof -
  have "mysql (fst (send_two d b n)) = mysql d" "mysql (fst (send_buffer d)) = mysql d"
    "m_sockfd (fst (send_two d b n)) = m_sockfd d" "m_sockfd (fst (send_buffer d)) = m_sockfd d" for d b n
    by (simp_all add: send_two_def send_buffer_def Let_def)
  then show "mysql (fst (process_write c ret)) = mysql c" "m_sockfd (fst (process_write c ret)) = m_sockfd c"
    by (cases ret; simp add: process_write_def Let_def add_status_line_def add_content_length_def
        add_content_type_def add_linger_def add_blank_line_def)+
qed

lemma redirect_same: "redirect c ls = (c1, r) \<Longrightarrow> mysql c1 = mysql c \<and> m_sockfd c1 = m_sockfd c"
proof -
  have "mysql (foldl (\<lambda>d l. fst (add_response d l)) d ls) = mysql d"
    "m_sockfd (foldl (\<lambda>d l. fst (add_response d l)) d ls) = m_sockfd d" for d by (induction ls arbitrary: d) simp_all
  then show "redirect c ls = (c1, r) \<Longrightarrow> mysql c1 = mysql c \<and> m_sockfd c1 = m_sockfd c" by (auto simp: redirect_def add_defs)
qed

lemma serve_file_same: "serve_file ext c b = Inr (c1, r) \<Longrightarrow> mysql c1 = mysql c \<and> m_sockfd c1 = m_sockfd c"
  by (auto simp: serve_file_def Let_def elim!: rbindE split: option.splits if_splits)

lemma set_url_same: "set_url c u s = Inr c1 \<Longrightarrow> mysql c1 = mysql c \<and> m_sockfd c1 = m_sockfd c"
  by (auto simp: set_url_def elim!: rbindE)

lemma check_login_same: "check_login ext w c url = Inr (w1, c1, r) \<Longrightarrow> mysql c1 = mysql c \<and> m_sockfd c1 = m_sockfd c"
  by (auto simp: check_login_def elim!: rbindE split: prod.splits if_splits dest!: redirect_same serve_file_same)

lemma run_diagnose_same: "run_diagnose ext c = Inr (c1, r) \<Longrightarrow> mysql c1 = mysql c \<and> m_sockfd c1 = m_sockfd c"
  by (auto simp: run_diagnose_def elim!: rbindE split: option.splits diag_answer.splits)

lemma account_same: "account ext w c u p len = Inr (w1, c1, r) \<Longrightarrow> mysql c1 = mysql c \<and> m_sockfd c1 = m_sockfd c"
  by (auto simp: account_def register_user_def login_user_def Let_def elim!: rbindE
      split: prod.splits if_splits option.splits dest!: redirect_same set_url_same)

lemma last_part_same: "last_part ext w c p len = Inr (w1, c1, r) \<Longrightarrow> mysql c1 = mysql c \<and> m_sockfd c1 = m_sockfd c"
  by (auto simp: last_part_def logout_def static_path_def Let_def elim!: rbindE
      split: prod.splits if_splits option.splits dest!: redirect_same serve_file_same)

lemma do_request_same: "do_request ext w c = Inr (w1, c1, r) \<Longrightarrow> mysql c1 = mysql c \<and> m_sockfd c1 = m_sockfd c"
  by (auto simp: do_request_def route_def Let_def elim!: rbindE split: option.splits if_splits
      dest!: check_login_same run_diagnose_same account_same last_part_same)

lemma process_mysql:
  assumes "process ext k w c = Inr (k1, w1, c1)"
  shows "mysql c1 = mysql c"
proof -
  obtain d ret v where r: "process_read ext w c = Inr (v, d, ret)"
    using assms by (auto simp: process_def elim: rbindE)
  have m: "mysql d = mysql c"
  proof -
    obtain e x where e: "read_loop c LINE_OK = Inr (e, x)" using r by (auto simp: process_read_def elim: rbindE)
    with read_loop_keeps [OF e] r show ?thesis
      by (cases x) (auto simp: process_read_def keeps_def dest!: do_request_same)
  qed
  show ?thesis
  proof (cases "ret = NO_REQUEST")
    case True
    with assms r m show ?thesis by (simp add: process_def)
  next
    case False
    obtain f b where f: "process_write d ret = (f, b)" by force
    then have "mysql f = mysql d" using process_write_same [of d ret] by simp
    moreover have "mysql c1 = mysql f"
      using assms r False f by (cases b) (auto simp: process_def close_conn_def Let_def split: if_splits)
    ultimately show ?thesis using m by simp
  qed
qed

lemma serve_get_taken:
  assumes "connList p = con # rest" and "0 < reserve p"
  shows "serve_get (Some p) c = Some (Inr (Some (p\<lparr>reserve := reserve p - 1, connList := rest,
      m_FreeConn := m_FreeConn p - 1, m_CurConn := m_CurConn p + 1\<rparr>), c\<lparr>mysql := Some con\<rparr>))"
  using assms by (simp add: serve_get_def GetConnection_def get_check_def get_reserve_def sem_wait_def get_take_def)

text \<open>
  C28. A worker that nobody interrupts gives its database connection back, whatever the request
  is and however it ends: the pool has the same connections, the first one now last, and the
  request holds none.
\<close>

theorem worker_returns_connection:
  assumes "served a c" and "connList p = con # rest" and "0 < reserve p"
    and "serve ext a (Some p) k w c = Some (Inr (p', k', w', c'))"
  shows "p' = Some (p\<lparr>connList := rest @ [con]\<rparr>) \<and> mysql c' = None"
proof -
  let ?p1 = "p\<lparr>reserve := reserve p - 1, connList := rest, m_FreeConn := m_FreeConn p - 1, m_CurConn := m_CurConn p + 1\<rparr>"
  obtain c2 where c2: "process ext k w (c\<lparr>mysql := Some con\<rparr>) = Inr (k', w', c2)"
      "serve_release (Some ?p1) c2 = (p', c')"
    using assms(4) serve_get_taken [OF assms(2,3), of c] by (auto simp: serve_def assms(1) elim!: rbindE split: prod.splits)
  from process_mysql [OF c2(1)] have "mysql c2 = Some con" by simp
  with c2(2) show ?thesis
    by (auto simp: serve_release_def ReleaseConnection_def release_push_def release_post_def sem_post_def)
qed

theorem worker_returns_connection_witness:
  "\<forall>k. \<exists>p p' k' w' c'. init_pool new_pool 3306 [Some 5, Some 6] = Some p
    \<and> serve demo_ext 0 (Some p) k demo_world (init zero_conn) = Some (Inr (Some p', k', w', c'))
    \<and> connList p' = [6, 5] \<and> mysql c' = None"
proof
  fix k
  obtain p where p: "init_pool new_pool 3306 [Some 5, Some 6] = Some p" "connList p = [5, 6]" "0 < reserve p"
    by (auto simp: init_pool_def new_pool_def sem_init_def Let_def)
  let ?c = "(init zero_conn)\<lparr>mysql := Some 5\<rparr>"
  have "read_loop ?c LINE_OK = Inr (?c, Return NO_REQUEST)"
    by (subst read_loop.simps) (simp add: loop_guard_def parse_line.simps init_def)
  then have "\<exists>k' w' c2. process demo_ext k demo_world ?c = Inr (k', w', c2)"
    by (simp add: process_def process_read_def)
  then obtain p' k' w' c' where s: "serve demo_ext 0 (Some p) k demo_world (init zero_conn) = Some (Inr (p', k', w', c'))"
    using serve_get_taken [OF p(2,3), of "init zero_conn"]
    by (fastforce simp: serve_def served_def split: prod.splits)
  from worker_returns_connection [OF _ p(2,3) s] p s
  show "\<exists>p p' k' w' c'. init_pool new_pool 3306 [Some 5, Some 6] = Some p
    \<and> serve demo_ext 0 (Some p) k demo_world (init zero_conn) = Some (Inr (Some p', k', w', c'))
    \<and> connList p' = [6, 5] \<and> mysql c' = None"
    by (intro exI [of _ p] exI [of _ "p\<lparr>connList := [6, 5]\<rparr>"] exI [of _ k'] exI [of _ w'] exI [of _ c']) (simp add: served_def)
qed

text \<open>
  But the connection is also in the main thread's hands from \<open>modfd(EPOLLOUT)\<close> on, before the
  worker gets to its test of \<open>mysql\<close>. When the main thread has then sent a keep-alive response,
  \<open>init\<close> has set \<open>mysql\<close> to null, and the worker gives nothing back: the pool has lost a
  connection for good.
\<close>

theorem keep_alive_leaks_connection:
  assumes "connList p = con # rest" and "0 < reserve p"
    and "sending c2 h body 0" and "m_linger c2" and "length (h @ body) \<le> n"
  shows "\<exists>p1 k' c3. serve_get (Some p) c = Some (Inr (Some p1, c\<lparr>mysql := Some con\<rparr>))
    \<and> write_conn k c2 [Sent n] = Inr (k', c3, h @ body, True)
    \<and> serve_release (Some p1) c3 = (Some p1, c3)
    \<and> connList p1 = rest \<and> reserve p1 = reserve p - 1"
proof -
  have d: "deliver (length (h @ body)) 0 [Sent n] = (length (h @ body), Done)" using assms(5) by simp
  have "header_ok (length h) 0 [Sent n]" by simp
  from write_loop_delivers [OF assms(3) this, of k, unfolded d]
  obtain k' c3 ret where w: "write_loop k c2 [Sent n] = Inr (k', c3, h @ body, ret)"
      and o: "wrote_out k c2 h body (length (h @ body), Done) (k', c3, ret)"
    by auto
  from o assms(4) have "ret" "mysql c3 = None" by (simp_all add: wrote_out_def)
  with w sending_to_send [OF assms(3)] serve_get_taken [OF assms(1,2), of c]
  show ?thesis by (simp add: write_conn_def serve_release_def)
qed

definition linger_conn :: http_conn where
  "linger_conn = file_conn\<lparr>m_linger := True\<rparr>"

theorem keep_alive_leaks_connection_witness:
  "\<forall>c. \<exists>p p1 c3. init_pool new_pool 3306 [Some 5] = Some p \<and> serve_get (Some p) c = Some (Inr (Some p1, c\<lparr>mysql := Some 5\<rparr>))
    \<and> serve_release (Some p1) c3 = (Some p1, c3) \<and> connList p1 = []"
proof
  fix c
  obtain p where p: "init_pool new_pool 3306 [Some 5] = Some p" "connList p = [5]" "0 < reserve p"
    by (auto simp: init_pool_def new_pool_def sem_init_def Let_def)
  have "sending (fst (process_write linger_conn FILE_REQUEST)) (plain_head 200 ''OK'' 5 True) ''hello'' 0"
    using sending_file [of linger_conn "''hello''"]
    by (simp add: wrote_def linger_conn_def file_conn_def zero_conn_def WBS INT_MAX_def)
  moreover have "m_linger (fst (process_write linger_conn FILE_REQUEST))"
    by (simp add: process_write_def linger_conn_def file_conn_def send_two_def add_status_line_def Let_def)
  ultimately have "\<exists>p1 k' c3. serve_get (Some p) c = Some (Inr (Some p1, c\<lparr>mysql := Some 5\<rparr>))
    \<and> write_conn \<lparr>fd_open = (\<lambda>_. False), fd_nonblock = (\<lambda>_. False), ep_table = (\<lambda>_. None), m_user_count = 0\<rparr>
        (fst (process_write linger_conn FILE_REQUEST)) [Sent (length (plain_head 200 ''OK'' 5 True @ ''hello''))]
        = Inr (k', c3, plain_head 200 ''OK'' 5 True @ ''hello'', True)
    \<and> serve_release (Some p1) c3 = (Some p1, c3) \<and> connList p1 = [] \<and> reserve p1 = reserve p - 1"
    using p(2,3) by (intro keep_alive_leaks_connection) simp_all
  with p(1) show "\<exists>p p1 c3. init_pool new_pool 3306 [Some 5] = Some p \<and> serve_get (Some p) c = Some (Inr (Some p1, c\<lparr>mysql := Some 5\<rparr>))
    \<and> serve_release (Some p1) c3 = (Some p1, c3) \<and> connList p1 = []" by blast
qed

section \<open>Loading the users\<close>

text \<open>
  Loading reads every row, the last row of a user wins, and the pool's connection is back.
\<close>

theorem initmysql_loads_users:
  assumes "connList p = con # rest" and "0 < reserve p"
  shows "initmysql_result (Some (map (\<lambda>(a, b). (Some a, Some b)) rows)) p us =
    Some (Inr (p\<lparr>connList := rest @ [con]\<rparr>, us ++ map_of (rev rows)))"
proof -
  have "load_users (map (\<lambda>(a, b). (Some a, Some b)) rows) us = Inr (us ++ map_of (rev rows))" for us
    by (induction rows arbitrary: us) (auto simp: map_add_def fun_eq_iff split: option.splits)
  then show ?thesis
    using assms by (simp add: initmysql_result_def connectionRAII_def end_connectionRAII_def GetConnection_def get_check_def get_reserve_def sem_wait_def
        get_take_def ReleaseConnection_def release_post_def release_push_def sem_post_def)
qed

theorem initmysql_loads_users_witness:
  "\<exists>p p' us. init_pool new_pool 3306 [Some 5] = Some p
    \<and> initmysql_result (Some [(Some ''eve'', Some ''a''), (Some ''eve'', Some ''b'')]) p (\<lambda>_. None) = Some (Inr (p', us))
    \<and> us ''eve'' = Some ''b''"
proof -
  obtain p where p: "init_pool new_pool 3306 [Some 5] = Some p" "connList p = [5]" "0 < reserve p"
    by (auto simp: init_pool_def new_pool_def sem_init_def Let_def)
  with initmysql_loads_users [OF p(2,3), of "[(''eve'', ''a''), (''eve'', ''b'')]" "\<lambda>_. None"] show ?thesis by simp
qed

end
