(* ===== verification/Memory_Pool.thy ===== *)
theory Memory_Pool
  imports Prelude
begin

text \<open>
  \<open>MemoryPool<T, BlockSize>\<close> (\<open>lock/memory_pool.h\<close>): the pool from which the timers come.

  The memory of the pool is a map from addresses to cells; an address is the number of a block
  and an index in it (\<open>Addr b i\<close>). A cell of raw memory that has been written holds either the embedded
  pointer to the next free cell or an object. Each operation runs under \<open>m_mutex\<close>, so
  operations are steps from one state to the next. \<open>BlockSize\<close> is an argument. \<open>allocate\<close> and
  \<open>deallocate\<close> are what \<open>util_timer\<close>'s \<open>operator new\<close> and \<open>operator delete\<close> call;
  \<open>new_object\<close> and \<open>delete_object\<close> add the constructor and the requirement that a deleted
  object is alive.

  The interface to the users of the pool is the locale \<open>object_heap\<close>: creating an object gives
  an address that no living object has, and no operation touches other objects.
\<close>

datatype addr = Addr nat nat

datatype 'a cell = Free_Link "addr option" | Obj 'a

record 'a memory_pool =
  m_free_list :: "addr option"
  m_blocks :: "nat list"
  cells :: "addr \<Rightarrow> 'a cell option"

definition empty_pool :: "'a memory_pool" where
  "empty_pool = \<lparr>m_free_list = None, m_blocks = [], cells = (\<lambda>_. None)\<rparr>"

text \<open>Cutting a new block into cells, each linked to the next.\<close>

fun link_cells :: "nat \<Rightarrow> nat \<Rightarrow> (addr \<Rightarrow> 'a cell option) \<Rightarrow> (addr \<Rightarrow> 'a cell option)" where
  "link_cells b 0 m = m"
| "link_cells b (Suc k) m = (link_cells b k m)((Addr b k) \<mapsto> Free_Link (Some (Addr b (k + 1))))"

definition carve :: "nat \<Rightarrow> nat \<Rightarrow> (addr \<Rightarrow> 'a cell option) \<Rightarrow> (addr \<Rightarrow> 'a cell option)" where
  "carve BlockSize b m =
     (link_cells b (BlockSize - 1) m)((Addr b (BlockSize - 1)) \<mapsto> Free_Link None)"

definition allocate :: "nat \<Rightarrow> 'a memory_pool \<Rightarrow> ('a memory_pool \<times> addr) res" where
  "allocate BlockSize h =
     (case m_free_list h of
        Some p \<Rightarrow>
          (case cells h p of
             Some (Free_Link next_free) \<Rightarrow> Inr (h\<lparr>m_free_list := next_free\<rparr>, p)
           | Some (Obj _) \<Rightarrow> Inl Use_After_Free
           | None \<Rightarrow> Inl Out_Of_Bounds)
      | None \<Rightarrow>
          let b = length (m_blocks h)
          in Inr (h\<lparr>m_blocks := m_blocks h @ [b], cells := carve BlockSize b (cells h),
                    m_free_list := Some (Addr b 1)\<rparr>, (Addr b 0)))"

definition deallocate :: "'a memory_pool \<Rightarrow> addr \<Rightarrow> 'a memory_pool res" where
  "deallocate h p =
     (if cells h p = None then Inl Out_Of_Bounds
      else Inr (h\<lparr>cells := (cells h)(p \<mapsto> Free_Link (m_free_list h)), m_free_list := Some p\<rparr>))"

section \<open>Objects\<close>

definition view :: "'a memory_pool \<Rightarrow> addr \<Rightarrow> 'a option" where
  "view h p = (case cells h p of Some (Obj x) \<Rightarrow> Some x | _ \<Rightarrow> None)"

definition new_object :: "nat \<Rightarrow> 'a memory_pool \<Rightarrow> 'a \<Rightarrow> ('a memory_pool \<times> addr) res" where
  "new_object BlockSize h x =
     rbind (allocate BlockSize h) (\<lambda>(h1, p). Inr (h1\<lparr>cells := (cells h1)(p \<mapsto> Obj x)\<rparr>, p))"

definition delete_object :: "'a memory_pool \<Rightarrow> addr \<Rightarrow> 'a memory_pool res" where
  "delete_object h p = (if view h p = None then Inl Use_After_Free else deallocate h p)"

text \<open>Reading and assigning the members of the object at an address.\<close>

definition obj :: "'a memory_pool \<Rightarrow> addr \<Rightarrow> 'a res" where
  "obj h p = (case view h p of Some x \<Rightarrow> Inr x | None \<Rightarrow> Inl Use_After_Free)"

definition upd :: "'a memory_pool \<Rightarrow> addr \<Rightarrow> ('a \<Rightarrow> 'a) \<Rightarrow> 'a memory_pool res" where
  "upd h p f = (case view h p of
     Some x \<Rightarrow> Inr (h\<lparr>cells := (cells h)(p \<mapsto> Obj (f x))\<rparr>)
   | None \<Rightarrow> Inl Use_After_Free)"

section \<open>The invariant\<close>

fun free_chain :: "(addr \<Rightarrow> 'a cell option) \<Rightarrow> addr option \<Rightarrow> addr list \<Rightarrow> bool" where
  "free_chain m p [] = (p = None)"
| "free_chain m p (x # xs) = (p = Some x \<and> (\<exists>q. m x = Some (Free_Link q) \<and> free_chain m q xs))"

text \<open>
  The cells are those of the blocks; the free ones form one chain without repetition that
  starts at \<open>m_free_list\<close>.
\<close>

definition free_cells :: "'a memory_pool \<Rightarrow> addr set" where
  "free_cells h = {p. \<exists>q. cells h p = Some (Free_Link q)}"

definition pool_free :: "'a memory_pool \<Rightarrow> addr list \<Rightarrow> bool" where
  "pool_free h xs \<longleftrightarrow>
     free_chain (cells h) (m_free_list h) xs \<and> distinct xs \<and> set xs = free_cells h"

definition pool_cells :: "nat \<Rightarrow> 'a memory_pool \<Rightarrow> bool" where
  "pool_cells BlockSize h \<longleftrightarrow>
     (\<forall>b i. cells h (Addr b i) \<noteq> None \<longleftrightarrow> b < length (m_blocks h) \<and> i < BlockSize)"

definition pool_inv :: "nat \<Rightarrow> 'a memory_pool \<Rightarrow> bool" where
  "pool_inv BlockSize h \<longleftrightarrow> pool_cells BlockSize h \<and> (\<exists>xs. pool_free h xs)"

lemma free_chain_cong:
  "free_chain m p xs \<Longrightarrow> (\<And>x. x \<in> set xs \<Longrightarrow> m' x = m x) \<Longrightarrow> free_chain m' p xs"
  by (induction xs arbitrary: p) fastforce+

lemma free_chain_upd: "free_chain m p xs \<Longrightarrow> y \<notin> set xs \<Longrightarrow> free_chain (m(y := z)) p xs"
  by (erule free_chain_cong) auto

lemma link_cells:
  "link_cells b n m (Addr b' i) =
     (if b' = b \<and> i < n then Some (Free_Link (Some (Addr b (i + 1)))) else m (Addr b' i))"
  by (induction n) auto

lemma carve_cells:
  assumes "0 < n"
  shows "carve n b m (Addr b' i) =
     (if b' = b \<and> i < n then Some (Free_Link (if i = n - 1 then None else Some (Addr b (i + 1)))) else m (Addr b' i))"
  using assms by (auto simp: carve_def link_cells)

lemma carve_chain:
  assumes "k < n"
  shows "free_chain (carve n b m) (Some (Addr b k)) (map (Addr b) [k..<n])"
  using assms
proof (induction "n - k" arbitrary: k)
  case (Suc d)
  show ?case
  proof (cases "Suc k < n")
    case True
    with Suc.hyps(1) [of "Suc k"] Suc.hyps(2) show ?thesis
      by (simp add: upt_conv_Cons carve_cells)
  next
    case False
    with Suc.prems have "n = Suc k" by simp
    then show ?thesis by (simp add: carve_cells)
  qed
qed simp

lemma pool_inv_empty: "pool_inv n empty_pool"
  by (auto simp: pool_inv_def pool_cells_def pool_free_def empty_pool_def free_cells_def
      intro: exI [of _ "[]"])

section \<open>The operations\<close>

lemma view_upd [simp]:
  "view (h\<lparr>cells := (cells h)(p \<mapsto> Obj x)\<rparr>) = (view h)(p \<mapsto> x)"
  by (auto simp: view_def fun_eq_iff)

lemma view_None_iff: "view h p = None \<longleftrightarrow> cells h p = None \<or> p \<in> free_cells h"
  by (auto simp: view_def free_cells_def split: option.splits cell.splits)

text \<open>A free cell is reused, last freed first; a block is requested only when none is left.\<close>

lemma new_object_reuse:
  assumes "pool_free h (p # xs)"
  shows "new_object n h x =
    Inr (h\<lparr>m_free_list := (case xs of [] \<Rightarrow> None | q # _ \<Rightarrow> Some q), cells := (cells h)(p \<mapsto> Obj x)\<rparr>, p)"
    and "pool_free (h\<lparr>m_free_list := (case xs of [] \<Rightarrow> None | q # _ \<Rightarrow> Some q), cells := (cells h)(p \<mapsto> Obj x)\<rparr>) xs"
proof -
  obtain q where q: "m_free_list h = Some p" "cells h p = Some (Free_Link q)" "free_chain (cells h) q xs"
    and d: "distinct (p # xs)" and set: "insert p (set xs) = free_cells h"
    using assms by (auto simp: pool_free_def)
  have hd: "q = (case xs of [] \<Rightarrow> None | q # _ \<Rightarrow> Some q)" using q(3) by (cases xs) auto
  then show "new_object n h x =
      Inr (h\<lparr>m_free_list := (case xs of [] \<Rightarrow> None | q # _ \<Rightarrow> Some q), cells := (cells h)(p \<mapsto> Obj x)\<rparr>, p)"
    using q by (simp add: new_object_def allocate_def)
  have "set xs = free_cells (h\<lparr>m_free_list := q, cells := (cells h)(p \<mapsto> Obj x)\<rparr>)"
    using set d by (auto simp: free_cells_def split: if_splits)
  then show "pool_free (h\<lparr>m_free_list := (case xs of [] \<Rightarrow> None | q # _ \<Rightarrow> Some q), cells := (cells h)(p \<mapsto> Obj x)\<rparr>) xs"
    using q(3) d hd by (simp add: pool_free_def free_chain_upd)
qed

lemma new_object_block:
  fixes h :: "'a memory_pool" and x :: 'a
  assumes "pool_cells n h" and "pool_free h []" and "1 < n"
  defines "b \<equiv> length (m_blocks h)"
  defines "h' \<equiv> h\<lparr>m_blocks := m_blocks h @ [b], cells := (carve n b (cells h))((Addr b 0) \<mapsto> Obj x), m_free_list := Some (Addr b 1)\<rparr>"
  shows "new_object n h x = Inr (h', (Addr b 0))" and "pool_free h' (map (Addr b) [1..<n])"
    and "view h' = (view h)((Addr b 0) \<mapsto> x)" and "view h (Addr b 0) = None"
proof -
  have none: "m_free_list h = None" "free_cells h = {}" using assms(2) by (simp_all add: pool_free_def)
  have fresh: "cells h (Addr b i) = None" for i
    using assms(1) by (force simp: pool_cells_def b_def)
  show "new_object n h x = Inr (h', (Addr b 0))"
    using none by (simp add: new_object_def allocate_def Let_def h'_def b_def)
  have c: "cells h' (Addr b' i) = (if b' = b \<and> i = 0 then Some (Obj x)
      else if b' = b \<and> i < n then Some (Free_Link (if i = n - 1 then None else Some (Addr b (i + 1))))
      else cells h (Addr b' i))" for b' i
    using assms(3) by (simp add: h'_def carve_cells)
  have "free_chain (carve n b (cells h)) (Some (Addr b 1)) (map (Addr b) [1..<n])"
    by (rule carve_chain) (rule assms(3))
  then have "free_chain (cells h') (Some (Addr b 1)) (map (Addr b) [1..<n])"
    by (rule free_chain_cong) (auto simp: h'_def)
  moreover have "set (map (Addr b) [1..<n]) = free_cells h'"
  proof (rule set_eqI)
    fix p
    show "p \<in> set (map (Addr b) [1..<n]) \<longleftrightarrow> p \<in> free_cells h'"
      using none(2) by (cases p) (auto simp: free_cells_def c)
  qed
  ultimately show "pool_free h' (map (Addr b) [1..<n])"
    by (simp add: pool_free_def distinct_map inj_on_def h'_def)
  show "view h (Addr b 0) = None" by (simp add: view_def fresh)
  show "view h' = (view h)((Addr b 0) \<mapsto> x)"
  proof
    fix p
    show "view h' p = ((view h)((Addr b 0) \<mapsto> x)) p"
      by (cases p) (auto simp: view_def c fresh)
  qed
qed

lemma new_object_ok:
  assumes "pool_inv n h" and "1 < n"
  obtains h' p where "new_object n h x = Inr (h', p)" and "pool_inv n h'" and "view h p = None"
    and "view h' = (view h)(p \<mapsto> x)"
proof -
  obtain xs where cells: "pool_cells n h" and free: "pool_free h xs"
    using assms(1) by (auto simp: pool_inv_def)
  show ?thesis
  proof (cases xs)
    case Nil
    note new = new_object_block(1-3) [OF cells free [unfolded Nil] assms(2), where x = x]
    show ?thesis
    proof (rule that [OF new(1)])
      show "view h (Addr (length (m_blocks h)) 0) = None"
        by (rule new_object_block(4) [OF cells free [unfolded Nil] assms(2)])
    qed (use cells new(2,3) assms(2) in \<open>auto simp: pool_inv_def pool_cells_def carve_cells\<close>)
  next
    case (Cons p ps)
    note new = new_object_reuse(1) [OF free [unfolded Cons], of n x]
      new_object_reuse(2) [OF free [unfolded Cons], of x]
    have p: "p \<in> free_cells h" using free Cons by (auto simp: pool_free_def)
    show ?thesis
    proof (rule that [OF new(1)])
      show "view h p = None" using p by (simp add: view_None_iff)
      show "view (h\<lparr>m_free_list := (case ps of [] \<Rightarrow> None | q # _ \<Rightarrow> Some q), cells := (cells h)(p \<mapsto> Obj x)\<rparr>) = (view h)(p \<mapsto> x)"
        by (auto simp: view_def fun_eq_iff)
    next
      show "pool_inv n (h\<lparr>m_free_list := (case ps of [] \<Rightarrow> None | q # _ \<Rightarrow> Some q), cells := (cells h)(p \<mapsto> Obj x)\<rparr>)"
        unfolding pool_inv_def
      proof
        show "pool_cells n (h\<lparr>m_free_list := (case ps of [] \<Rightarrow> None | q # _ \<Rightarrow> Some q), cells := (cells h)(p \<mapsto> Obj x)\<rparr>)"
          using cells p by (auto simp: pool_cells_def free_cells_def)
      qed (use new(2) in blast)
    qed
  qed
qed

lemma delete_object_ok:
  assumes "pool_inv n h" and "view h p \<noteq> None"
  obtains h' where "delete_object h p = Inr h'" and "pool_inv n h'" and "view h' = (view h)(p := None)"
    and "m_free_list h' = Some p" and "m_blocks h' = m_blocks h"
proof -
  let ?h' = "h\<lparr>cells := (cells h)(p \<mapsto> Free_Link (m_free_list h)), m_free_list := Some p\<rparr>"
  obtain xs where cells: "pool_cells n h" and free: "pool_free h xs"
    using assms(1) by (auto simp: pool_inv_def)
  have p: "cells h p \<noteq> None" "p \<notin> set xs"
    using assms(2) free by (auto simp: view_None_iff pool_free_def)
  have "free_cells ?h' = insert p (free_cells h)" by (auto simp: free_cells_def split: if_splits)
  then have "pool_free ?h' (p # xs)" using free p by (simp add: pool_free_def free_chain_upd)
  moreover have "pool_cells n ?h'" using cells p by (auto simp: pool_cells_def)
  ultimately have "pool_inv n ?h'" by (auto simp: pool_inv_def)
  moreover have "delete_object h p = Inr ?h'" using assms(2) p by (simp add: delete_object_def deallocate_def)
  moreover have "view ?h' = (view h)(p := None)" by (auto simp: view_def fun_eq_iff)
  ultimately show ?thesis using that by simp
qed

section \<open>The interface\<close>

locale object_heap =
  fixes ok :: "'h \<Rightarrow> bool"
    and look :: "'h \<Rightarrow> 'p \<Rightarrow> 'a option"
    and create :: "'h \<Rightarrow> 'a \<Rightarrow> ('h \<times> 'p) res"
    and remove :: "'h \<Rightarrow> 'p \<Rightarrow> 'h res"
  assumes create_law: "ok h \<Longrightarrow> \<exists>h' p. create h x = Inr (h', p) \<and> ok h' \<and> look h p = None
      \<and> look h' = (look h)(p \<mapsto> x)"
    and remove_law: "ok h \<Longrightarrow> look h p \<noteq> None \<Longrightarrow> \<exists>h'. remove h p = Inr h' \<and> ok h'
      \<and> look h' = (look h)(p := None)"
begin

lemma createE:
  assumes "ok h"
  obtains h' p where "create h x = Inr (h', p)" "ok h'" "look h p = None" "look h' = (look h)(p \<mapsto> x)"
  using create_law [OF assms] by blast

lemma removeE:
  assumes "ok h" and "look h p \<noteq> None"
  obtains h' where "remove h p = Inr h'" "ok h'" "look h' = (look h)(p := None)"
  using remove_law [OF assms] by blast

fun create_all :: "'h \<Rightarrow> 'a list \<Rightarrow> ('h \<times> 'p list) res" where
  "create_all h [] = Inr (h, [])"
| "create_all h (x # xs) = rbind (create h x) (\<lambda>(h1, p).
     rbind (create_all h1 xs) (\<lambda>(h2, ps). Inr (h2, p # ps)))"

text \<open>Any number of objects can be created, at different addresses, each with its value.\<close>

lemma create_all_distinct:
  assumes "ok h"
  shows "\<exists>h' ps. create_all h xs = Inr (h', ps) \<and> ok h' \<and> distinct ps \<and> length ps = length xs
    \<and> (\<forall>p \<in> set ps. look h p = None) \<and> (\<forall>i < length xs. look h' (ps ! i) = Some (xs ! i))
    \<and> (\<forall>p. p \<notin> set ps \<longrightarrow> look h' p = look h p)"
  using assms
proof (induction xs arbitrary: h)
  case Nil
  then show ?case by simp
next
  case (Cons x xs)
  obtain h1 p where 1: "create h x = Inr (h1, p)" "ok h1" "look h p = None" "look h1 = (look h)(p \<mapsto> x)"
    by (rule createE [OF Cons.prems])
  from Cons.IH [OF 1(2)] obtain h' ps where 2: "create_all h1 xs = Inr (h', ps)" "ok h'" "distinct ps"
    "length ps = length xs" "\<forall>p \<in> set ps. look h1 p = None"
    "\<forall>i < length xs. look h' (ps ! i) = Some (xs ! i)" "\<forall>p. p \<notin> set ps \<longrightarrow> look h' p = look h1 p"
    by blast
  have p: "p \<notin> set ps" using 1(4) 2(5) by auto
  have "\<forall>i < length (x # xs). look h' ((p # ps) ! i) = Some ((x # xs) ! i)"
    using 1(4) 2(6,7) p by (auto simp: nth_Cons split: nat.split)
  moreover have "\<forall>q \<in> set (p # ps). look h q = None"
    using 1(3,4) 2(5) p by (auto split: if_splits)
  ultimately show ?case using 1 2 p by (auto simp: exI [of _ "p # ps"])
qed

end

interpretation pool: object_heap "\<lambda>h. 1 < n \<and> pool_inv n h" view "new_object n" delete_object for n
proof (unfold_locales, goal_cases)
  case (1 h x)
  then show ?case using new_object_ok [of n h x] by metis
next
  case (2 h p)
  then show ?case using delete_object_ok [of n h p] by metis
qed

section \<open>The claims\<close>

text \<open>C17. A new object never overlaps a living one, and its creation disturbs none.\<close>

theorem new_object_fresh:
  assumes "1 < n" and "pool_inv n h"
  shows "\<exists>h' p. new_object n h x = Inr (h', p) \<and> pool_inv n h' \<and> view h p = None
    \<and> view h' = (view h)(p \<mapsto> x)"
  using pool.create_law [of n h x] assms by blast

theorem new_object_fresh_witness:
  "\<exists>h' p. new_object 4096 empty_pool True = Inr (h', p) \<and> view h' = [p \<mapsto> True]"
  using new_object_fresh [of 4096 empty_pool True] pool_inv_empty
  by (fastforce simp: view_def [abs_def] empty_pool_def)

text \<open>The cell freed last is the next one handed out; no block is requested for it.\<close>

theorem delete_then_new_reuses:
  assumes "pool_inv n h" and "view h p \<noteq> None"
  shows "\<exists>h1 h2. delete_object h p = Inr h1 \<and> new_object n h1 y = Inr (h2, p)
    \<and> view h2 = (view h)(p \<mapsto> y) \<and> m_blocks h2 = m_blocks h"
proof -
  obtain h1 where h1: "delete_object h p = Inr h1" "pool_inv n h1" "view h1 = (view h)(p := None)"
      "m_free_list h1 = Some p" "m_blocks h1 = m_blocks h"
    by (rule delete_object_ok [OF assms])
  obtain xs where "pool_free h1 xs" using h1(2) by (auto simp: pool_inv_def)
  then obtain ys where free: "pool_free h1 (p # ys)" using h1(4) by (cases xs) (auto simp: pool_free_def)
  let ?h2 = "h1\<lparr>m_free_list := (case ys of [] \<Rightarrow> None | q # _ \<Rightarrow> Some q), cells := (cells h1)(p \<mapsto> Obj y)\<rparr>"
  have "view ?h2 = (view h)(p \<mapsto> y)" using h1(3) by (auto simp: view_def fun_eq_iff split: if_splits)
  then show ?thesis
    using new_object_reuse(1) [OF free, of n y] h1(1,5) by (intro exI [of _ h1] exI [of _ ?h2]) simp
qed

lemma pool_inv_two:
  "new_object 2 empty_pool x = Inr (h, p) \<Longrightarrow> pool_inv 2 h \<and> view h p = Some x"
  by (rule new_object_ok [OF pool_inv_empty, of 2 x]) auto

theorem delete_then_new_reuses_witness:
  "\<exists>h p h1 h2. new_object 2 empty_pool (7::nat) = Inr (h, p) \<and> delete_object h p = Inr h1
     \<and> new_object 2 h1 8 = Inr (h2, p) \<and> view h2 p = Some 8"
proof -
  obtain h p where h: "new_object 2 empty_pool (7::nat) = Inr (h, p)"
    using pool.create_law [of 2 empty_pool 7] pool_inv_empty by auto
  with delete_then_new_reuses [of 2 h p 8] pool_inv_two [OF h] show ?thesis by fastforce
qed

text \<open>With blocks of one object the second allocation reads past the first block.\<close>

theorem single_cell_blocks_fail:
  "\<exists>h. new_object 1 empty_pool x = Inr (h, (Addr 0 0)) \<and> new_object 1 h y = Inl Out_Of_Bounds"
  by (simp add: new_object_def allocate_def empty_pool_def carve_def Let_def)

end
