(* ===== verification/Timer_List.thy ===== *)
theory Timer_List
  imports Memory_Pool
begin

text \<open>
  Class \<open>util_timer\<close> (\<open>timer/lst_timer.h\<close>) and the doubly linked lists of timers that the slots
  of the time wheel hold. A list is described over the partial map from addresses to living
  timers (\<open>view\<close> of the pool): \<open>dll m p h xs\<close> says that from head \<open>h\<close>, whose \<open>prev\<close> is \<open>p\<close>,
  the \<open>next\<close> pointers run through the timers \<open>xs\<close>, with \<open>prev\<close> pointers to match.
  \<open>cb_func\<close> and \<open>user_data\<close> are \<open>None\<close> until they are assigned (the constructor does not set
  them); \<open>user_data\<close> points into \<open>users_timer\<close> and is the index there.
\<close>

datatype callback = Cb_Func

record util_timer =
  expire :: int
  cb_func :: "callback option"
  user_data :: "int option"
  t_prev :: "addr option"
  t_next :: "addr option"
  rotation :: int
  time_slot :: int

definition new_timer :: util_timer where
  "new_timer = \<lparr>expire = 0, cb_func = None, user_data = None, t_prev = None, t_next = None,
     rotation = 0, time_slot = 0\<rparr>"

type_synonym timers = "addr \<Rightarrow> util_timer option"

definition head_of :: "addr list \<Rightarrow> addr option" where
  "head_of xs = (case xs of [] \<Rightarrow> None | x # _ \<Rightarrow> Some x)"

definition last_of :: "addr option \<Rightarrow> addr list \<Rightarrow> addr option" where
  "last_of p xs = (if xs = [] then p else Some (last xs))"

text \<open>A segment: \<open>xs\<close> from \<open>h\<close>, entered from \<open>p\<close>, left towards \<open>q\<close>.\<close>

fun seg :: "timers \<Rightarrow> addr option \<Rightarrow> addr option \<Rightarrow> addr list \<Rightarrow> addr option \<Rightarrow> bool" where
  "seg m p h [] q = (h = q)"
| "seg m p h (x # xs) q =
     (h = Some x \<and> (case m x of None \<Rightarrow> False | Some t \<Rightarrow> t_prev t = p \<and> seg m (Some x) (t_next t) xs q))"

definition dll :: "timers \<Rightarrow> addr option \<Rightarrow> addr option \<Rightarrow> addr list \<Rightarrow> bool" where
  "dll m p h xs = seg m p h xs None"

lemma seg_append:
  "seg m p h (xs @ ys) q \<longleftrightarrow> (\<exists>r. seg m p h xs r \<and> seg m (last_of p xs) r ys q)"
  by (induction xs arbitrary: p h) (auto simp: last_of_def split: option.splits)

lemma seg_cong:
  "seg m p h xs q \<Longrightarrow> (\<And>x. x \<in> set xs \<Longrightarrow> map_option (\<lambda>t. (t_prev t, t_next t)) (m' x) = map_option (\<lambda>t. (t_prev t, t_next t)) (m x)) \<Longrightarrow>
   seg m' p h xs q"
proof (induction xs arbitrary: p h)
  case (Cons x xs)
  obtain t where t: "m x = Some t" "t_prev t = p" "h = Some x" "seg m (Some x) (t_next t) xs q"
    using Cons.prems(1) by (auto split: option.splits)
  obtain t' where t': "m' x = Some t'" "t_prev t' = t_prev t" "t_next t' = t_next t"
    using Cons.prems(2) [of x] t(1) by auto
  have "seg m' (Some x) (t_next t) xs q"
    by (rule Cons.IH [OF t(4)]) (use Cons.prems(2) in simp)
  with t t' show ?case by simp
qed simp

lemma seg_upd: "seg m p h xs q \<Longrightarrow> y \<notin> set xs \<Longrightarrow> seg (m(y := z)) p h xs q"
  by (erule seg_cong) auto

lemma seg_live: "seg m p h xs q \<Longrightarrow> x \<in> set xs \<Longrightarrow> m x \<noteq> None"
  by (induction xs arbitrary: p h) (auto split: option.splits)

lemma dll_live: "dll m p h xs \<Longrightarrow> x \<in> set xs \<Longrightarrow> m x \<noteq> None"
  using seg_live by (auto simp: dll_def)

lemma dll_head: "dll m p h xs \<Longrightarrow> h = head_of xs"
  by (cases xs) (auto simp: dll_def head_of_def)

lemma dll_Nil [simp]: "dll m p h [] \<longleftrightarrow> h = None"
  by (simp add: dll_def)

lemma dll_upd: "dll m p h xs \<Longrightarrow> y \<notin> set xs \<Longrightarrow> dll (m(y := z)) p h xs"
  by (simp add: dll_def seg_upd)

text \<open>Changing the successor of the last timer of a segment; changing the predecessor of the first.\<close>

lemma seg_set_next:
  assumes "seg m p h (xs @ [x]) q" and "x \<notin> set xs" and "m x = Some t"
  shows "seg (m(x \<mapsto> t\<lparr>t_next := q'\<rparr>)) p h (xs @ [x]) q'"
proof -
  obtain r where r: "seg m p h xs r" "seg m (last_of p xs) r [x] q"
    using assms(1) seg_append by blast
  have "seg (m(x \<mapsto> t\<lparr>t_next := q'\<rparr>)) p h xs r" by (rule seg_upd) fact+
  moreover have "seg (m(x \<mapsto> t\<lparr>t_next := q'\<rparr>)) (last_of p xs) r [x] q'" using r(2) assms(3) by simp
  ultimately show ?thesis using seg_append by blast
qed

lemma dll_set_prev:
  assumes "dll m p h (z # zs)" and "z \<notin> set zs" and "m z = Some t"
  shows "dll (m(z \<mapsto> t\<lparr>t_prev := p'\<rparr>)) p' h (z # zs)"
  using assms by (auto simp: dll_def intro: seg_upd)

lemma dll_split:
  "dll m p h (xs @ ys) \<longleftrightarrow> (seg m p h xs (head_of ys) \<and> dll m (last_of p xs) (head_of ys) ys)"
proof
  assume "dll m p h (xs @ ys)"
  then obtain r where r: "seg m p h xs r" "dll m (last_of p xs) r ys" by (auto simp: dll_def seg_append)
  with dll_head [OF r(2)] show "seg m p h xs (head_of ys) \<and> dll m (last_of p xs) (head_of ys) ys" by simp
qed (auto simp: dll_def seg_append)

text \<open>What a timer in the middle of a list points to.\<close>

lemma dll_at:
  assumes "dll m p h (ys @ x # zs)"
  obtains t where "m x = Some t" and "t_prev t = last_of p ys" and "t_next t = head_of zs"
proof -
  have "dll m (last_of p ys) (Some x) (x # zs)" using assms by (simp add: dll_split head_of_def)
  then obtain t where t: "m x = Some t" "t_prev t = last_of p ys" "dll m (Some x) (t_next t) zs"
    by (auto simp: dll_def split: option.splits)
  from that [OF t(1,2) dll_head [OF t(3)]] show ?thesis .
qed

section \<open>Unlinking\<close>

text \<open>The map after \<open>x\<close> has been taken out from between \<open>ys\<close> and \<open>zs\<close>.\<close>

definition set_next :: "timers \<Rightarrow> addr \<Rightarrow> addr option \<Rightarrow> timers" where
  "set_next m a q = (case m a of Some t \<Rightarrow> m(a \<mapsto> t\<lparr>t_next := q\<rparr>) | None \<Rightarrow> m)"

definition set_prev :: "timers \<Rightarrow> addr option \<Rightarrow> addr option \<Rightarrow> timers" where
  "set_prev m a p = (case a of None \<Rightarrow> m | Some z \<Rightarrow> (case m z of Some t \<Rightarrow> m(z \<mapsto> t\<lparr>t_prev := p\<rparr>) | None \<Rightarrow> m))"

lemma dll_unlink_head:
  assumes "dll m p h (x # zs)" and "distinct (x # zs)"
  shows "dll ((set_prev m (head_of zs) p)(x := None)) p (head_of zs) zs"
    and "dll (set_prev (m(x := None)) (head_of zs) p) p (head_of zs) zs"
proof -
  obtain t where t: "m x = Some t" "dll m (Some x) (head_of zs) zs"
    using assms(1) dll_split [of m p h "[x]" zs] by (auto simp: last_of_def split: option.splits)
  show "dll ((set_prev m (head_of zs) p)(x := None)) p (head_of zs) zs"
  proof (rule dll_upd)
    show "dll (set_prev m (head_of zs) p) p (head_of zs) zs"
    proof (cases zs)
      case (Cons z us)
      with t(2) dll_live [OF t(2), of z] obtain u where "m z = Some u" by auto
      with Cons t(2) assms(2) show ?thesis
        using dll_set_prev [of m "Some x" "Some z" z us u p] by (simp add: set_prev_def head_of_def)
    qed (simp add: head_of_def)
  qed (use assms(2) in simp)
  then show "dll (set_prev (m(x := None)) (head_of zs) p) p (head_of zs) zs"
    using assms(2) by (cases zs) (auto simp: set_prev_def head_of_def fun_upd_twist split: option.splits)
qed

lemma dll_unlink_inner:
  assumes "dll m p h (ys @ [y] @ x # zs)" and "distinct (ys @ [y] @ x # zs)"
  shows "dll ((set_prev (set_next m y (head_of zs)) (head_of zs) (Some y))(x := None)) p h (ys @ [y] @ zs)"
proof -
  let ?m1 = "set_next m y (head_of zs)" and ?m2 = "set_prev (set_next m y (head_of zs)) (head_of zs) (Some y)"
  have front: "seg m p h (ys @ [y]) (Some x)" and rear: "dll m (Some y) (Some x) (x # zs)"
    using assms(1) dll_split [of m p h "ys @ [y]" "x # zs"] by (simp_all add: last_of_def head_of_def)
  obtain t where t: "m y = Some t" using seg_live [OF front, of y] by auto
  have "seg ?m1 p h (ys @ [y]) (head_of zs)"
    using seg_set_next [OF front _ t] assms(2) t by (simp add: set_next_def)
  then have "seg ?m2 p h (ys @ [y]) (head_of zs)"
    using assms(2) by (cases zs) (auto simp: set_prev_def head_of_def intro!: seg_upd split: option.split)
  then have 1: "seg (?m2(x := None)) p h (ys @ [y]) (head_of zs)"
    using assms(2) by (intro seg_upd) auto
  have "dll ?m1 (Some y) (Some x) (x # zs)"
    using dll_upd [OF rear, of y] assms(2) t by (simp add: set_next_def)
  from dll_unlink_head(1) [OF this] have 2: "dll (?m2(x := None)) (Some y) (head_of zs) zs"
    using assms(2) by simp
  show ?thesis
    using 1 2 dll_split [of "?m2(x := None)" p h "ys @ [y]" zs] by (simp add: last_of_def)
qed

end
