(* ===== verification/Time_Wheel.thy ===== *)
theory Time_Wheel
  imports Timer_List
begin

text \<open>
  Class \<open>time_wheel\<close> (\<open>timer/lst_timer.cpp\<close>): sixty slots of doubly linked timers, whose nodes
  come from the memory pool. \<open>add_timer\<close>, \<open>del_timer\<close> and \<open>tick\<close> follow the code pointer by
  pointer. \<open>tick\<close> walks a list through its \<open>next\<close> pointers, a loop that a broken list could keep
  busy for ever, so it is a \<open>partial_function\<close>: \<open>None\<close> is \<open>does not return\<close>. It calls the
  timer's callback, which is an argument of the model: it acts on a state \<open>'s\<close> of its user and
  does not touch the wheel.

  The specification is a map \<open>due\<close> from living timers to natural numbers, the ticks a timer
  still waits. \<open>add_timer\<close> adds an entry, \<open>del_timer\<close> removes one, and \<open>tick\<close> fires exactly the
  timers at 0 and counts the others down.
\<close>

definition WHEEL_N :: int where "WHEEL_N = 60"
definition SI :: int where "SI = 1"
definition POOL_BLOCK :: nat where "POOL_BLOCK = 4096"

record time_wheel =
  slots :: "int \<Rightarrow> addr option"
  cur_slot :: int
  m_pool :: "util_timer memory_pool"

definition empty_wheel :: time_wheel where
  "empty_wheel = \<lparr>slots = (\<lambda>_. None), cur_slot = 0, m_pool = empty_pool\<rparr>"

definition slot_at :: "time_wheel \<Rightarrow> int \<Rightarrow> addr option res" where
  "slot_at w i = (if 0 \<le> i \<and> i < WHEEL_N then Inr (slots w i) else Inl Out_Of_Bounds)"

definition set_slot :: "time_wheel \<Rightarrow> int \<Rightarrow> addr option \<Rightarrow> time_wheel res" where
  "set_slot w i p = (if 0 \<le> i \<and> i < WHEEL_N then Inr (w\<lparr>slots := (slots w)(i := p)\<rparr>) else Inl Out_Of_Bounds)"

text \<open>\<open>p->member\<close> for a pointer that may be null, and an assignment to a member.\<close>

definition deref :: "time_wheel \<Rightarrow> addr option \<Rightarrow> util_timer res" where
  "deref w p = (case p of None \<Rightarrow> Inl Null_Deref | Some a \<Rightarrow> obj (m_pool w) a)"

definition assign :: "time_wheel \<Rightarrow> addr option \<Rightarrow> (util_timer \<Rightarrow> util_timer) \<Rightarrow> time_wheel res" where
  "assign w p f = (case p of None \<Rightarrow> Inl Null_Deref
     | Some a \<Rightarrow> rbind (upd (m_pool w) a f) (\<lambda>h. Inr (w\<lparr>m_pool := h\<rparr>)))"

definition delete_timer :: "time_wheel \<Rightarrow> addr \<Rightarrow> time_wheel res" where
  "delete_timer w a = rbind (delete_object (m_pool w) a) (\<lambda>h. Inr (w\<lparr>m_pool := h\<rparr>))"

section \<open>Adding and deleting\<close>

definition add_timer :: "time_wheel \<Rightarrow> int \<Rightarrow> int \<Rightarrow> (time_wheel \<times> addr option) res" where
  "add_timer w timeout cur =
     (if timeout < 0 then Inr (w, None)
      else let ticks = (if timeout < SI then 1 else timeout div SI);
               rot = ticks div WHEEL_N;
               ts = (cur_slot w + ticks mod WHEEL_N) mod WHEEL_N
           in rbind (new_object POOL_BLOCK (m_pool w)
                 (new_timer\<lparr>rotation := rot, time_slot := ts, expire := cur + timeout\<rparr>)) (\<lambda>(h, a).
              let w1 = w\<lparr>m_pool := h\<rparr> in
              rbind (slot_at w1 ts) (\<lambda>head.
              if head = None then rbind (set_slot w1 ts (Some a)) (\<lambda>w2. Inr (w2, Some a))
              else rbind (assign w1 (Some a) (\<lambda>t. t\<lparr>t_next := head\<rparr>)) (\<lambda>w2.
                   rbind (assign w2 head (\<lambda>t. t\<lparr>t_prev := Some a\<rparr>)) (\<lambda>w3.
                   rbind (set_slot w3 ts (Some a)) (\<lambda>w4. Inr (w4, Some a)))))))"

text \<open>\<open>if (p) p->prev = q;\<close>\<close>

definition relink_prev :: "time_wheel \<Rightarrow> addr option \<Rightarrow> addr option \<Rightarrow> time_wheel res" where
  "relink_prev w p q = (if p = None then Inr w else assign w p (\<lambda>t. t\<lparr>t_prev := q\<rparr>))"

definition del_timer :: "time_wheel \<Rightarrow> addr option \<Rightarrow> time_wheel res" where
  "del_timer w timer = (case timer of
     None \<Rightarrow> Inr w
   | Some a \<Rightarrow>
       rbind (deref w timer) (\<lambda>t.
       let ts = time_slot t in
       rbind (slot_at w ts) (\<lambda>head.
       if timer = head then
         rbind (deref w head) (\<lambda>x.
         rbind (set_slot w ts (t_next x)) (\<lambda>w1.
         rbind (relink_prev w1 (t_next x) None) (\<lambda>w2.
         delete_timer w2 a)))
       else
         rbind (assign w (t_prev t) (\<lambda>x. x\<lparr>t_next := t_next t\<rparr>)) (\<lambda>w1.
         rbind (relink_prev w1 (t_next t) (t_prev t)) (\<lambda>w2.
         delete_timer w2 a)))))"

text \<open>\<open>time_wheel::adjust_timer\<close> tests its argument and sets a local variable, nothing else; the server does not call it:
  \<open>WebServer::adjust_timer\<close> deletes the timer and adds a new one.\<close>

definition wheel_adjust_timer :: "time_wheel \<Rightarrow> addr option \<Rightarrow> time_wheel" where
  "wheel_adjust_timer w timer = w"

section \<open>Ticking\<close>

text \<open>The expired timer \<open>a\<close> leaves the current slot; the result is the next one to visit.\<close>

definition expire_node :: "time_wheel \<Rightarrow> addr \<Rightarrow> (time_wheel \<times> addr option) res" where
  "expire_node w a =
     rbind (slot_at w (cur_slot w)) (\<lambda>head.
     if Some a = head then
       rbind (deref w head) (\<lambda>x.
       rbind (set_slot w (cur_slot w) (t_next x)) (\<lambda>w1.
       rbind (delete_timer w1 a) (\<lambda>w2.
       rbind (relink_prev w2 (t_next x) None) (\<lambda>w3.
       Inr (w3, t_next x)))))
     else
       rbind (deref w (Some a)) (\<lambda>t.
       rbind (assign w (t_prev t) (\<lambda>x. x\<lparr>t_next := t_next t\<rparr>)) (\<lambda>w1.
       rbind (relink_prev w1 (t_next t) (t_prev t)) (\<lambda>w2.
       rbind (deref w2 (Some a)) (\<lambda>t2.
       rbind (delete_timer w2 a) (\<lambda>w3.
       Inr (w3, t_next t2)))))))"

type_synonym 's runner = "callback option \<Rightarrow> int option \<Rightarrow> 's \<Rightarrow> 's res"

partial_function (option) tick_loop ::
    "'s runner \<Rightarrow> time_wheel \<Rightarrow> 's \<Rightarrow> addr option \<Rightarrow> (time_wheel \<times> 's) res option" where
  "tick_loop run w s tmp =
     (case tmp of
        None \<Rightarrow> Some (Inr (w, s))
      | Some a \<Rightarrow>
          (case deref w tmp of
             Inl e \<Rightarrow> Some (Inl e)
           | Inr t \<Rightarrow>
               if rotation t > 0 then
                 (case assign w tmp (\<lambda>t. t\<lparr>rotation := rotation t - 1\<rparr>) of
                    Inl e \<Rightarrow> Some (Inl e)
                  | Inr w1 \<Rightarrow> tick_loop run w1 s (t_next t))
               else
                 (case run (cb_func t) (user_data t) s of
                    Inl e \<Rightarrow> Some (Inl e)
                  | Inr s1 \<Rightarrow>
                      (case expire_node w a of
                         Inl e \<Rightarrow> Some (Inl e)
                       | Inr r \<Rightarrow> tick_loop run (fst r) s1 (snd r)))))"

definition tick :: "'s runner \<Rightarrow> time_wheel \<Rightarrow> 's \<Rightarrow> (time_wheel \<times> 's) res option" where
  "tick run w s =
     (case slot_at w (cur_slot w) of
        Inl e \<Rightarrow> Some (Inl e)
      | Inr head \<Rightarrow>
          (case tick_loop run w s head of
             None \<Rightarrow> None
           | Some (Inl e) \<Rightarrow> Some (Inl e)
           | Some (Inr r) \<Rightarrow>
               Some (Inr ((fst r)\<lparr>cur_slot := (cur_slot (fst r) + 1) mod WHEEL_N\<rparr>, snd r))))"

section \<open>The invariant and the specification\<close>

definition timers_of :: "time_wheel \<Rightarrow> timers" where
  "timers_of w = view (m_pool w)"

text \<open>\<open>wheel w xs\<close>: slot \<open>i\<close> holds the list \<open>xs i\<close>.\<close>

definition in_slot :: "timers \<Rightarrow> int \<Rightarrow> addr option \<Rightarrow> addr list \<Rightarrow> bool" where
  "in_slot m i h xs \<longleftrightarrow> dll m None h xs \<and> distinct xs
     \<and> (\<forall>a \<in> set xs. \<forall>t. m a = Some t \<longrightarrow> time_slot t = i \<and> 0 \<le> rotation t)"

definition wheel :: "time_wheel \<Rightarrow> (int \<Rightarrow> addr list) \<Rightarrow> bool" where
  "wheel w xs \<longleftrightarrow> pool_inv POOL_BLOCK (m_pool w) \<and> 0 \<le> cur_slot w \<and> cur_slot w < WHEEL_N
     \<and> (\<forall>i. 0 \<le> i \<and> i < WHEEL_N \<longrightarrow> in_slot (timers_of w) i (slots w i) (xs i))
     \<and> (\<forall>a t. timers_of w a = Some t \<longrightarrow> 0 \<le> time_slot t \<and> time_slot t < WHEEL_N \<and> a \<in> set (xs (time_slot t)))"

definition wheel_inv :: "time_wheel \<Rightarrow> bool" where
  "wheel_inv w \<longleftrightarrow> (\<exists>xs. wheel w xs)"

definition wait :: "int \<Rightarrow> util_timer \<Rightarrow> nat" where
  "wait cur t = nat ((time_slot t - cur) mod WHEEL_N + WHEEL_N * rotation t)"

definition due :: "time_wheel \<Rightarrow> addr \<Rightarrow> nat option" where
  "due w a = map_option (wait (cur_slot w)) (timers_of w a)"

lemma wheel_empty: "wheel empty_wheel (\<lambda>_. [])"
  by (auto simp: wheel_def empty_wheel_def pool_inv_empty WHEEL_N_def timers_of_def in_slot_def)
    (simp_all add: view_def empty_pool_def)

section \<open>Operations on the represented state\<close>

text \<open>\<open>rep w m sl c\<close>: the wheel's timers, slots and current slot, with a sound pool.\<close>

definition rep :: "time_wheel \<Rightarrow> timers \<Rightarrow> (int \<Rightarrow> addr option) \<Rightarrow> int \<Rightarrow> bool" where
  "rep w m sl c \<longleftrightarrow> pool_inv POOL_BLOCK (m_pool w) \<and> timers_of w = m \<and> slots w = sl \<and> cur_slot w = c"

lemma pool_inv_upd:
  assumes "pool_inv n h" and "view h a \<noteq> None"
  shows "pool_inv n (h\<lparr>cells := (cells h)(a \<mapsto> Obj x)\<rparr>)"
proof -
  obtain xs where cells: "pool_cells n h" and free: "pool_free h xs"
    using assms(1) by (auto simp: pool_inv_def)
  have a: "cells h a \<noteq> None" "a \<notin> free_cells h" using assms(2) by (auto simp: view_None_iff)
  then have "free_cells (h\<lparr>cells := (cells h)(a \<mapsto> Obj x)\<rparr>) = free_cells h"
    by (auto simp: free_cells_def split: if_splits)
  with free a have "pool_free (h\<lparr>cells := (cells h)(a \<mapsto> Obj x)\<rparr>) xs"
    by (auto simp: pool_free_def intro: free_chain_upd)
  moreover have "pool_cells n (h\<lparr>cells := (cells h)(a \<mapsto> Obj x)\<rparr>)"
    using cells a by (auto simp: pool_cells_def)
  ultimately show ?thesis by (auto simp: pool_inv_def)
qed

lemma deref_rep: "rep w m sl c \<Longrightarrow> m a = Some t \<Longrightarrow> deref w (Some a) = Inr t"
  by (auto simp: deref_def obj_def rep_def timers_of_def)

lemma assignE:
  assumes "rep w m sl c" and "m a = Some t"
  obtains w' where "assign w (Some a) f = Inr w'" and "rep w' (m(a \<mapsto> f t)) sl c"
proof -
  have "view (m_pool w) a = Some t" using assms by (auto simp: rep_def timers_of_def)
  with assms that pool_inv_upd [of POOL_BLOCK "m_pool w" a "f t"] show ?thesis
    by (simp add: assign_def upd_def rep_def timers_of_def)
qed

lemma relinkE:
  assumes "rep w m sl c" and "p = None \<or> m (the p) \<noteq> None"
  obtains w' where "relink_prev w p q = Inr w'" and "rep w' (set_prev m p q) sl c"
proof (cases p)
  case None
  with assms(1) that show ?thesis by (simp add: relink_prev_def set_prev_def)
next
  case (Some a)
  then obtain t where t: "m a = Some t" using assms(2) by auto
  obtain w' where "assign w (Some a) (\<lambda>t. t\<lparr>t_prev := q\<rparr>) = Inr w'" "rep w' (m(a \<mapsto> t\<lparr>t_prev := q\<rparr>)) sl c"
    by (rule assignE [OF assms(1) t])
  with Some t that show ?thesis by (simp add: relink_prev_def set_prev_def)
qed

lemma deleteE:
  assumes "rep w m sl c" and "m a \<noteq> None"
  obtains w' where "delete_timer w a = Inr w'" and "rep w' (m(a := None)) sl c"
proof -
  have "pool_inv POOL_BLOCK (m_pool w)" "view (m_pool w) a \<noteq> None"
    using assms by (auto simp: rep_def timers_of_def)
  then obtain h where "delete_object (m_pool w) a = Inr h" "pool_inv POOL_BLOCK h" "view h = (view (m_pool w))(a := None)"
    by (rule delete_object_ok)
  with assms that show ?thesis by (simp add: delete_timer_def rep_def timers_of_def)
qed

lemma set_slotE:
  assumes "rep w m sl c" and "0 \<le> i" and "i < WHEEL_N"
  obtains w' where "set_slot w i p = Inr w'" and "rep w' m (sl(i := p)) c"
  using assms that by (auto simp: set_slot_def rep_def timers_of_def)

lemma slot_at_rep: "rep w m sl c \<Longrightarrow> 0 \<le> i \<Longrightarrow> i < WHEEL_N \<Longrightarrow> slot_at w i = Inr (sl i)"
  by (simp add: slot_at_def rep_def)

section \<open>Taking a timer out of its list\<close>

definition payload_of :: "util_timer \<Rightarrow> util_timer" where
  "payload_of t = t\<lparr>t_prev := None, t_next := None\<rparr>"

definition data :: "timers \<Rightarrow> timers" where
  "data m a = map_option payload_of (m a)"

definition unlinked ::
    "timers \<Rightarrow> (int \<Rightarrow> addr option) \<Rightarrow> int \<Rightarrow> addr list \<Rightarrow> addr \<Rightarrow> addr list \<Rightarrow> timers \<Rightarrow> (int \<Rightarrow> addr option) \<Rightarrow> bool" where
  "unlinked m sl i ys a zs m' sl' \<longleftrightarrow>
     dll m' None (sl' i) (ys @ zs) \<and> (\<forall>j. j \<noteq> i \<longrightarrow> sl' j = sl j)
   \<and> (\<forall>b. b \<notin> set (ys @ a # zs) \<longrightarrow> m' b = m b) \<and> data m' = (data m)(a := None)"

lemma payload_links [simp]: "payload_of (t\<lparr>t_prev := p\<rparr>) = payload_of t" "payload_of (t\<lparr>t_next := p\<rparr>) = payload_of t"
  by (simp_all add: payload_of_def)

lemma data_links:
  "data (set_prev m p q) = data m" "data (set_next m a q) = data m" "data (m(a := None)) = (data m)(a := None)"
  by (auto simp: data_def set_prev_def set_next_def fun_eq_iff split: option.splits)

lemma links_other:
  "set_prev m p q b = m b" if "p \<noteq> Some b"
  using that by (auto simp: set_prev_def split: option.splits)

lemma set_next_other: "set_next m a q b = m b" if "a \<noteq> b"
  using that by (auto simp: set_next_def split: option.splits)

lemma head_of_mem: "head_of zs = Some b \<Longrightarrow> b \<in> set zs"
  by (cases zs) (simp_all add: head_of_def)

lemma set_prev_off [simp]: "b \<notin> set zs \<Longrightarrow> set_prev m (head_of zs) q b = m b"
  using head_of_mem [of zs b] by (intro links_other) auto

lemma unlinked_head:
  assumes "dll m None (sl i) (a # zs)" and "distinct (a # zs)"
  shows "unlinked m sl i [] a zs ((set_prev m (head_of zs) None)(a := None)) (sl(i := head_of zs))"
    and "unlinked m sl i [] a zs (set_prev (m(a := None)) (head_of zs) None) (sl(i := head_of zs))"
  using dll_unlink_head [OF assms]
  by (auto simp: unlinked_def data_links simp del: not_None_eq)

lemma unlinked_inner:
  assumes "dll m None (sl i) (ys @ [y] @ a # zs)" and "distinct (ys @ [y] @ a # zs)"
  shows "unlinked m sl i (ys @ [y]) a zs
    ((set_prev (set_next m y (head_of zs)) (head_of zs) (Some y))(a := None)) sl"
  using dll_unlink_inner [OF assms]
  by (auto simp: unlinked_def data_links set_next_other)

text \<open>Both removals of the code, at the head and inside, leave such a state.\<close>

lemma relink_live: "dll m p h (ys @ a # zs) \<Longrightarrow> head_of zs = None \<or> m (the (head_of zs)) \<noteq> None"
  using dll_live [of m p h "ys @ a # zs"] head_of_mem [of zs] by (cases "head_of zs") auto

lemma relink_live': "distinct (ys @ a # zs) \<Longrightarrow> dll m p h (ys @ a # zs) \<Longrightarrow>
  head_of zs = None \<or> (m(a := None)) (the (head_of zs)) \<noteq> None"
  using dll_live [of m p h "ys @ a # zs"] head_of_mem [of zs] by (cases "head_of zs") auto

lemma remove_inner:
  assumes rep: "rep w m sl c" and l: "dll m None (sl i) (ys @ a # zs)" and d: "distinct (ys @ a # zs)"
    and t: "m a = Some t" and ys: "ys \<noteq> []"
  obtains w1 w2 w3 m2 m' where "assign w (t_prev t) (\<lambda>x. x\<lparr>t_next := t_next t\<rparr>) = Inr w1"
    and "relink_prev w1 (t_next t) (t_prev t) = Inr w2" and "rep w2 m2 sl c" and "m2 a = Some t"
    and "delete_timer w2 a = Inr w3" and "rep w3 m' sl c" and "unlinked m sl i ys a zs m' sl"
proof -
  obtain us y where ys: "ys = us @ [y]" using ys by (cases ys rule: rev_cases) auto
  have links: "t_prev t = Some y" "t_next t = head_of zs"
    using dll_at [OF l] t ys by (auto simp: last_of_def)
  obtain u where u: "m y = Some u" using dll_live [OF l, of y] ys by auto
  obtain w1 where w1: "assign w (Some y) (\<lambda>x. x\<lparr>t_next := head_of zs\<rparr>) = Inr w1"
      "rep w1 (m(y \<mapsto> u\<lparr>t_next := head_of zs\<rparr>)) sl c"
    by (rule assignE [OF rep u])
  then have w1': "rep w1 (set_next m y (head_of zs)) sl c" using u by (simp add: set_next_def)
  have live: "head_of zs = None \<or> set_next m y (head_of zs) (the (head_of zs)) \<noteq> None"
    using relink_live [OF l] u by (auto simp: set_next_def)
  obtain w2 where w2: "relink_prev w1 (head_of zs) (Some y) = Inr w2"
      "rep w2 (set_prev (set_next m y (head_of zs)) (head_of zs) (Some y)) sl c"
    by (rule relinkE [OF w1' live])
  have a: "set_prev (set_next m y (head_of zs)) (head_of zs) (Some y) a = Some t"
    using t d head_of_mem [of zs] ys by (auto simp: links_other set_next_other)
  then have "set_prev (set_next m y (head_of zs)) (head_of zs) (Some y) a \<noteq> None" by simp
  then obtain w3 where w3: "delete_timer w2 a = Inr w3"
      "rep w3 ((set_prev (set_next m y (head_of zs)) (head_of zs) (Some y))(a := None)) sl c"
    by (rule deleteE [OF w2(2)])
  show ?thesis
    using that [of w1 w2 _ w3] w1(1) w2 w3 a links unlinked_inner [of m sl i us y a zs] l d ys by simp
qed

lemma expire_node_ok:
  assumes rep: "rep w m sl c" and c: "0 \<le> c" "c < WHEEL_N"
    and l: "dll m None (sl c) (ys @ a # zs)" and d: "distinct (ys @ a # zs)"
  obtains w' m' sl' where "expire_node w a = Inr (w', head_of zs)" and "rep w' m' sl' c"
    and "unlinked m sl c ys a zs m' sl'"
proof -
  obtain t where t: "m a = Some t" "t_prev t = last_of None ys" "t_next t = head_of zs"
    by (rule dll_at [OF l])
  have cur: "cur_slot w = c" using rep by (simp add: rep_def)
  note head = slot_at_rep [OF rep c] dll_head [OF l]
  show ?thesis
  proof (cases ys)
    case Nil
    then have h: "sl c = Some a" using head(2) by (simp add: head_of_def)
    obtain w1 where w1: "set_slot w c (head_of zs) = Inr w1" "rep w1 m (sl(c := head_of zs)) c"
      by (rule set_slotE [OF rep c])
    obtain w2 where w2: "delete_timer w1 a = Inr w2" "rep w2 (m(a := None)) (sl(c := head_of zs)) c"
      using t(1) by (auto intro: deleteE [OF w1(2), of a])
    obtain w3 where w3: "relink_prev w2 (head_of zs) None = Inr w3"
        "rep w3 (set_prev (m(a := None)) (head_of zs) None) (sl(c := head_of zs)) c"
      by (rule relinkE [OF w2(2) relink_live' [OF d l]])
    have "expire_node w a = Inr (w3, head_of zs)"
      using head(1) h t(3) w1(1) w2(1) w3(1) deref_rep [OF rep t(1)] by (simp add: expire_node_def cur)
    with that w3(2) unlinked_head(2) [of m sl c a zs] l d Nil show ?thesis by simp
  next
    case (Cons b bs)
    then have h: "sl c \<noteq> Some a" using head(2) d by (auto simp: head_of_def)
    have "ys \<noteq> []" using Cons by simp
    then obtain w1 w2 w3 m2 m' where r: "assign w (t_prev t) (\<lambda>x. x\<lparr>t_next := t_next t\<rparr>) = Inr w1"
      "relink_prev w1 (t_next t) (t_prev t) = Inr w2" "rep w2 m2 sl c" "m2 a = Some t"
      "delete_timer w2 a = Inr w3" "rep w3 m' sl c" "unlinked m sl c ys a zs m' sl"
      by (rule remove_inner [OF rep l d t(1)])
    have "expire_node w a = Inr (w3, head_of zs)"
      using head(1) h t(3) r(1,2,5) deref_rep [OF rep t(1)] deref_rep [OF r(3,4)] by (auto simp: expire_node_def cur)
    with that r show ?thesis by blast
  qed
qed

lemma del_timer_rep:
  assumes rep: "rep w m sl c" and t: "m a = Some t" and i: "time_slot t = i" "0 \<le> i" "i < WHEEL_N"
    and l: "dll m None (sl i) (ys @ a # zs)" and d: "distinct (ys @ a # zs)"
  obtains w' m' sl' where "del_timer w (Some a) = Inr w'" and "rep w' m' sl' c"
    and "unlinked m sl i ys a zs m' sl'"
proof -
  have links: "t_prev t = last_of None ys" "t_next t = head_of zs"
    using dll_at [OF l] t by auto
  note head = slot_at_rep [OF rep i(2,3)] dll_head [OF l]
  show ?thesis
  proof (cases ys)
    case Nil
    then have h: "sl i = Some a" using head(2) by (simp add: head_of_def)
    obtain w1 where w1: "set_slot w i (head_of zs) = Inr w1" "rep w1 m (sl(i := head_of zs)) c"
      by (rule set_slotE [OF rep i(2,3)])
    obtain w2 where w2: "relink_prev w1 (head_of zs) None = Inr w2"
        "rep w2 (set_prev m (head_of zs) None) (sl(i := head_of zs)) c"
      by (rule relinkE [OF w1(2) relink_live [OF l]])
    have "set_prev m (head_of zs) None a \<noteq> None"
      using t d by simp
    then obtain w3 where w3: "delete_timer w2 a = Inr w3"
        "rep w3 ((set_prev m (head_of zs) None)(a := None)) (sl(i := head_of zs)) c"
      by (rule deleteE [OF w2(2)])
    have "del_timer w (Some a) = Inr w3"
      using head(1) h links(2) w1(1) w2(1) w3(1) deref_rep [OF rep t] i(1) by (simp add: del_timer_def Let_def)
    with that w3(2) unlinked_head(1) [of m sl i a zs] l d Nil show ?thesis by simp
  next
    case (Cons b bs)
    then have h: "sl i \<noteq> Some a" using head(2) d by (auto simp: head_of_def)
    have "ys \<noteq> []" using Cons by simp
    then obtain w1 w2 w3 m2 m' where r: "assign w (t_prev t) (\<lambda>x. x\<lparr>t_next := t_next t\<rparr>) = Inr w1"
      "relink_prev w1 (t_next t) (t_prev t) = Inr w2" "rep w2 m2 sl c" "m2 a = Some t"
      "delete_timer w2 a = Inr w3" "rep w3 m' sl c" "unlinked m sl i ys a zs m' sl"
      by (rule remove_inner [OF rep l d t])
    have "del_timer w (Some a) = Inr w3"
      using head(1) h r(1,2,5) deref_rep [OF rep t] i(1) by (auto simp: del_timer_def Let_def)
    with that r show ?thesis by blast
  qed
qed

section \<open>The wheel as a whole\<close>

lemma wait_payload [simp]: "wait c (payload_of t) = wait c t"
  by (simp add: wait_def payload_of_def)

lemma payload_fields [simp]:
  "time_slot (payload_of t) = time_slot t" "rotation (payload_of t) = rotation t"
  "cb_func (payload_of t) = cb_func t" "user_data (payload_of t) = user_data t"
  by (simp_all add: payload_of_def)

lemma due_data: "due w a = map_option (wait (cur_slot w)) (data (timers_of w) a)"
  by (simp add: due_def data_def option.map_comp comp_def)

lemma data_Some: "data m a = Some u \<longleftrightarrow> (\<exists>t. m a = Some t \<and> payload_of t = u)"
  by (auto simp: data_def)

text \<open>The part of the invariant that the links have no say in.\<close>

definition sorted_in :: "timers \<Rightarrow> int \<Rightarrow> addr list \<Rightarrow> bool" where
  "sorted_in d i xs \<longleftrightarrow> distinct xs \<and> (\<forall>a \<in> set xs. \<forall>t. d a = Some t \<longrightarrow> time_slot t = i \<and> 0 \<le> rotation t)"

definition placed :: "timers \<Rightarrow> (int \<Rightarrow> addr list) \<Rightarrow> bool" where
  "placed d xs \<longleftrightarrow> (\<forall>i. 0 \<le> i \<and> i < WHEEL_N \<longrightarrow> sorted_in d i (xs i))
     \<and> (\<forall>a t. d a = Some t \<longrightarrow> 0 \<le> time_slot t \<and> time_slot t < WHEEL_N \<and> a \<in> set (xs (time_slot t)))"

definition linked :: "timers \<Rightarrow> (int \<Rightarrow> addr option) \<Rightarrow> (int \<Rightarrow> addr list) \<Rightarrow> bool" where
  "linked m sl xs \<longleftrightarrow> (\<forall>i. 0 \<le> i \<and> i < WHEEL_N \<longrightarrow> dll m None (sl i) (xs i))"

lemma wheel_iff:
  "wheel w xs \<longleftrightarrow> pool_inv POOL_BLOCK (m_pool w) \<and> 0 \<le> cur_slot w \<and> cur_slot w < WHEEL_N
     \<and> linked (timers_of w) (slots w) xs \<and> placed (data (timers_of w)) xs"
proof -
  have 1: "(\<forall>t. data m a = Some t \<longrightarrow> P (time_slot t) (rotation t)) \<longleftrightarrow> (\<forall>t. m a = Some t \<longrightarrow> P (time_slot t) (rotation t))"
    for m a P by (auto simp: data_Some)
  show ?thesis
    unfolding wheel_def linked_def placed_def sorted_in_def in_slot_def
    by (simp only: 1 [where P = "\<lambda>ts rot. ts = i \<and> 0 \<le> rot" for i]
        1 [where P = "\<lambda>ts rot. 0 \<le> ts \<and> ts < WHEEL_N \<and> a \<in> set (xs ts)" for a]) blast
qed

lemma wheel_rep: "wheel w xs \<Longrightarrow> rep w (timers_of w) (slots w) (cur_slot w)"
  by (simp add: rep_def wheel_def)

lemma rep_wheel:
  "rep w m sl c \<Longrightarrow> 0 \<le> c \<Longrightarrow> c < WHEEL_N \<Longrightarrow> linked m sl xs \<Longrightarrow> placed (data m) xs \<Longrightarrow> wheel w xs"
  by (simp add: wheel_iff rep_def)

lemma disjoint_slots:
  assumes "linked m sl xs" and "placed (data m) xs" and "0 \<le> i" "i < WHEEL_N" and "0 \<le> j" "j < WHEEL_N"
    and "a \<in> set (xs i)" "a \<in> set (xs j)"
  shows "i = j"
proof -
  have "dll m None (sl i) (xs i)" using assms(1,3,4) by (simp add: linked_def)
  then obtain t where "m a = Some t" using dll_live assms(7) by blast
  then have d: "data m a = Some (payload_of t)" by (simp add: data_def)
  have "sorted_in (data m) i (xs i)" "sorted_in (data m) j (xs j)" using assms(2-6) by (simp_all add: placed_def)
  with d assms(7,8) have "time_slot (payload_of t) = i" "time_slot (payload_of t) = j"
    unfolding sorted_in_def by blast+
  then show ?thesis by simp
qed

lemma placed_remove:
  assumes "placed d xs" and "0 \<le> i" "i < WHEEL_N" and "xs i = ys @ a # zs"
  shows "placed (d(a := None)) (xs(i := ys @ zs))"
proof -
  have "sorted_in d i (ys @ a # zs)" using assms by (metis placed_def)
  then have here: "sorted_in (d(a := None)) i (ys @ zs)" by (auto simp: sorted_in_def)
  have there: "sorted_in d j (xs j) \<Longrightarrow> sorted_in (d(a := None)) j (xs j)" for j by (auto simp: sorted_in_def)
  have "b \<in> set ((xs(i := ys @ zs)) (time_slot t))" if "d b = Some t" "b \<noteq> a" for b t
  proof -
    have "b \<in> set (xs (time_slot t))" using assms(1) that by (simp add: placed_def)
    then show ?thesis using assms(4) that(2) by (cases "time_slot t = i") auto
  qed
  with here there assms(1) show ?thesis by (simp add: placed_def)
qed

lemma unlinked_linked:
  assumes "linked m sl xs" and "placed (data m) xs" and "0 \<le> i" "i < WHEEL_N" and "xs i = ys @ a # zs"
    and "unlinked m sl i ys a zs m' sl'"
  shows "linked m' sl' (xs(i := ys @ zs))" and "placed (data m') (xs(i := ys @ zs))"
proof -
  have off: "b \<notin> set (ys @ a # zs)" if "b \<in> set (xs j)" "j \<noteq> i" "0 \<le> j" "j < WHEEL_N" for b j
    using that disjoint_slots [OF assms(1,2,3,4), of j b] assms(5) by auto
  show "linked m' sl' (xs(i := ys @ zs))"
    unfolding linked_def
  proof (intro allI impI)
    fix j assume j: "0 \<le> j \<and> j < WHEEL_N"
    show "dll m' None (sl' j) ((xs(i := ys @ zs)) j)"
    proof (cases "j = i")
      case True
      then show ?thesis using assms(6) by (simp add: unlinked_def)
    next
      case False
      then have "dll m None (sl j) (xs j)" "sl' j = sl j" "\<And>b. b \<in> set (xs j) \<Longrightarrow> m' b = m b"
        using assms(1,6) j off [of _ j] by (auto simp: linked_def unlinked_def)
      then show ?thesis using False seg_cong [of m None "sl j" "xs j" None m'] by (simp add: dll_def)
    qed
  qed
  have d: "data m' = (data m)(a := None)" using assms(6) by (simp add: unlinked_def)
  show "placed (data m') (xs(i := ys @ zs))"
    unfolding d by (rule placed_remove) fact+
qed

text \<open>Deleting a timer.\<close>

lemma del_timer_ok:
  assumes "wheel_inv w" and "timers_of w a \<noteq> None"
  obtains w' where "del_timer w (Some a) = Inr w'" and "wheel_inv w'" and "cur_slot w' = cur_slot w"
    and "data (timers_of w') = (data (timers_of w))(a := None)"
proof -
  obtain xs where xs: "wheel w xs" using assms(1) by (auto simp: wheel_inv_def)
  obtain t where t: "timers_of w a = Some t" using assms(2) by blast
  let ?i = "time_slot t" and ?c = "cur_slot w"
  from xs t have i: "0 \<le> ?i" "?i < WHEEL_N" "a \<in> set (xs ?i)" and c: "0 \<le> ?c" "?c < WHEEL_N"
    by (auto simp: wheel_def)
  then obtain ys zs where l: "xs ?i = ys @ a # zs" using split_list by metis
  have lk: "linked (timers_of w) (slots w) xs" "placed (data (timers_of w)) xs"
    using xs by (simp_all add: wheel_iff)
  have "in_slot (timers_of w) ?i (slots w ?i) (xs ?i)" using xs i by (simp add: wheel_def)
  then have dl: "dll (timers_of w) None (slots w ?i) (ys @ a # zs)" and d: "distinct (ys @ a # zs)"
    unfolding in_slot_def l by simp_all
  obtain w' m' sl' where w': "del_timer w (Some a) = Inr w'" "rep w' m' sl' ?c"
      "unlinked (timers_of w) (slots w) ?i ys a zs m' sl'"
    by (rule del_timer_rep [OF wheel_rep [OF xs] t refl i(1,2) dl d])
  have "wheel w' (xs(?i := ys @ zs))"
    by (rule rep_wheel [OF w'(2) c unlinked_linked [OF lk i(1,2) l w'(3)]])
  then show ?thesis
    using that [OF w'(1)] w'(2,3) by (auto simp: wheel_inv_def rep_def unlinked_def)
qed

text \<open>Adding one.\<close>

lemma dll_push:
  assumes "dll m None h xs" and "distinct xs" and "m a = None" and "t_prev t = None"
  shows "dll (set_prev (m(a \<mapsto> t\<lparr>t_next := h\<rparr>)) h (Some a)) None (Some a) (a # xs)"
proof -
  have a: "a \<notin> set xs" using dll_live [OF assms(1)] assms(3) by blast
  have h: "h = head_of xs" by (rule dll_head [OF assms(1)])
  have "dll (set_prev (m(a \<mapsto> t\<lparr>t_next := h\<rparr>)) h (Some a)) (Some a) h xs"
  proof (cases xs)
    case Nil
    with h show ?thesis by (simp add: head_of_def)
  next
    case (Cons z zs)
    obtain u where u: "m z = Some u" using dll_live [OF assms(1), of z] Cons by auto
    have "dll (m(a \<mapsto> t\<lparr>t_next := h\<rparr>)) None h (z # zs)" using dll_upd [OF assms(1) a] Cons by simp
    moreover have "z \<notin> set zs" "z \<noteq> a" using Cons assms(2) a by auto
    ultimately show ?thesis
      using dll_set_prev [of "m(a \<mapsto> t\<lparr>t_next := h\<rparr>)" None h z zs u "Some a"] Cons u h
      by (simp add: set_prev_def head_of_def)
  qed
  with assms(4) a h show ?thesis by (simp add: dll_def)
qed

lemma data_new: "data (set_prev (m(a \<mapsto> t\<lparr>t_next := h\<rparr>)) p q) = (data m)(a \<mapsto> payload_of t)"
  by (auto simp: data_links data_def fun_eq_iff)

lemma add_timer_ok:
  assumes "wheel_inv w" and "0 \<le> timeout"
  defines "d \<equiv> max 1 timeout"
  obtains w' a t where "add_timer w timeout cur = Inr (w', Some a)" and "wheel_inv w'"
    and "cur_slot w' = cur_slot w" and "timers_of w a = None"
    and "data (timers_of w') = (data (timers_of w))(a \<mapsto> t)" and "wait (cur_slot w) t = nat d"
    and "cb_func t = None" and "user_data t = None"
proof -
  obtain xs where xs: "wheel w xs" using assms(1) by (auto simp: wheel_inv_def)
  let ?c = "cur_slot w" and ?m = "timers_of w"
  let ?ts = "(?c + d mod WHEEL_N) mod WHEEL_N"
  let ?t = "new_timer\<lparr>rotation := d div WHEEL_N, time_slot := ?ts, expire := cur + timeout\<rparr>"
  have c: "0 \<le> ?c" "?c < WHEEL_N" and pool: "pool_inv POOL_BLOCK (m_pool w)" using xs by (simp_all add: wheel_def)
  have ts: "0 \<le> ?ts" "?ts < WHEEL_N" by (simp_all add: WHEEL_N_def)
  have ticks: "(if timeout < SI then 1 else timeout div SI) = d" by (simp add: SI_def d_def)
  obtain h a where new: "new_object POOL_BLOCK (m_pool w) ?t = Inr (h, a)" "pool_inv POOL_BLOCK h"
      "view (m_pool w) a = None" "view h = (view (m_pool w))(a \<mapsto> ?t)"
    using pool.create_law [of POOL_BLOCK "m_pool w" ?t] pool by (auto simp: POOL_BLOCK_def)
  let ?w1 = "w\<lparr>m_pool := h\<rparr>"
  have rep1: "rep ?w1 (?m(a \<mapsto> ?t)) (slots w) ?c" using new by (simp add: rep_def timers_of_def)
  have fresh: "?m a = None" using new(3) by (simp add: timers_of_def)
  have dl: "dll ?m None (slots w ?ts) (xs ?ts)" "distinct (xs ?ts)"
    using xs ts by (auto simp: wheel_def in_slot_def)
  let ?m' = "set_prev (?m(a \<mapsto> ?t\<lparr>t_next := slots w ?ts\<rparr>)) (slots w ?ts) (Some a)"
  obtain w' where w': "add_timer w timeout cur = Inr (w', Some a)"
      "rep w' ?m' ((slots w)(?ts := Some a)) ?c"
  proof (cases "slots w ?ts")
    case None
    obtain w2 where w2: "set_slot ?w1 ?ts (Some a) = Inr w2" "rep w2 (?m(a \<mapsto> ?t)) ((slots w)(?ts := Some a)) ?c"
      by (rule set_slotE [OF rep1 ts])
    have "?t\<lparr>t_next := None\<rparr> = ?t" by (simp add: new_timer_def)
    then have "?m' = ?m(a \<mapsto> ?t)" using None by (simp add: set_prev_def)
    with w2 None new(1) slot_at_rep [OF rep1 ts] assms(2) ticks that show ?thesis
      by (simp add: add_timer_def Let_def)
  next
    case (Some b)
    then have "b \<in> set (xs ?ts)" using dll_head [OF dl(1)] head_of_mem by metis
    then obtain u where u: "?m b = Some u" using dll_live [OF dl(1)] by auto
    with fresh have ab: "a \<noteq> b" by auto
    obtain w2 where w2: "assign ?w1 (Some a) (\<lambda>t. t\<lparr>t_next := Some b\<rparr>) = Inr w2"
        "rep w2 ((?m(a \<mapsto> ?t))(a \<mapsto> ?t\<lparr>t_next := Some b\<rparr>)) (slots w) ?c"
      by (rule assignE [OF rep1, of a ?t]) simp
    obtain w3 where w3: "assign w2 (Some b) (\<lambda>t. t\<lparr>t_prev := Some a\<rparr>) = Inr w3"
        "rep w3 ((?m(a \<mapsto> ?t\<lparr>t_next := Some b\<rparr>))(b \<mapsto> u\<lparr>t_prev := Some a\<rparr>)) (slots w) ?c"
      using assignE [OF w2(2), of b u] u ab by (metis fun_upd_other fun_upd_upd)
    obtain w4 where w4: "set_slot w3 ?ts (Some a) = Inr w4"
        "rep w4 ((?m(a \<mapsto> ?t\<lparr>t_next := Some b\<rparr>))(b \<mapsto> u\<lparr>t_prev := Some a\<rparr>)) ((slots w)(?ts := Some a)) ?c"
      by (rule set_slotE [OF w3(2) ts])
    have "?m' = (?m(a \<mapsto> ?t\<lparr>t_next := Some b\<rparr>))(b \<mapsto> u\<lparr>t_prev := Some a\<rparr>)"
      using Some u ab by (simp add: set_prev_def)
    with w2 w3 w4 Some new(1) slot_at_rep [OF rep1 ts] assms(2) ticks that show ?thesis
      by (simp add: add_timer_def Let_def)
  qed
  have data': "data ?m' = (data ?m)(a \<mapsto> payload_of ?t)" by (rule data_new)
  have a_off: "a \<notin> set (xs j)" if "0 \<le> j" "j < WHEEL_N" for j
    using xs that fresh dll_live [of ?m None "slots w j" "xs j" a] by (auto simp: wheel_def in_slot_def)
  have "linked ?m' ((slots w)(?ts := Some a)) (xs(?ts := a # xs ?ts))"
    unfolding linked_def
  proof (intro allI impI)
    fix j assume j: "0 \<le> j \<and> j < WHEEL_N"
    show "dll ?m' None (((slots w)(?ts := Some a)) j) ((xs(?ts := a # xs ?ts)) j)"
    proof (cases "j = ?ts")
      case True
      have "dll ?m' None (Some a) (a # xs ?ts)" by (rule dll_push [OF dl fresh]) (simp add: new_timer_def)
      with True show ?thesis by simp
    next
      case False
      have "?m' b = ?m b" if "b \<in> set (xs j)" for b
      proof -
        have "b \<notin> set (xs ?ts)" using disjoint_slots [of ?m "slots w" xs j ?ts b] xs ts j False that
          by (auto simp: wheel_iff)
        moreover have "b \<noteq> a" using a_off j that by auto
        ultimately show ?thesis using dll_head [OF dl(1)] by simp
      qed
      then have "dll ?m' None (slots w j) (xs j)"
        using xs j seg_cong [of ?m None "slots w j" "xs j" None ?m'] by (simp add: wheel_iff linked_def dll_def)
      with False show ?thesis by simp
    qed
  qed
  moreover have "placed (data ?m') (xs(?ts := a # xs ?ts))"
  proof -
    let ?d' = "(data ?m)(a \<mapsto> payload_of ?t)"
    have "sorted_in ?d' i ((xs(?ts := a # xs ?ts)) i)" if i: "0 \<le> i" "i < WHEEL_N" for i
    proof -
      have old: "sorted_in (data ?m) i (xs i)" using xs i by (simp add: wheel_iff placed_def)
      have new: "time_slot (payload_of ?t) = ?ts \<and> 0 \<le> rotation (payload_of ?t)"
        by (simp add: d_def WHEEL_N_def pos_imp_zdiv_nonneg_iff)
      show ?thesis
      proof (cases "i = ?ts")
        case True
        have "sorted_in ?d' ?ts (a # xs ?ts)"
          using old new a_off [OF i] unfolding True sorted_in_def by auto
        with True show ?thesis by simp
      next
        case False
        have "sorted_in ?d' i (xs i)" using old a_off [OF i] unfolding sorted_in_def by auto
        with False show ?thesis by simp
      qed
    qed
    moreover have "0 \<le> time_slot t \<and> time_slot t < WHEEL_N \<and> b \<in> set ((xs(?ts := a # xs ?ts)) (time_slot t))"
      if "?d' b = Some t" for b t
    proof (cases "b = a")
      case True
      then have "time_slot t = ?ts" using that by auto
      with ts True show ?thesis by simp
    next
      case False
      then have "data ?m b = Some t" using that by simp
      then have "0 \<le> time_slot t \<and> time_slot t < WHEEL_N \<and> b \<in> set (xs (time_slot t))"
        using xs by (simp add: wheel_iff placed_def)
      then show ?thesis by auto
    qed
    ultimately show ?thesis unfolding data' placed_def by blast
  qed
  ultimately have "wheel w' (xs(?ts := a # xs ?ts))" by (rule rep_wheel [OF w'(2) c])
  moreover have "wait ?c ?t = nat d"
  proof -
    have "(?ts - ?c) mod WHEEL_N = d mod WHEEL_N" by (simp add: mod_simps)
    then show ?thesis by (simp add: wait_def)
  qed
  ultimately show ?thesis
    using that [OF w'(1), of "payload_of ?t"] w'(2) fresh data' by (auto simp: wheel_inv_def rep_def new_timer_def)
qed

section \<open>One tick\<close>

text \<open>The calls that the expired timers \<open>as\<close> make, in order, and their effect.\<close>

fun fire :: "'s runner \<Rightarrow> timers \<Rightarrow> addr list \<Rightarrow> 's \<Rightarrow> 's res" where
  "fire run m [] s = Inr s"
| "fire run m (a # as) s =
     (case m a of None \<Rightarrow> Inl Use_After_Free
      | Some t \<Rightarrow> rbind (run (cb_func t) (user_data t) s) (fire run m as))"

lemma fire_cong: "(\<And>a. a \<in> set as \<Longrightarrow> data m a = data m' a) \<Longrightarrow> fire run m as s = fire run m' as s"
proof (induction as arbitrary: s)
  case (Cons a as)
  have d: "data m a = data m' a" and IH: "fire run m as = fire run m' as" using Cons by (auto intro: ext)
  show ?case
  proof (cases "m a")
    case None
    with d have "m' a = None" by (simp add: data_def)
    with None show ?thesis by simp
  next
    case (Some t)
    with d obtain t' where t': "m' a = Some t'" "payload_of t' = payload_of t"
      by (cases "m' a") (auto simp: data_def)
    then have "cb_func t' = cb_func t" "user_data t' = user_data t" by (metis payload_fields)+
    with Some t' IH show ?thesis by simp
  qed
qed simp

definition turn :: "util_timer \<Rightarrow> util_timer option" where
  "turn t = (if rotation t > 0 then Some (t\<lparr>rotation := rotation t - 1\<rparr>) else None)"

definition live_rot :: "timers \<Rightarrow> addr \<Rightarrow> bool" where
  "live_rot m a = (case m a of Some t \<Rightarrow> rotation t > 0 | None \<Rightarrow> False)"

lemma live_rot_upd: "a \<notin> set zs \<Longrightarrow> filter (live_rot (m(a := t))) zs = filter (live_rot m) zs"
  "a \<notin> set zs \<Longrightarrow> filter (\<lambda>b. \<not> live_rot (m(a := t)) b) zs = filter (\<lambda>b. \<not> live_rot m b) zs"
  by (intro filter_cong refl; auto simp: live_rot_def)+

text \<open>What the loop makes of the timers \<open>zs\<close> it visits.\<close>

definition after_turn :: "timers \<Rightarrow> addr list \<Rightarrow> timers" where
  "after_turn d zs b = (if b \<in> set zs then Option.bind (d b) turn else d b)"

lemma tick_loop_ok:
  assumes "rep w m sl c" and "0 \<le> c" "c < WHEEL_N"
    and "dll m None (sl c) (ys @ zs)" and "distinct (ys @ zs)"
    and "fire run m (filter (\<lambda>a. \<not> live_rot m a) zs) s = Inr s'"
  shows "\<exists>w' m' sl'. tick_loop run w s (head_of zs) = Some (Inr (w', s')) \<and> rep w' m' sl' c
    \<and> dll m' None (sl' c) (ys @ filter (live_rot m) zs) \<and> (\<forall>j. j \<noteq> c \<longrightarrow> sl' j = sl j)
    \<and> (\<forall>b. b \<notin> set (ys @ zs) \<longrightarrow> m' b = m b) \<and> data m' = after_turn (data m) zs"
  using assms
proof (induction zs arbitrary: w m sl ys s)
  case Nil
  have "data m = after_turn (data m) []" by (simp add: after_turn_def fun_eq_iff)
  moreover have "tick_loop run w s (head_of []) = Some (Inr (w, s'))"
    using Nil by (simp add: head_of_def tick_loop.simps [of run w _ None])
  ultimately show ?case using Nil by (intro exI [of _ w] exI [of _ m] exI [of _ sl]) simp
next
  case (Cons a zs)
  note rep = Cons.prems(1) and c = Cons.prems(2,3) and l = Cons.prems(4) and d = Cons.prems(5)
  obtain t where t: "m a = Some t" "t_next t = head_of zs" by (rule dll_at [OF l])
  note de = deref_rep [OF rep t(1)]
  have off: "a \<notin> set ys" "a \<notin> set zs" using d by auto
  show ?case
  proof (cases "rotation t > 0")
    case True
    let ?t' = "t\<lparr>rotation := rotation t - 1\<rparr>" and ?m = "m(a \<mapsto> t\<lparr>rotation := rotation t - 1\<rparr>)"
    obtain w1 where w1: "assign w (Some a) (\<lambda>t. t\<lparr>rotation := rotation t - 1\<rparr>) = Inr w1" "rep w1 ?m sl c"
      by (rule assignE [OF rep t(1)])
    have "dll ?m None (sl c) ((ys @ [a]) @ zs)"
      using l seg_cong [of m None "sl c" "ys @ a # zs" None ?m] t(1) by (simp add: dll_def)
    moreover have "distinct ((ys @ [a]) @ zs)" using d by simp
    moreover have "filter (\<lambda>b. \<not> live_rot ?m b) zs = filter (\<lambda>b. \<not> live_rot m b) zs"
      "filter (live_rot ?m) zs = filter (live_rot m) zs"
      using off(2) by (rule live_rot_upd)+
    note same = this
    moreover have la: "live_rot m a" using t True by (simp add: live_rot_def)
    then have "fire run ?m (filter (\<lambda>b. \<not> live_rot ?m b) zs) s = Inr s'"
      unfolding same using Cons.prems(6) off(2)
      by (subst fire_cong [where m' = m]) (auto simp: data_def)
    ultimately obtain w' m' sl' where IH: "tick_loop run w1 s (head_of zs) = Some (Inr (w', s'))"
      "rep w' m' sl' c" "dll m' None (sl' c) ((ys @ [a]) @ filter (live_rot ?m) zs)"
      "\<forall>j. j \<noteq> c \<longrightarrow> sl' j = sl j" "\<forall>b. b \<notin> set ((ys @ [a]) @ zs) \<longrightarrow> m' b = ?m b"
      "data m' = after_turn (data ?m) zs"
      using Cons.IH [OF w1(2) c] by blast
    have "tick_loop run w s (head_of (a # zs)) = Some (Inr (w', s'))"
      using de True w1(1) IH(1) t(2) by (simp add: head_of_def tick_loop.simps [of run w s "Some a"])
    moreover have "data m' = after_turn (data m) (a # zs)"
      using IH(6) t(1) True off(2) by (auto simp: after_turn_def data_def turn_def payload_of_def fun_eq_iff)
    ultimately show ?thesis
      using IH(2-5) same la by (intro exI [of _ w'] exI [of _ m'] exI [of _ sl']) auto
  next
    case False
    then have la: "\<not> live_rot m a" using t by (simp add: live_rot_def)
    then obtain s1 where s1: "run (cb_func t) (user_data t) s = Inr s1"
      "fire run m (filter (\<lambda>b. \<not> live_rot m b) zs) s1 = Inr s'"
      using Cons.prems(6) t(1) by (auto elim!: rbindE)
    obtain w1 m1 sl1 where w1: "expire_node w a = Inr (w1, head_of zs)" "rep w1 m1 sl1 c"
        "unlinked m sl c ys a zs m1 sl1"
      by (rule expire_node_ok [OF rep c l d])
    have dat: "data m1 = (data m)(a := None)" using w1(3) by (simp add: unlinked_def)
    have "live_rot m1 b = live_rot m b" if "b \<noteq> a" for b
    proof -
      have "data m1 b = data m b" using dat that by simp
      then show ?thesis by (cases "m b"; cases "m1 b") (auto simp: data_def live_rot_def dest: arg_cong [of _ _ rotation])
    qed
    then have same: "filter (\<lambda>b. \<not> live_rot m1 b) zs = filter (\<lambda>b. \<not> live_rot m b) zs"
      "filter (live_rot m1) zs = filter (live_rot m) zs"
      using off(2) by (intro filter_cong refl; metis)+
    have f1: "fire run m1 (filter (\<lambda>b. \<not> live_rot m1 b) zs) s1 = Inr s'"
      unfolding same using s1(2) off(2) dat by (subst fire_cong [where m' = m]) auto
    have "dll m1 None (sl1 c) (ys @ zs)" "distinct (ys @ zs)" using w1(3) d by (auto simp: unlinked_def)
    from Cons.IH [OF w1(2) c this f1] obtain w' m' sl' where IH:
      "tick_loop run w1 s1 (head_of zs) = Some (Inr (w', s'))"
      "rep w' m' sl' c" "dll m' None (sl' c) (ys @ filter (live_rot m1) zs)"
      "\<forall>j. j \<noteq> c \<longrightarrow> sl' j = sl1 j" "\<forall>b. b \<notin> set (ys @ zs) \<longrightarrow> m' b = m1 b"
      "data m' = after_turn (data m1) zs"
      by blast
    have "tick_loop run w s (head_of (a # zs)) = Some (Inr (w', s'))"
      using de False w1(1) s1(1) IH(1) by (simp add: head_of_def tick_loop.simps [of run w s "Some a"])
    moreover have "Option.bind (data m a) turn = None"
      using t(1) False by (simp add: data_def turn_def)
    then have "data m' = after_turn (data m) (a # zs)"
      using IH(6) dat off(2) by (auto simp: after_turn_def fun_eq_iff)
    ultimately show ?thesis
      using IH(2-5) same la w1(3)
      by (intro exI [of _ w'] exI [of _ m'] exI [of _ sl']) (auto simp: unlinked_def)
  qed
qed

text \<open>The countdown of the specification.\<close>

definition count_down :: "(addr \<Rightarrow> nat option) \<Rightarrow> addr \<Rightarrow> nat option" where
  "count_down u a = (case u a of Some (Suc n) \<Rightarrow> Some n | _ \<Rightarrow> None)"

lemma mod_diff:
  fixes j c :: int
  assumes "0 \<le> j" "j < 60" "0 \<le> c" "c < 60"
  shows "(j - c) mod 60 = (if j < c then j - c + 60 else j - c)"
proof -
  have "(j - c + 60) mod 60 = j - c + 60" if "j < c"
    using assms that by (intro mod_pos_pos_trivial) simp_all
  then show ?thesis using assms by (cases "j < c") (simp_all add: mod_pos_pos_trivial)
qed

lemma mod_step:
  fixes j c :: int
  assumes "0 \<le> j" "j < 60" "0 \<le> c" "c < 60"
  shows "(j - (c + 1) mod 60) mod 60 = (if j = c then 59 else (j - c) mod 60 - 1)"
proof (cases "c = 59")
  case True
  with assms mod_diff [OF assms(1,2), of 59] show ?thesis by auto
next
  case False
  then have "c + 1 < 60" using assms(4) by simp
  then show ?thesis
    using assms mod_diff [OF assms] mod_diff [OF assms(1,2), of "c + 1"] by (auto simp: mod_pos_pos_trivial)
qed

lemma wait_turn:
  assumes "0 \<le> time_slot t" "time_slot t < WHEEL_N" "0 \<le> rotation t" "0 \<le> c" "c < WHEEL_N"
  shows "time_slot t \<noteq> c \<Longrightarrow> wait c t = Suc (wait ((c + 1) mod WHEEL_N) t)"
    and "time_slot t = c \<Longrightarrow> rotation t = 0 \<Longrightarrow> wait c t = 0"
    and "time_slot t = c \<Longrightarrow> 0 < rotation t \<Longrightarrow>
      wait c t = Suc (wait ((c + 1) mod WHEEL_N) (t\<lparr>rotation := rotation t - 1\<rparr>))"
  using assms mod_step [of "time_slot t" c] mod_diff [of "time_slot t" c] by (auto simp: wait_def WHEEL_N_def split: if_splits)

lemma due_step:
  assumes "wheel w xs" and "0 \<le> c" and "data m' = after_turn (data (timers_of w)) (xs (cur_slot w))"
    and "c = (cur_slot w + 1) mod WHEEL_N"
  shows "map_option (wait c) (data m' a) = count_down (due w) a"
proof (cases "data (timers_of w) a")
  case None
  then show ?thesis using assms(3) by (simp add: after_turn_def count_down_def due_data)
next
  case (Some t)
  have cur: "0 \<le> cur_slot w" "cur_slot w < WHEEL_N" and pl: "placed (data (timers_of w)) xs"
    using assms(1) by (simp_all add: wheel_iff)
  have ts: "0 \<le> time_slot t" "time_slot t < WHEEL_N" "a \<in> set (xs (time_slot t))"
    using pl Some unfolding placed_def by blast+
  then have "sorted_in (data (timers_of w)) (time_slot t) (xs (time_slot t))" using pl by (simp add: placed_def)
  with ts(3) Some have rot: "0 \<le> rotation t" unfolding sorted_in_def by blast
  have here: "a \<in> set (xs (cur_slot w)) \<longleftrightarrow> time_slot t = cur_slot w"
  proof
    assume "a \<in> set (xs (cur_slot w))"
    moreover have "sorted_in (data (timers_of w)) (cur_slot w) (xs (cur_slot w))" using pl cur by (simp add: placed_def)
    ultimately show "time_slot t = cur_slot w" using Some unfolding sorted_in_def by blast
  qed (use ts in simp)
  note wt = wait_turn [OF ts(1,2) rot cur]
  have due: "due w a = Some (wait (cur_slot w) t)" using Some by (simp add: due_data)
  have new: "data m' a = (if time_slot t = cur_slot w then turn t else Some t)"
    using assms(3) Some here by (simp add: after_turn_def)
  consider "time_slot t \<noteq> cur_slot w" | "time_slot t = cur_slot w" "rotation t = 0"
    | "time_slot t = cur_slot w" "0 < rotation t" using rot by linarith
  then show ?thesis
  proof cases
    case 1
    show ?thesis unfolding due new count_down_def assms(4) wt(1) [OF 1] using 1 by simp
  next
    case 2
    show ?thesis unfolding due new count_down_def wt(2) [OF 2] turn_def using 2 by simp
  next
    case 3
    show ?thesis unfolding due new count_down_def assms(4) wt(3) [OF 3] turn_def using 3 by simp
  qed
qed

lemma due_zero:
  assumes "wheel w xs"
  shows "set (filter (\<lambda>a. \<not> live_rot (timers_of w) a) (xs (cur_slot w))) = {a. due w a = Some 0}"
proof -
  have cur: "0 \<le> cur_slot w" "cur_slot w < WHEEL_N" using assms by (simp_all add: wheel_def)
  have *: "a \<in> set (xs (cur_slot w)) \<and> \<not> live_rot (timers_of w) a \<longleftrightarrow> due w a = Some 0" for a
  proof (cases "timers_of w a")
    case None
    have "dll (timers_of w) None (slots w (cur_slot w)) (xs (cur_slot w))"
      using assms cur by (simp add: wheel_iff linked_def)
    with None show ?thesis by (auto simp: due_def dest: dll_live)
  next
    case (Some t)
    have ts: "0 \<le> time_slot t" "time_slot t < WHEEL_N" "a \<in> set (xs (time_slot t))"
      using assms Some unfolding wheel_def by blast+
    have slot: "in_slot (timers_of w) i (slots w i) (xs i)" if "0 \<le> i" "i < WHEEL_N" for i
      using assms that by (simp add: wheel_def)
    have rot: "0 \<le> rotation t" using slot [OF ts(1,2)] ts(3) Some unfolding in_slot_def by blast
    have here: "a \<in> set (xs (cur_slot w)) \<longleftrightarrow> time_slot t = cur_slot w"
    proof
      assume "a \<in> set (xs (cur_slot w))"
      then show "time_slot t = cur_slot w" using slot [OF cur] Some unfolding in_slot_def by blast
    qed (use ts in simp)
    note wt = wait_turn [OF ts(1,2) rot cur]
    have due: "due w a = Some (wait (cur_slot w) t)" using Some by (simp add: due_def)
    have live: "live_rot (timers_of w) a \<longleftrightarrow> 0 < rotation t" using Some by (simp add: live_rot_def)
    consider "time_slot t \<noteq> cur_slot w" | "time_slot t = cur_slot w" "rotation t = 0"
      | "time_slot t = cur_slot w" "0 < rotation t" using rot by linarith
    then show ?thesis
    proof cases
      case 1
      show ?thesis unfolding due here wt(1) [OF 1] using 1 by simp
    next
      case 2
      show ?thesis unfolding due here live wt(2) [OF 2] using 2 by simp
    next
      case 3
      show ?thesis unfolding due here live wt(3) [OF 3] using 3 by simp
    qed
  qed
  show ?thesis using * by auto
qed

lemma fire_total:
  assumes "\<And>a t s. m a = Some t \<Longrightarrow> is_ok (run (cb_func t) (user_data t) s)" and "\<And>a. a \<in> set as \<Longrightarrow> m a \<noteq> None"
  shows "\<exists>s'. fire run m as s = Inr s'"
  using assms(2)
proof (induction as arbitrary: s)
  case (Cons a as)
  then obtain t where t: "m a = Some t" by auto
  with assms(1) [OF t, of s] obtain s1 where "run (cb_func t) (user_data t) s = Inr s1" by (auto simp: is_ok_iff)
  with t Cons show ?case by auto
qed simp

lemma tick_wheel:
  assumes xs: "wheel w xs" and f: "fire run (timers_of w) (filter (\<lambda>a. \<not> live_rot (timers_of w) a) (xs (cur_slot w))) s = Inr s'"
  obtains w' where "tick run w s = Some (Inr (w', s'))" and "wheel_inv w'" and "due w' = count_down (due w)"
    and "data (timers_of w') = after_turn (data (timers_of w)) (xs (cur_slot w))"
proof -
  let ?c = "cur_slot w" and ?m = "timers_of w"
  have c: "0 \<le> ?c" "?c < WHEEL_N" and lk: "linked ?m (slots w) xs" and pl: "placed (data ?m) xs"
    using xs by (simp_all add: wheel_iff)
  have dl: "dll ?m None (slots w ?c) (xs ?c)" using lk c by (simp add: linked_def)
  have d: "distinct (xs ?c)" using pl c by (simp add: placed_def sorted_in_def)
  note rep = wheel_rep [OF xs]
  have l: "dll ?m None (slots w ?c) ([] @ xs ?c)" and d': "distinct ([] @ xs ?c)" using dl d by simp_all
  obtain w1 m' sl' where 1: "tick_loop run w s (head_of (xs ?c)) = Some (Inr (w1, s'))" "rep w1 m' sl' ?c"
      "dll m' None (sl' ?c) (filter (live_rot ?m) (xs ?c))" "\<forall>j. j \<noteq> ?c \<longrightarrow> sl' j = slots w j"
      "\<forall>b. b \<notin> set (xs ?c) \<longrightarrow> m' b = ?m b" "data m' = after_turn (data ?m) (xs ?c)"
    using tick_loop_ok [OF rep c l d' f] by auto
  let ?w' = "w1\<lparr>cur_slot := (?c + 1) mod WHEEL_N\<rparr>" and ?c' = "(?c + 1) mod WHEEL_N"
  have tick: "tick run w s = Some (Inr (?w', s'))"
    using 1(1,2) slot_at_rep [OF rep c] dll_head [OF dl] by (simp add: tick_def rep_def)
  have rep': "rep ?w' m' sl' ?c'" using 1(2) by (simp add: rep_def timers_of_def)
  have c': "0 \<le> ?c'" "?c' < WHEEL_N" by (simp_all add: WHEEL_N_def)
  let ?xs' = "xs(?c := filter (live_rot ?m) (xs ?c))"
  have "linked m' sl' ?xs'"
    unfolding linked_def
  proof (intro allI impI)
    fix j assume j: "0 \<le> j \<and> j < WHEEL_N"
    show "dll m' None (sl' j) (?xs' j)"
    proof (cases "j = ?c")
      case True
      then show ?thesis using 1(3) by simp
    next
      case False
      then have "m' b = ?m b" if "b \<in> set (xs j)" for b
        using that 1(5) disjoint_slots [OF lk pl, of j ?c b] j c by auto
      moreover have "dll ?m None (slots w j) (xs j)" using lk j by (simp add: linked_def)
      ultimately show ?thesis
        using False 1(4) seg_cong [of ?m None "slots w j" "xs j" None m'] by (simp add: dll_def)
    qed
  qed
  moreover have "placed (data m') ?xs'"
    unfolding placed_def
  proof (intro conjI allI impI)
    fix i assume i: "0 \<le> i \<and> i < WHEEL_N"
    then have old: "sorted_in (data ?m) i (xs i)" using pl by (simp add: placed_def)
    show "sorted_in (data m') i (?xs' i)"
      using old unfolding 1(6) sorted_in_def after_turn_def turn_def
      by (auto split: if_splits bind_splits)
  next
    fix b t assume "data m' b = Some t"
    then obtain u where u: "data ?m b = Some u" "time_slot t = time_slot u"
        "b \<in> set (xs ?c) \<longrightarrow> live_rot ?m b"
      unfolding 1(6) after_turn_def turn_def
      by (auto split: if_splits bind_splits simp: data_Some live_rot_def)
    then have "0 \<le> time_slot u \<and> time_slot u < WHEEL_N \<and> b \<in> set (xs (time_slot u))"
      using pl by (simp add: placed_def)
    with u show "0 \<le> time_slot t" "time_slot t < WHEEL_N" "b \<in> set (?xs' (time_slot t))" by auto
  qed
  ultimately have "wheel ?w' ?xs'" by (rule rep_wheel [OF rep' c'])
  moreover have "due ?w' = count_down (due w)"
  proof
    fix a
    have "timers_of ?w' = m'" "cur_slot ?w' = ?c'" using rep' by (simp_all only: rep_def)
    then show "due ?w' a = count_down (due w) a"
      using due_step [OF xs c'(1) 1(6) refl, of a] by (simp only: due_data)
  qed
  moreover have "data (timers_of ?w') = after_turn (data ?m) (xs ?c)" using rep' 1(6) by (simp add: rep_def)
  ultimately show ?thesis using that [OF tick] by (auto simp: wheel_inv_def)
qed

section \<open>Many ticks\<close>

fun ticks :: "'s runner \<Rightarrow> nat \<Rightarrow> time_wheel \<Rightarrow> 's \<Rightarrow> (time_wheel \<times> 's) res option" where
  "ticks run 0 w s = Some (Inr (w, s))"
| "ticks run (Suc n) w s =
     (case tick run w s of
        Some (Inr r) \<Rightarrow> ticks run n (fst r) (snd r)
      | other \<Rightarrow> other)"

text \<open>The callbacks of the timers in the wheel, each with the argument its timer has, run without undefined behaviour.\<close>

definition callbacks_ok :: "'s runner \<Rightarrow> time_wheel \<Rightarrow> bool" where
  "callbacks_ok run w \<longleftrightarrow> (\<forall>a t. data (timers_of w) a = Some t \<longrightarrow> (\<forall>s. is_ok (run (cb_func t) (user_data t) s)))"

lemma tick_safe:
  assumes "wheel_inv w" and "callbacks_ok run w"
  obtains as w' s' where "distinct as" and "set as = {a. due w a = Some 0}"
    and "fire run (timers_of w) as s = Inr s'" and "tick run w s = Some (Inr (w', s'))"
    and "wheel_inv w'" and "due w' = count_down (due w)" and "callbacks_ok run w'"
proof -
  obtain xs where xs: "wheel w xs" using assms(1) by (auto simp: wheel_inv_def)
  let ?as = "filter (\<lambda>a. \<not> live_rot (timers_of w) a) (xs (cur_slot w))"
  have set: "set ?as = {a. due w a = Some 0}" by (rule due_zero [OF xs])
  have dist: "distinct ?as" using xs by (auto simp: wheel_iff placed_def sorted_in_def)
  have ok: "is_ok (run (cb_func t) (user_data t) s)" if "timers_of w a = Some t" for a t s
  proof -
    have "data (timers_of w) a = Some (payload_of t)" using that by (simp add: data_def)
    then have "is_ok (run (cb_func (payload_of t)) (user_data (payload_of t)) s)" using assms(2) unfolding callbacks_ok_def by blast
    then show ?thesis by (simp add: payload_of_def)
  qed
  have live: "timers_of w a \<noteq> None" if "a \<in> set ?as" for a
    using that unfolding set by (auto simp: due_def)
  obtain s' where f: "fire run (timers_of w) ?as s = Inr s'" using fire_total [of "timers_of w" run ?as s] ok live by blast
  obtain w' where w': "tick run w s = Some (Inr (w', s'))" "wheel_inv w'" "due w' = count_down (due w)"
      "data (timers_of w') = after_turn (data (timers_of w)) (xs (cur_slot w))"
    by (rule tick_wheel [OF xs f])
  have "callbacks_ok run w'"
    using assms(2) unfolding callbacks_ok_def w'(4) after_turn_def turn_def
    by (auto split: if_splits bind_splits)
  with that [OF dist set f w'(1-3)] show ?thesis .
qed

lemma ticks_due:
  assumes "wheel_inv w" and "callbacks_ok run w"
  shows "\<exists>w' s'. ticks run n w s = Some (Inr (w', s')) \<and> wheel_inv w' \<and> callbacks_ok run w'
    \<and> (\<forall>a. due w' a = (case due w a of Some d \<Rightarrow> if n \<le> d then Some (d - n) else None | None \<Rightarrow> None))"
  using assms
proof (induction n arbitrary: w s)
  case 0
  then show ?case by (auto split: option.splits)
next
  case (Suc n)
  obtain as w1 s1 where 1: "tick run w s = Some (Inr (w1, s1))" "wheel_inv w1" "due w1 = count_down (due w)" "callbacks_ok run w1"
    using tick_safe [OF Suc.prems] by metis
  obtain w' s' where "ticks run n w1 s1 = Some (Inr (w', s'))" "wheel_inv w'" "callbacks_ok run w'"
    "\<forall>a. due w' a = (case due w1 a of Some d \<Rightarrow> if n \<le> d then Some (d - n) else None | None \<Rightarrow> None)"
    using Suc.IH [OF 1(2) 1(4)] by blast
  with 1 show ?case by (auto simp: count_down_def split: option.splits nat.splits)
qed

section \<open>The claims\<close>

text \<open>\<open>add_timer\<close> adds one entry to the specification and disturbs none.\<close>

theorem add_timer_spec:
  assumes "wheel_inv w" and "0 \<le> timeout"
  shows "\<exists>w' a. add_timer w timeout cur = Inr (w', Some a) \<and> wheel_inv w' \<and> due w a = None
    \<and> due w' = (due w)(a \<mapsto> nat (max 1 timeout))"
proof -
  obtain w' a t where "add_timer w timeout cur = Inr (w', Some a)" "wheel_inv w'" "cur_slot w' = cur_slot w"
    "timers_of w a = None" "data (timers_of w') = (data (timers_of w))(a \<mapsto> t)"
    "wait (cur_slot w) t = nat (max 1 timeout)"
    by (rule add_timer_ok [OF assms])
  then show ?thesis
    by (intro exI [of _ w'] exI [of _ a]) (auto simp: due_data fun_eq_iff data_def)
qed

lemma wheel_inv_empty: "wheel_inv empty_wheel"
  using wheel_empty by (auto simp: wheel_inv_def)

lemma due_empty: "due empty_wheel a = None"
  by (simp add: due_def timers_of_def empty_wheel_def view_def empty_pool_def)

theorem add_timer_spec_witness:
  "\<exists>w' a. add_timer empty_wheel 15 0 = Inr (w', Some a) \<and> due w' = [a \<mapsto> 15]"
  using add_timer_spec [OF wheel_inv_empty, of 15 0] due_empty by (fastforce simp: fun_eq_iff)

text \<open>\<open>del_timer\<close> removes exactly its timer, wherever it is in its list.\<close>

theorem del_timer_spec:
  assumes "wheel_inv w" and "due w a \<noteq> None"
  shows "\<exists>w'. del_timer w (Some a) = Inr w' \<and> wheel_inv w' \<and> due w' = (due w)(a := None)"
proof -
  have "timers_of w a \<noteq> None" using assms(2) by (simp add: due_def)
  then obtain w' where "del_timer w (Some a) = Inr w'" "wheel_inv w'" "cur_slot w' = cur_slot w"
    "data (timers_of w') = (data (timers_of w))(a := None)"
    by (rule del_timer_ok [OF assms(1)])
  then show ?thesis by (intro exI [of _ w']) (auto simp: due_data fun_eq_iff)
qed

lemma one_timer: "\<exists>w a. add_timer empty_wheel 15 0 = Inr (w, Some a) \<and> wheel_inv w \<and> due w = [a \<mapsto> 15]"
proof -
  obtain w' a t where "add_timer empty_wheel 15 0 = Inr (w', Some a)" "wheel_inv w'"
    "cur_slot w' = cur_slot empty_wheel"
    "data (timers_of w') = (data (timers_of empty_wheel))(a \<mapsto> t)" "wait (cur_slot empty_wheel) t = nat (max 1 15)"
    by (rule add_timer_ok [OF wheel_inv_empty, of 15 0]) simp
  then show ?thesis using due_empty
    by (intro exI [of _ w'] exI [of _ a]) (auto simp: due_data fun_eq_iff)
qed

theorem del_timer_spec_witness:
  "\<exists>w a w'. add_timer empty_wheel 15 0 = Inr (w, Some a) \<and> del_timer w (Some a) = Inr w' \<and> due w' a = None"
proof -
  obtain w a where w: "add_timer empty_wheel 15 0 = Inr (w, Some a)" "wheel_inv w" "due w = [a \<mapsto> 15]"
    using one_timer by blast
  then have "due w a \<noteq> None" by simp
  from del_timer_spec [OF w(2) this] w show ?thesis by auto
qed

text \<open>
  C7. One tick fires exactly the timers that are due, each once, and brings the others one tick
  nearer; the walk through the slot's list ends. The callbacks of the timers that are in the
  wheel have to be safe for the arguments these timers have, which those of the server are
  (\<open>server_callbacks_ok\<close> of \<open>Server_Inv\<close>); the witness is a tick of the server that closes a client.
\<close>

theorem tick_spec:
  assumes "wheel_inv w" and "callbacks_ok run w"
  shows "\<exists>as w' s'. distinct as \<and> set as = {a. due w a = Some 0} \<and> fire run (timers_of w) as s = Inr s'
    \<and> tick run w s = Some (Inr (w', s')) \<and> wheel_inv w' \<and> due w' = count_down (due w)"
  by (rule tick_safe [OF assms, of s]) blast

text \<open>
  A timer that is left alone stays for \<open>max 1 timeout\<close> ticks and is due in the tick after
  them: fifteen seconds asked for are sixteen ticks, and with \<open>TIMESLOT\<close> seconds between ticks
  eighty seconds.
\<close>

theorem timer_lifetime:
  assumes "wheel_inv w" and "callbacks_ok run w" and "due w a = Some d"
  shows "\<exists>w' s'. ticks run d w s = Some (Inr (w', s')) \<and> due w' a = Some 0
    \<and> (\<exists>w'' s''. ticks run (Suc d) w s = Some (Inr (w'', s'')) \<and> due w'' a = None)"
proof -
  obtain w' s' where 1: "ticks run d w s = Some (Inr (w', s'))"
    "\<forall>a. due w' a = (case due w a of Some n \<Rightarrow> if d \<le> n then Some (n - d) else None | None \<Rightarrow> None)"
    using ticks_due [OF assms(1,2), of d s] by blast
  obtain w'' s'' where 2: "ticks run (Suc d) w s = Some (Inr (w'', s''))"
    "\<forall>a. due w'' a = (case due w a of Some n \<Rightarrow> if Suc d \<le> n then Some (n - Suc d) else None | None \<Rightarrow> None)"
    using ticks_due [OF assms(1,2), of "Suc d" s] by blast
  show ?thesis
  proof (intro exI conjI)
    show "ticks run d w s = Some (Inr (w', s'))" by (rule 1)
    show "due w' a = Some 0" using 1(2) assms(3) by simp
    show "ticks run (Suc d) w s = Some (Inr (w'', s''))" by (rule 2)
    show "due w'' a = None" using 2(2) assms(3) by simp
  qed
qed

definition bind_timer :: "time_wheel \<Rightarrow> addr \<Rightarrow> int \<Rightarrow> time_wheel res" where
  "bind_timer w a u =
     rbind (assign w (Some a) (\<lambda>t. t\<lparr>user_data := Some u\<rparr>)) (\<lambda>w1.
     assign w1 (Some a) (\<lambda>t. t\<lparr>cb_func := Some Cb_Func\<rparr>))"

lemma wheel_assign:
  assumes xs: "wheel w xs" and t: "timers_of w a = Some t"
    and f: "t_prev (f t) = t_prev t" "t_next (f t) = t_next t" "time_slot (f t) = time_slot t" "rotation (f t) = rotation t"
  obtains w' where "assign w (Some a) f = Inr w'" and "wheel w' xs" and "timers_of w' = (timers_of w)(a \<mapsto> f t)"
    and "cur_slot w' = cur_slot w"
proof -
  obtain w' where w': "assign w (Some a) f = Inr w'" "rep w' ((timers_of w)(a \<mapsto> f t)) (slots w) (cur_slot w)"
    by (rule assignE [OF wheel_rep [OF xs] t])
  have "linked ((timers_of w)(a \<mapsto> f t)) (slots w) xs"
    unfolding linked_def
  proof (intro allI impI)
    fix i assume "0 \<le> i \<and> i < WHEEL_N"
    then have "dll (timers_of w) None (slots w i) (xs i)" using xs by (simp add: wheel_iff linked_def)
    then show "dll ((timers_of w)(a \<mapsto> f t)) None (slots w i) (xs i)"
      unfolding dll_def by (rule seg_cong) (use t f in auto)
  qed
  moreover have "placed (data ((timers_of w)(a \<mapsto> f t))) xs"
  proof -
    have "\<exists>u. data (timers_of w) b = Some u \<and> time_slot u = time_slot v \<and> rotation u = rotation v"
      if "data ((timers_of w)(a \<mapsto> f t)) b = Some v" for b v
      using that t f by (cases "b = a") (auto simp: data_def)
    note back_to = this
    have pl: "placed (data (timers_of w)) xs" using xs by (simp add: wheel_iff)
    have "sorted_in (data ((timers_of w)(a \<mapsto> f t))) i (xs i)" if i: "0 \<le> i" "i < WHEEL_N" for i
    proof -
      have old: "sorted_in (data (timers_of w)) i (xs i)" using pl i by (simp add: placed_def)
      show ?thesis
        unfolding sorted_in_def
      proof (intro conjI ballI allI impI)
        show "distinct (xs i)" using old by (simp add: sorted_in_def)
        fix b v assume b: "b \<in> set (xs i)" "data ((timers_of w)(a \<mapsto> f t)) b = Some v"
        from back_to [OF b(2)] obtain u where u: "data (timers_of w) b = Some u"
          "time_slot u = time_slot v" "rotation u = rotation v" by blast
        have "time_slot u = i \<and> 0 \<le> rotation u" using old b(1) u(1) unfolding sorted_in_def by blast
        with u show "time_slot v = i" "0 \<le> rotation v" by simp_all
      qed
    qed
    moreover have "0 \<le> time_slot v \<and> time_slot v < WHEEL_N \<and> b \<in> set (xs (time_slot v))"
      if "data ((timers_of w)(a \<mapsto> f t)) b = Some v" for b v
    proof -
      from back_to [OF that] obtain u where u: "data (timers_of w) b = Some u" "time_slot u = time_slot v" by blast
      have "0 \<le> time_slot u \<and> time_slot u < WHEEL_N \<and> b \<in> set (xs (time_slot u))"
        using pl u(1) unfolding placed_def by blast
      with u(2) show ?thesis by simp
    qed
    ultimately show ?thesis by (simp add: placed_def)
  qed
  ultimately have "wheel w' xs"
    using xs by (intro rep_wheel [OF w'(2)]) (simp_all add: wheel_def)
  with that w' show ?thesis by (auto simp: rep_def)
qed

lemma bind_timer_ok:
  assumes "wheel_inv w" and "data (timers_of w) a = Some t"
  obtains w' where "bind_timer w a u = Inr w'" and "wheel_inv w'" and "cur_slot w' = cur_slot w"
    and "data (timers_of w') = (data (timers_of w))(a \<mapsto> t\<lparr>user_data := Some u, cb_func := Some Cb_Func\<rparr>)"
proof -
  obtain xs where xs: "wheel w xs" using assms(1) by (auto simp: wheel_inv_def)
  obtain t0 where t0: "timers_of w a = Some t0" "payload_of t0 = t" using assms(2) by (auto simp: data_Some)
  obtain w1 where w1: "assign w (Some a) (\<lambda>t. t\<lparr>user_data := Some u\<rparr>) = Inr w1" "wheel w1 xs"
      "timers_of w1 = (timers_of w)(a \<mapsto> t0\<lparr>user_data := Some u\<rparr>)" "cur_slot w1 = cur_slot w"
    by (rule wheel_assign [OF xs t0(1), of "\<lambda>t. t\<lparr>user_data := Some u\<rparr>"]) simp_all
  have t1: "timers_of w1 a = Some (t0\<lparr>user_data := Some u\<rparr>)" using w1(3) by simp
  obtain w2 where w2: "assign w1 (Some a) (\<lambda>t. t\<lparr>cb_func := Some Cb_Func\<rparr>) = Inr w2" "wheel w2 xs"
      "timers_of w2 = (timers_of w1)(a \<mapsto> t0\<lparr>user_data := Some u, cb_func := Some Cb_Func\<rparr>)" "cur_slot w2 = cur_slot w1"
    by (rule wheel_assign [OF w1(2) t1, of "\<lambda>t. t\<lparr>cb_func := Some Cb_Func\<rparr>"]) simp_all
  have "data (timers_of w2) = (data (timers_of w))(a \<mapsto> t\<lparr>user_data := Some u, cb_func := Some Cb_Func\<rparr>)"
    using w1(3) w2(3) t0(2) by (auto simp: data_def fun_eq_iff payload_of_def)
  with that [of w2] w1 w2 show ?thesis by (auto simp: bind_timer_def wheel_inv_def)
qed

definition log_runner :: "int option list runner" where
  "log_runner cb u s = Inr (s @ [u])"

theorem timer_lifetime_witness:
  "\<exists>w a w' s'. due w a = Some 15 \<and> ticks log_runner 15 w [] = Some (Inr (w', s')) \<and> due w' a = Some 0"
proof -
  obtain w a t where w: "add_timer empty_wheel 15 0 = Inr (w, Some a)" "wheel_inv w"
    "cur_slot w = cur_slot empty_wheel"
    "data (timers_of w) = (data (timers_of empty_wheel))(a \<mapsto> t)" "wait (cur_slot empty_wheel) t = nat (max 1 15)"
    by (rule add_timer_ok [OF wheel_inv_empty, of 15 0]) simp
  obtain w1 where w1: "bind_timer w a 7 = Inr w1" "wheel_inv w1" "cur_slot w1 = cur_slot w"
    "data (timers_of w1) = (data (timers_of w))(a \<mapsto> t\<lparr>user_data := Some 7, cb_func := Some Cb_Func\<rparr>)"
    by (rule bind_timer_ok [OF w(2), of a t 7]) (simp add: w(4))
  have "callbacks_ok log_runner w1" by (simp add: callbacks_ok_def log_runner_def)
  moreover have due: "due w1 a = Some 15"
    using w1(3,4) w(3,5) by (simp add: due_data wait_def)
  ultimately have "\<exists>w' s'. ticks log_runner 15 w1 [] = Some (Inr (w', s')) \<and> due w' a = Some 0"
    using timer_lifetime [OF w1(2), of log_runner a 15 "[]"] by blast
  with due show ?thesis by blast
qed

end
