(* ===== verification/Web_Server.thy ===== *)
theory Web_Server
  imports Time_Wheel Thread_Pool Http_Write Http_Parse
begin

text \<open>
  \<open>WebServer\<close> (\<open>webserver.cpp\<close>) and the parts of \<open>Utils\<close> it uses (\<open>timer/lst_timer.cpp\<close>): the
  main thread. It accepts connections, gives each a timer, reads requests for the worker
  threads, writes their answers, and closes the connections whose timer expires.

  The record \<open>server\<close> is the state of the main thread: the descriptors and the epoll table
  (\<open>kernel\<close>), the array \<open>users\<close> of connections (\<open>conns\<close>), the array \<open>users_timer\<close>, the time wheel
  inside \<open>utils\<close>, and the thread pool. Both arrays have \<open>MAX_FD\<close> elements and are indexed by
  descriptors; an element of \<open>users_timer\<close> is \<open>None\<close> until it is written (the arrays come
  from \<open>new[]\<close> without initialisers), and so are the two trigger modes, which the constructor
  leaves alone. A pointer into \<open>users_timer\<close> is the index. Members that
  other classes have too carry the prefix \<open>ws_\<close>. What the kernel answers to the system calls of
  a step is part of the step: the results of \<open>accept\<close>, \<open>recv\<close> and \<open>writev\<close>, and the time. Log
  output is left out.
\<close>

definition MAX_FD :: int where "MAX_FD = 65536"
definition TIMESLOT :: int where "TIMESLOT = 5"

record client_data =
  cd_address :: nat
  cd_sockfd :: int
  cd_timer :: "addr option"

record server =
  ws_port :: int
  ws_root :: string
  ws_log_write :: int
  ws_close_log :: int
  ws_actormodel :: int
  ws_pipefd0 :: int
  ws_pipefd1 :: int
  ws_mysql_host :: string
  ws_user :: string
  ws_passWord :: string
  ws_databaseName :: string
  ws_sql_num :: int
  ws_thread_num :: int
  ws_listenfd :: int
  ws_OPT_LINGER :: int
  ws_TRIGMode :: int
  ws_LISTENTrigmode :: "int option"
  ws_CONNTrigmode :: "int option"
  kernel :: os
  conns :: "int \<Rightarrow> http_conn"
  users_timer :: "int \<Rightarrow> client_data option"
  timer_lst :: time_wheel
  alarm_set :: int
  requests :: "int thread_pool"

section \<open>The copies of the wrappers in Utils\<close>

definition utils_setnonblocking :: "os \<Rightarrow> int \<Rightarrow> os" where
  "utils_setnonblocking k fd = (if fd_open k fd then k\<lparr>fd_nonblock := (fd_nonblock k)(fd := True)\<rparr> else k)"

definition utils_addfd :: "os \<Rightarrow> int \<Rightarrow> bool \<Rightarrow> int \<Rightarrow> os" where
  "utils_addfd k fd one_shot TRIGMode =
     (let ev = (if 1 = TRIGMode then EPOLLIN OR EPOLLET OR EPOLLRDHUP else EPOLLIN OR EPOLLRDHUP);
          events = (if one_shot then ev OR EPOLLONESHOT else ev)
      in utils_setnonblocking (epoll_ctl_add k fd events) fd)"

lemma utils_setnonblocking_eq [simp]: "utils_setnonblocking = setnonblocking"
  by (simp add: fun_eq_iff utils_setnonblocking_def setnonblocking_def)

lemma utils_addfd_eq [simp]: "utils_addfd = addfd"
  by (simp add: fun_eq_iff utils_addfd_def addfd_def addfd_events_def Let_def)

text \<open>
  The handler of the signals: it sends one byte, the low one of the number, into the pipe. The
  bytes in the pipe are a list, as \<open>recv\<close> will deliver them.
\<close>

definition sig_handler :: "nat list \<Rightarrow> nat \<Rightarrow> nat list" where
  "sig_handler pipe sig = pipe @ [sig mod 256]"

section \<open>Setting the server up\<close>

text \<open>
  The constructor: \<open>cwd\<close> is the working directory. \<open>getcwd\<close> fails when it does not fit the 200
  bytes, and the array it should have filled is read all the same.
\<close>

definition new_server :: "server \<Rightarrow> string \<Rightarrow> server res" where
  "new_server s cwd =
     (if length cwd \<ge> 200 then Inl Uninitialised
      else Inr (s\<lparr>users_timer := (\<lambda>_. None), timer_lst := empty_wheel, ws_root := cwd @ ''/root'',
        ws_LISTENTrigmode := None, ws_CONNTrigmode := None\<rparr>))"


definition ws_init ::
    "server \<Rightarrow> int \<Rightarrow> string \<Rightarrow> string \<Rightarrow> string \<Rightarrow> string \<Rightarrow> int \<Rightarrow> int \<Rightarrow> int \<Rightarrow> int \<Rightarrow> int \<Rightarrow> int \<Rightarrow> int \<Rightarrow> server" where
  "ws_init s port mysql_host user passWord databaseName log_write opt_linger trigmode sql_num thread_num close_log actor_model =
     s\<lparr>ws_port := port, ws_mysql_host := mysql_host, ws_user := user, ws_passWord := passWord,
       ws_databaseName := databaseName, ws_sql_num := sql_num, ws_thread_num := thread_num,
       ws_log_write := log_write, ws_OPT_LINGER := opt_linger, ws_TRIGMode := trigmode,
       ws_close_log := close_log, ws_actormodel := actor_model\<rparr>"

text \<open>For a mode other than 0 to 3 nothing is assigned, and the first use of a trigger mode reads an uninitialised member.\<close>

definition trig_mode :: "server \<Rightarrow> server" where
  "trig_mode s =
     (if 0 = ws_TRIGMode s then s\<lparr>ws_LISTENTrigmode := Some 0, ws_CONNTrigmode := Some 0\<rparr>
      else if 1 = ws_TRIGMode s then s\<lparr>ws_LISTENTrigmode := Some 0, ws_CONNTrigmode := Some 1\<rparr>
      else if 2 = ws_TRIGMode s then s\<lparr>ws_LISTENTrigmode := Some 1, ws_CONNTrigmode := Some 0\<rparr>
      else if 3 = ws_TRIGMode s then s\<lparr>ws_LISTENTrigmode := Some 1, ws_CONNTrigmode := Some 1\<rparr>
      else s)"

text \<open>
  \<open>eventListen\<close>, given the results of the system calls that are asserted: \<open>None\<close> when an
  assertion fails and the program aborts. \<open>pipefd\<close> are the two ends of the socket pair.
\<close>

definition eventListen :: "server \<Rightarrow> int \<Rightarrow> int \<Rightarrow> int \<Rightarrow> int \<Rightarrow> (int \<times> int) option \<Rightarrow> server res option" where
  "eventListen s sock bound listening epollfd pipefd =
     (if sock < 0 \<or> bound < 0 \<or> listening < 0 \<or> epollfd = - 1 then None
      else (case ws_LISTENTrigmode s of
        None \<Rightarrow> Some (Inl Uninitialised)
      | Some mode \<Rightarrow>
          let k1 = utils_addfd ((kernel s)\<lparr>fd_open := (fd_open (kernel s))(sock := True)\<rparr>) sock False mode
          in (case pipefd of
            None \<Rightarrow> None
          | Some (p0, p1) \<Rightarrow>
              let k2 = utils_setnonblocking (k1\<lparr>fd_open := (fd_open k1)(p0 := True, p1 := True)\<rparr>) p1;
                  k3 = utils_addfd k2 p0 False 0
              in Some (Inr (s\<lparr>ws_listenfd := sock, ws_pipefd0 := p0, ws_pipefd1 := p1, kernel := k3, alarm_set := TIMESLOT\<rparr>)))))"

section \<open>Timers of connections\<close>

text \<open>The callback of the timers: it takes the descriptor from the \<open>client_data\<close> it is given.\<close>

definition cb_close :: "(int \<Rightarrow> client_data option) \<Rightarrow> int option \<Rightarrow> os \<Rightarrow> os res" where
  "cb_close ut user k = (case user of
     None \<Rightarrow> Inl Null_Deref
   | Some i \<Rightarrow> (case ut i of
       None \<Rightarrow> Inl Uninitialised
     | Some d \<Rightarrow>
         let k1 = close_fd (epoll_ctl_del k (cd_sockfd d)) (cd_sockfd d)
         in Inr (k1\<lparr>m_user_count := m_user_count k1 - 1\<rparr>)))"

definition run_callback :: "(int \<Rightarrow> client_data option) \<Rightarrow> os runner" where
  "run_callback ut cb user k = (case cb of None \<Rightarrow> Inl Uninitialised | Some Cb_Func \<Rightarrow> cb_close ut user k)"

definition in_users :: "int \<Rightarrow> bool" where
  "in_users fd \<longleftrightarrow> 0 \<le> fd \<and> fd < MAX_FD"

text \<open>\<open>users_timer[fd].timer = t\<close>.\<close>

definition set_cd_timer :: "(int \<Rightarrow> client_data option) \<Rightarrow> int \<Rightarrow> addr \<Rightarrow> (int \<Rightarrow> client_data option)" where
  "set_cd_timer ut fd a = ut(fd := map_option (\<lambda>d. d\<lparr>cd_timer := Some a\<rparr>) (ut fd))"

text \<open>\<open>WebServer::timer\<close>: a new connection.\<close>

definition new_client :: "server \<Rightarrow> int \<Rightarrow> int \<Rightarrow> nat \<Rightarrow> server res" where
  "new_client s now connfd client_address =
     (if \<not> in_users connfd then Inl Out_Of_Bounds
      else (case ws_CONNTrigmode s of
        None \<Rightarrow> Inl Uninitialised
      | Some mode \<Rightarrow>
          rbind (init_conn (kernel s) (conns s connfd) connfd client_address (ws_root s) mode
             (ws_close_log s) (ws_user s) (ws_passWord s) (ws_databaseName s)) (\<lambda>(k, c).
           rbind (add_timer (timer_lst s) (3 * TIMESLOT) now) (\<lambda>(w, timer).
           (case timer of
              None \<Rightarrow> Inl Null_Deref
            | Some a \<Rightarrow>
                rbind (bind_timer w a connfd) (\<lambda>w1.
                Inr (s\<lparr>kernel := k, conns := (conns s)(connfd := c), timer_lst := w1,
                  users_timer := (users_timer s)(connfd \<mapsto>
                    \<lparr>cd_address = client_address, cd_sockfd = connfd, cd_timer = Some a\<rparr>)\<rparr>)))))))"

definition adjust_timer :: "server \<Rightarrow> int \<Rightarrow> addr \<Rightarrow> server res" where
  "adjust_timer s now timer =
     rbind (deref (timer_lst s) (Some timer)) (\<lambda>t.
     rbind (del_timer (timer_lst s) (Some timer)) (\<lambda>w1.
     rbind (add_timer w1 (3 * TIMESLOT) now) (\<lambda>(w2, new).
     (case new of
        None \<Rightarrow> Inl Null_Deref
      | Some a \<Rightarrow>
          (case user_data t of
             None \<Rightarrow> Inl Null_Deref
           | Some i \<Rightarrow>
               rbind (bind_timer w2 a i) (\<lambda>w3.
               (case users_timer s i of
                  None \<Rightarrow> Inl Uninitialised
                | Some c_data \<Rightarrow>
                    if \<not> in_users (cd_sockfd c_data) then Inl Out_Of_Bounds
                    else Inr (s\<lparr>timer_lst := w3,
                      users_timer := set_cd_timer (users_timer s) (cd_sockfd c_data) a\<rparr>))))))))"

text \<open>The callback is called through the timer before the timer is tested for null.\<close>

definition deal_timer :: "server \<Rightarrow> addr option \<Rightarrow> int \<Rightarrow> server res" where
  "deal_timer s timer sockfd =
     rbind (deref (timer_lst s) timer) (\<lambda>t.
     rbind (run_callback (users_timer s) (cb_func t) (Some sockfd) (kernel s)) (\<lambda>k.
     rbind (del_timer (timer_lst s) timer) (\<lambda>w.
     Inr (s\<lparr>kernel := k, timer_lst := w\<rparr>))))"

section \<open>Accepting\<close>

datatype accept_result = Accepted int nat | Accept_Failed

definition show_error :: "os \<Rightarrow> int \<Rightarrow> os" where
  "show_error k connfd = close_fd k connfd"

text \<open>What one \<open>accept\<close> leads to: the new state, and whether a connection was taken on.\<close>

definition accept_one :: "server \<Rightarrow> int \<Rightarrow> accept_result \<Rightarrow> (server \<times> bool) res" where
  "accept_one s now r = (case r of
     Accept_Failed \<Rightarrow> Inr (s, False)
   | Accepted connfd client_address \<Rightarrow>
       let k = (kernel s)\<lparr>fd_open := (fd_open (kernel s))(connfd := True)\<rparr>; s1 = s\<lparr>kernel := k\<rparr> in
       if m_user_count k \<ge> MAX_FD then Inr (s1\<lparr>kernel := show_error k connfd\<rparr>, False)
       else rbind (new_client s1 now connfd client_address) (\<lambda>s2. Inr (s2, True)))"

text \<open>The loop of the edge-triggered case ends with the first failure; at the end of the list \<open>accept\<close> fails.\<close>

fun accept_all :: "server \<Rightarrow> int \<Rightarrow> accept_result list \<Rightarrow> server res" where
  "accept_all s now [] = Inr s"
| "accept_all s now (r # rs) =
     rbind (accept_one s now r) (\<lambda>(s1, more). if more then accept_all s1 now rs else Inr s1)"

definition dealclinetdata :: "server \<Rightarrow> int \<Rightarrow> accept_result list \<Rightarrow> (server \<times> bool) res" where
  "dealclinetdata s now rs =
     (case ws_LISTENTrigmode s of
        None \<Rightarrow> Inl Uninitialised
      | Some mode \<Rightarrow>
          if 0 = mode then (case rs of [] \<Rightarrow> Inr (s, False) | r # _ \<Rightarrow> accept_one s now r)
          else rbind (accept_all s now rs) (\<lambda>s1. Inr (s1, False)))"

section \<open>Signals, reading and writing\<close>

definition SIGALRM :: nat where "SIGALRM = 14"
definition SIGTERM :: nat where "SIGTERM = 15"

text \<open>The bytes that \<open>recv\<close> takes from the pipe, \<open>None\<close> on an error; the two flags.\<close>

definition dealwithsignal :: "nat list option \<Rightarrow> bool \<times> bool \<Rightarrow> (bool \<times> bool) \<times> bool" where
  "dealwithsignal signals flags = (case signals of
     None \<Rightarrow> (flags, False)
   | Some [] \<Rightarrow> (flags, False)
   | Some sigs \<Rightarrow>
       (foldl (\<lambda>(timeout, stop_server) sig.
          if sig = SIGALRM then (True, stop_server)
          else if sig = SIGTERM then (timeout, True) else (timeout, stop_server)) flags sigs, True))"

definition user_timer :: "server \<Rightarrow> int \<Rightarrow> addr option res" where
  "user_timer s sockfd =
     (if \<not> in_users sockfd then Inl Out_Of_Bounds
      else (case users_timer s sockfd of None \<Rightarrow> Inl Uninitialised | Some d \<Rightarrow> Inr (cd_timer d)))"

definition adjust_if :: "server \<Rightarrow> int \<Rightarrow> addr option \<Rightarrow> server res" where
  "adjust_if s now timer = (case timer of None \<Rightarrow> Inr s | Some a \<Rightarrow> adjust_timer s now a)"

definition dealwithread :: "server \<Rightarrow> int \<Rightarrow> int \<Rightarrow> recv_result list \<Rightarrow> server res" where
  "dealwithread s now sockfd rs =
     rbind (user_timer s sockfd) (\<lambda>timer.
     if 1 = ws_actormodel s then
       rbind (adjust_if s now timer) (\<lambda>s1.
       (case read_once (conns s1 sockfd) rs of (c, ok) \<Rightarrow>
         if ok then
           (case append_state (requests s1) (\<lambda>fd. if fd = sockfd then 0 else m_state (conns s1 fd)) sockfd 0 of
             (q, st, _) \<Rightarrow>
               Inr (s1\<lparr>conns := (conns s1)(sockfd := c\<lparr>improv := 0, m_state := st sockfd\<rparr>), requests := q\<rparr>))
         else deal_timer (s1\<lparr>conns := (conns s1)(sockfd := c)\<rparr>) timer sockfd))
     else
       (case read_once (conns s sockfd) rs of (c, ok) \<Rightarrow>
         let s1 = s\<lparr>conns := (conns s)(sockfd := c)\<rparr> in
         if ok then
           (case append_p (requests s1) sockfd of (q, _) \<Rightarrow> adjust_if (s1\<lparr>requests := q\<rparr>) now timer)
         else deal_timer s1 timer sockfd))"

definition dealwithwrite :: "server \<Rightarrow> int \<Rightarrow> int \<Rightarrow> writev_result list \<Rightarrow> server res" where
  "dealwithwrite s now sockfd rs =
     rbind (user_timer s sockfd) (\<lambda>timer.
     if 1 = ws_actormodel s then
       rbind (adjust_if s now timer) (\<lambda>s1.
       rbind (write_conn (kernel s1) (conns s1 sockfd) rs) (\<lambda>(k, c, _, ok).
         let s2 = s1\<lparr>kernel := k, conns := (conns s1)(sockfd := c)\<rparr> in
         if ok then Inr s2 else deal_timer s2 timer sockfd))
     else
       rbind (write_conn (kernel s) (conns s sockfd) rs) (\<lambda>(k, c, _, ok).
         let s1 = s\<lparr>kernel := k, conns := (conns s)(sockfd := c)\<rparr> in
         if ok then adjust_if s1 now timer else deal_timer s1 timer sockfd))"

section \<open>The event loop\<close>

text \<open>One entry of \<open>events\<close> with what the system calls made for it deliver.\<close>

record ready =
  ev_fd :: int
  ev_events :: events
  ev_accept :: "accept_result list"
  ev_signals :: "nat list option"
  ev_recv :: "recv_result list"
  ev_writev :: "writev_result list"

definition handle_event :: "server \<Rightarrow> int \<Rightarrow> bool \<times> bool \<Rightarrow> ready \<Rightarrow> (server \<times> bool \<times> bool) res" where
  "handle_event s now flags e =
     (let sockfd = ev_fd e in
      if sockfd = ws_listenfd s
      then rbind (dealclinetdata s now (ev_accept e)) (\<lambda>(s1, _). Inr (s1, flags))
      else if has_event (ev_events e) (EPOLLRDHUP OR EPOLLHUP OR EPOLLERR)
      then rbind (user_timer s sockfd) (\<lambda>timer.
           rbind (deal_timer s timer sockfd) (\<lambda>s1. Inr (s1, flags)))
      else if sockfd = ws_pipefd0 s \<and> has_event (ev_events e) EPOLLIN
      then Inr (s, fst (dealwithsignal (ev_signals e) flags))
      else if has_event (ev_events e) EPOLLIN
      then rbind (dealwithread s now sockfd (ev_recv e)) (\<lambda>s1. Inr (s1, flags))
      else if has_event (ev_events e) EPOLLOUT
      then rbind (dealwithwrite s now sockfd (ev_writev e)) (\<lambda>s1. Inr (s1, flags))
      else Inr (s, flags))"

fun handle_events :: "server \<Rightarrow> int \<Rightarrow> bool \<times> bool \<Rightarrow> ready list \<Rightarrow> (server \<times> bool \<times> bool) res" where
  "handle_events s now flags [] = Inr (s, flags)"
| "handle_events s now flags (e # es) =
     rbind (handle_event s now flags e) (\<lambda>(s1, flags1). handle_events s1 now flags1 es)"

text \<open>\<open>Utils::timer_handler\<close>; \<open>None\<close> where \<open>tick\<close> does not return.\<close>

definition timer_handler :: "server \<Rightarrow> server res option" where
  "timer_handler s =
     map_option (\<lambda>r. rbind r (\<lambda>(w, k). Inr (s\<lparr>timer_lst := w, kernel := k, alarm_set := TIMESLOT\<rparr>)))
       (tick (run_callback (users_timer s)) (timer_lst s) (kernel s))"

text \<open>What \<open>epoll_wait\<close> returns: an error (interrupted by a signal or not), or events.\<close>

datatype wait_result = Wait_Error bool | Ready int "ready list"

definition after_events :: "server \<Rightarrow> bool \<times> bool \<Rightarrow> (server \<times> bool \<times> bool) res option" where
  "after_events s flags =
     (if fst flags
      then map_option (\<lambda>r. rbind r (\<lambda>s1. Inr (s1, False, snd flags))) (timer_handler s)
      else Some (Inr (s, flags)))"

text \<open>The loop over the results of \<open>epoll_wait\<close>; at the end of the list it waits.\<close>

fun event_loop :: "server \<Rightarrow> bool \<times> bool \<Rightarrow> wait_result list \<Rightarrow> (server \<times> bool \<times> bool) res option" where
  "event_loop s flags [] = Some (Inr (s, flags))"
| "event_loop s flags (r # rs) =
     (if snd flags then Some (Inr (s, flags))
      else case r of
        Wait_Error eintr \<Rightarrow>
          if \<not> eintr then Some (Inr (s, flags))
          else (case after_events s flags of
              None \<Rightarrow> None
            | Some (Inl e) \<Rightarrow> Some (Inl e)
            | Some (Inr (s1, flags1)) \<Rightarrow> event_loop s1 flags1 rs)
      | Ready now es \<Rightarrow>
          (case handle_events s now flags es of
             Inl e \<Rightarrow> Some (Inl e)
           | Inr (s1, flags1) \<Rightarrow>
               (case after_events s1 flags1 of
                  None \<Rightarrow> None
                | Some (Inl e) \<Rightarrow> Some (Inl e)
                | Some (Inr (s2, flags2)) \<Rightarrow> event_loop s2 flags2 rs)))"

end
