(* ===== verification/Server_Inv.thy ===== *)
theory Server_Inv
  imports Web_Server
begin

text \<open>
  The invariant of the main thread (\<open>webserver.cpp\<close>) and that every step keeps it.

  \<open>fd_of s\<close> is the abstract state: a partial map from the living timers to descriptors. The
  invariant \<open>srv_inv\<close> says that each living timer belongs to exactly one open connection, which
  is registered with epoll and points back to it from \<open>users_timer\<close>, and that
  \<open>m_user_count\<close> counts them. Accepting adds an entry to \<open>fd_of\<close>, closing removes one, a tick
  removes the expired ones, reading and writing leave the map alone.
\<close>

section \<open>The abstract state and the invariant\<close>

definition tdata :: "server \<Rightarrow> timers" where
  "tdata s = data (timers_of (timer_lst s))"

definition fd_of :: "server \<Rightarrow> addr \<Rightarrow> int option" where
  "fd_of s a = Option.bind (tdata s a) user_data"

definition live :: "server \<Rightarrow> int \<Rightarrow> bool" where
  "live s fd \<longleftrightarrow> (\<exists>a. fd_of s a = Some fd)"

definition client :: "server \<Rightarrow> addr \<Rightarrow> int \<Rightarrow> bool" where
  "client s a fd \<longleftrightarrow> in_users fd \<and> fd_open (kernel s) fd \<and> ep_table (kernel s) fd \<noteq> None
     \<and> fd \<noteq> ws_listenfd s \<and> fd \<noteq> ws_pipefd0 s \<and> m_sockfd (conns s fd) = fd
     \<and> (\<exists>d. users_timer s fd = Some d \<and> cd_sockfd d = fd \<and> cd_timer d = Some a)"

text \<open>
  The descriptors the server keeps for itself, and that every other open one is a client's: a
  connection that loses its timer is closed.
\<close>

definition own_fds :: "server \<Rightarrow> int set" where
  "own_fds s = {ws_listenfd s, ws_pipefd0 s, ws_pipefd1 s}"

definition no_leak :: "server \<Rightarrow> bool" where
  "no_leak s \<longleftrightarrow> (\<forall>fd. fd_open (kernel s) fd \<longrightarrow> fd \<in> own_fds s \<or> live s fd)"

definition srv_inv :: "server \<Rightarrow> bool" where
  "srv_inv s \<longleftrightarrow> wheel_inv (timer_lst s) \<and> os_inv (kernel s)
     \<and> (\<forall>a t. tdata s a = Some t \<longrightarrow> cb_func t = Some Cb_Func \<and> (\<exists>fd. user_data t = Some fd \<and> client s a fd))
     \<and> m_user_count (kernel s) = int (card (dom (fd_of s)))"

text \<open>What no step changes.\<close>

definition same_conf :: "server \<Rightarrow> server \<Rightarrow> bool" where
  "same_conf s s' \<longleftrightarrow> ws_listenfd s' = ws_listenfd s \<and> ws_pipefd0 s' = ws_pipefd0 s \<and> ws_pipefd1 s' = ws_pipefd1 s
     \<and> ws_actormodel s' = ws_actormodel s \<and> ws_LISTENTrigmode s' = ws_LISTENTrigmode s
     \<and> ws_CONNTrigmode s' = ws_CONNTrigmode s
     \<and> ws_user s' = ws_user s \<and> ws_passWord s' = ws_passWord s \<and> ws_databaseName s' = ws_databaseName s"

lemma same_conf_refl [simp]: "same_conf s s"
  by (simp add: same_conf_def)

lemma same_conf_trans: "same_conf a b \<Longrightarrow> same_conf b c \<Longrightarrow> same_conf a c"
  by (simp add: same_conf_def)

lemma wheel_finite: "wheel_inv w \<Longrightarrow> finite (dom (data (timers_of w)))"
proof -
  assume "wheel_inv w"
  then obtain xs where xs: "wheel w xs" by (auto simp: wheel_inv_def)
  have "dom (data (timers_of w)) \<subseteq> (\<Union>i \<in> {0..<WHEEL_N}. set (xs i))"
  proof
    fix a assume "a \<in> dom (data (timers_of w))"
    then obtain t where "timers_of w a = Some t" by (auto simp: data_Some)
    then have "0 \<le> time_slot t" "time_slot t < WHEEL_N" "a \<in> set (xs (time_slot t))"
      using xs unfolding wheel_def by blast+
    then show "a \<in> (\<Union>i \<in> {0..<WHEEL_N}. set (xs i))" by auto
  qed
  then show ?thesis by (rule finite_subset) simp
qed

lemma fd_of_Some: "fd_of s a = Some fd \<longleftrightarrow> (\<exists>t. tdata s a = Some t \<and> user_data t = Some fd)"
  by (auto simp: fd_of_def bind_eq_Some_conv)

lemma inv_fd_of:
  assumes "srv_inv s" and "fd_of s a = Some fd"
  obtains t d where "tdata s a = Some t" and "cb_func t = Some Cb_Func" and "user_data t = Some fd"
    and "client s a fd" and "users_timer s fd = Some d" and "cd_sockfd d = fd" and "cd_timer d = Some a"
proof -
  obtain t where t: "tdata s a = Some t" "user_data t = Some fd" using assms(2) by (auto simp: fd_of_Some)
  moreover from assms(1) t(1) have "cb_func t = Some Cb_Func \<and> (\<exists>fd. user_data t = Some fd \<and> client s a fd)"
    unfolding srv_inv_def by blast
  ultimately have "cb_func t = Some Cb_Func" "client s a fd" by auto
  with t show ?thesis using that by (auto simp: client_def)
qed

lemma inv_parts:
  assumes "srv_inv s"
  shows "wheel_inv (timer_lst s)" and "os_inv (kernel s)" and "m_user_count (kernel s) = int (card (dom (fd_of s)))"
  using assms unfolding srv_inv_def by blast+

lemma inv_bound:
  "srv_inv s \<Longrightarrow> tdata s a = Some t \<Longrightarrow> cb_func t = Some Cb_Func \<and> (\<exists>fd. user_data t = Some fd \<and> client s a fd)"
  unfolding srv_inv_def by blast

lemma fd_of_dom:
  assumes "srv_inv s"
  shows "dom (fd_of s) = dom (tdata s)"
proof
  show "dom (tdata s) \<subseteq> dom (fd_of s)"
  proof
    fix a assume "a \<in> dom (tdata s)"
    then obtain t where t: "tdata s a = Some t" by blast
    obtain fd where "user_data t = Some fd" using inv_bound [OF assms t] by blast
    with t show "a \<in> dom (fd_of s)" by (simp add: fd_of_def domIff)
  qed
  show "dom (fd_of s) \<subseteq> dom (tdata s)" by (auto simp: fd_of_Some)
qed

lemma client_unique: "client s a fd \<Longrightarrow> client s b fd \<Longrightarrow> a = b"
  by (auto simp: client_def)

lemma fd_of_inj:
  assumes "srv_inv s" and "fd_of s a = Some fd" and "fd_of s b = Some fd"
  shows "a = b"
proof -
  have "client s a fd" by (rule inv_fd_of [OF assms(1,2)])
  moreover have "client s b fd" by (rule inv_fd_of [OF assms(1,3)])
  ultimately show ?thesis by (rule client_unique)
qed

lemma finite_fd_of: "srv_inv s \<Longrightarrow> finite (dom (fd_of s))"
  by (simp add: fd_of_dom tdata_def wheel_finite inv_parts(1))

lemma same_conf_own_fds: "same_conf s s' \<Longrightarrow> own_fds s' = own_fds s"
  by (simp add: same_conf_def own_fds_def)

lemma no_leak_same:
  assumes "no_leak s" and "same_conf s s'" and "fd_of s' = fd_of s" and "fd_open (kernel s') = fd_open (kernel s)"
  shows "no_leak s'"
  using assms by (simp add: no_leak_def live_def same_conf_own_fds)

text \<open>When one client goes, its descriptor goes with it; no other client has it.\<close>

lemma no_leak_closed:
  assumes "no_leak s" and "same_conf s s'" and "fd_of s a = Some fd" and "fd_of s' = (fd_of s)(a := None)"
    and "fd_open (kernel s') = (fd_open (kernel s))(fd := False)"
  shows "no_leak s'"
  unfolding no_leak_def
proof (intro allI impI)
  fix g assume g: "fd_open (kernel s') g"
  then have "g \<noteq> fd" "g \<in> own_fds s \<or> live s g" using assms(1,5) by (auto simp: no_leak_def split: if_splits)
  moreover have "live s' g" if "live s g"
  proof -
    from that obtain b where b: "fd_of s b = Some g" by (auto simp: live_def)
    with \<open>g \<noteq> fd\<close> assms(3) have "b \<noteq> a" by auto
    with b assms(4) show ?thesis by (auto simp: live_def)
  qed
  ultimately show "g \<in> own_fds s' \<or> live s' g" using same_conf_own_fds [OF assms(2)] by auto
qed

text \<open>To show the invariant of a new state: every fd_of is a client, and the counter is right.\<close>

lemma srv_invI:
  assumes "wheel_inv (timer_lst s)" and "os_inv (kernel s)"
    and "\<And>a t. tdata s a = Some t \<Longrightarrow> cb_func t = Some Cb_Func \<and> (\<exists>fd. user_data t = Some fd \<and> client s a fd)"
    and "m_user_count (kernel s) = int (card (dom (fd_of s)))"
  shows "srv_inv s"
  using assms unfolding srv_inv_def by blast

lemma timer_live: "tdata s a = Some t \<Longrightarrow> \<exists>u. timers_of (timer_lst s) a = Some u \<and> payload_of u = t"
  by (simp add: tdata_def data_Some)

lemma deref_tdata:
  assumes "tdata s a = Some t"
  obtains u where "deref (timer_lst s) (Some a) = Inr u" and "cb_func u = cb_func t" and "user_data u = user_data t"
proof -
  obtain u where u: "timers_of (timer_lst s) a = Some u" "payload_of u = t" using timer_live [OF assms] by blast
  have "deref (timer_lst s) (Some a) = Inr u" using u(1) by (simp add: deref_def obj_def timers_of_def)
  with u(2) that show ?thesis by (metis payload_fields)
qed

section \<open>Closing\<close>

lemma cb_close_ok:
  assumes "ut fd = Some d" and "cd_sockfd d = fd"
  shows "cb_close ut (Some fd) k = Inr (let k1 = close_fd (epoll_ctl_del k fd) fd in k1\<lparr>m_user_count := m_user_count k1 - 1\<rparr>)"
  using assms by (simp add: cb_close_def Let_def)

lemma deal_timer_ok:
  assumes "srv_inv s" and "fd_of s a = Some fd"
  obtains s' where "deal_timer s (Some a) fd = Inr s'" and "srv_inv s'" and "fd_of s' = (fd_of s)(a := None)"
    and "same_conf s s'" and "m_user_count (kernel s') = m_user_count (kernel s) - 1"
    and "fd_open (kernel s') = (fd_open (kernel s))(fd := False)"
    and "conns s' = conns s" and "\<And>g. g \<noteq> fd \<Longrightarrow> ep_table (kernel s') g = ep_table (kernel s) g"
proof -
  obtain t d where t: "tdata s a = Some t" "cb_func t = Some Cb_Func" "user_data t = Some fd"
    and cl: "client s a fd" and d: "users_timer s fd = Some d" "cd_sockfd d = fd" "cd_timer d = Some a"
    by (rule inv_fd_of [OF assms])
  obtain u where u: "deref (timer_lst s) (Some a) = Inr u" "cb_func u = cb_func t"
    by (rule deref_tdata [OF t(1)])
  let ?k = "let k1 = close_fd (epoll_ctl_del (kernel s) fd) fd in k1\<lparr>m_user_count := m_user_count k1 - 1\<rparr>"
  have w: "wheel_inv (timer_lst s)" "timers_of (timer_lst s) a \<noteq> None"
    using inv_parts(1) [OF assms(1)] timer_live [OF t(1)] by auto
  obtain w' where w': "del_timer (timer_lst s) (Some a) = Inr w'" "wheel_inv w'"
      "data (timers_of w') = (data (timers_of (timer_lst s)))(a := None)"
    by (rule del_timer_ok [OF w])
  let ?s' = "s\<lparr>kernel := ?k, timer_lst := w'\<rparr>"
  have run: "deal_timer s (Some a) fd = Inr ?s'"
    using u t(2) w'(1) cb_close_ok [of "users_timer s" fd d "kernel s", OF d(1,2)]
    by (simp add: deal_timer_def run_callback_def)
  have td: "tdata ?s' = (tdata s)(a := None)" by (simp add: tdata_def w'(3))
  then have own: "fd_of ?s' = (fd_of s)(a := None)" by (auto simp: fd_of_def fun_eq_iff)
  have card: "card (dom ((fd_of s)(a := None))) = card (dom (fd_of s)) - 1" "0 < card (dom (fd_of s))"
    using finite_fd_of [OF assms(1)] assms(2) by (auto simp: card_gt_0_iff domI)
  have open_k: "fd_open ?k = (fd_open (kernel s))(fd := False)" by (simp add: Let_def)
  have table_k: "ep_table ?k g = ep_table (kernel s) g" if "g \<noteq> fd" for g using that by (simp add: Let_def os_ops)
  have inv: "srv_inv ?s'"
  proof (rule srv_invI)
    show "os_inv (kernel ?s')" using inv_parts(2) [OF assms(1)] by (auto simp: os_inv_def Let_def os_ops)
    show "m_user_count (kernel ?s') = int (card (dom (fd_of ?s')))"
      unfolding own card(1) using inv_parts(3) [OF assms(1)] card(2) by (simp add: Let_def of_nat_diff)
    fix b t' assume b: "tdata ?s' b = Some t'"
    then have ab: "b \<noteq> a" "tdata s b = Some t'" unfolding td by (auto split: if_splits)
    then obtain g where g: "cb_func t' = Some Cb_Func" "user_data t' = Some g" "client s b g"
      using inv_bound [OF assms(1) ab(2)] by blast
    have "g \<noteq> fd" using g(3) d(1,3) ab(1) by (auto simp: client_def)
    then have "client ?s' b g" using g(3) open_k table_k by (simp add: client_def)
    with g show "cb_func t' = Some Cb_Func \<and> (\<exists>fd. user_data t' = Some fd \<and> client ?s' b fd)" by blast
  qed (simp add: w'(2))
  show ?thesis
    by (rule that [OF run inv own]) (use open_k table_k in \<open>simp_all add: same_conf_def Let_def\<close>)
qed

section \<open>Accepting\<close>

text \<open>The configuration: names that fit, and trigger modes that \<open>trig_mode\<close> has set.\<close>

definition conf_ok :: "server \<Rightarrow> bool" where
  "conf_ok s \<longleftrightarrow> ws_LISTENTrigmode s \<noteq> None \<and> ws_CONNTrigmode s \<noteq> None
     \<and> length (ws_user s) < 100 \<and> length (ws_passWord s) < 100 \<and> length (ws_databaseName s) < 100"

lemma conf_ok_same: "same_conf s s' \<Longrightarrow> conf_ok s' = conf_ok s"
  by (simp add: same_conf_def conf_ok_def)

lemma init_conn_ok:
  assumes "length user < 100" and "length passwd < 100" and "length db < 100"
  obtains c' where "init_conn k c fd addr root mode cl user passwd db =
      Inr ((addfd k fd True (m_TRIGMode c))\<lparr>m_user_count := m_user_count k + 1\<rparr>, c')"
    and "m_sockfd c' = fd"
proof -
  have "\<exists>c'. init_conn k c fd addr root mode cl user passwd db =
      Inr ((addfd k fd True (m_TRIGMode c))\<lparr>m_user_count := m_user_count k + 1\<rparr>, c') \<and> m_sockfd c' = fd"
    using assms by (simp add: init_conn_def strcpy_def Let_def init_frames)
  with that show ?thesis by blast
qed

text \<open>A descriptor that \<open>accept\<close> may return: new, and inside the arrays.\<close>

definition fresh_fd :: "server \<Rightarrow> int \<Rightarrow> bool" where
  "fresh_fd s fd \<longleftrightarrow> in_users fd \<and> ep_table (kernel s) fd = None \<and> fd \<noteq> ws_listenfd s \<and> fd \<noteq> ws_pipefd0 s"

lemma new_client_ok:
  assumes "srv_inv s" and "fresh_fd s fd" and "fd_open (kernel s) fd" and "conf_ok s"
  obtains s' a where "new_client s now fd addr = Inr s'" and "srv_inv s'" and "fd_of s a = None"
    and "fd_of s' = (fd_of s)(a \<mapsto> fd)" and "same_conf s s'"
    and "m_user_count (kernel s') = m_user_count (kernel s) + 1" and "due (timer_lst s') a = Some 15"
    and "fd_open (kernel s') = fd_open (kernel s)" and "\<And>g. g \<noteq> fd \<Longrightarrow> ep_table (kernel s') g = ep_table (kernel s) g"
    and "\<And>g. g \<noteq> fd \<Longrightarrow> conns s' g = conns s g"
proof -
  let ?k = "(addfd (kernel s) fd True (m_TRIGMode (conns s fd)))\<lparr>m_user_count := m_user_count (kernel s) + 1\<rparr>"
  have len: "length (ws_user s) < 100" "length (ws_passWord s) < 100" "length (ws_databaseName s) < 100"
    using assms(4) by (simp_all add: conf_ok_def)
  obtain mode where mode: "ws_CONNTrigmode s = Some mode" using assms(4) by (auto simp: conf_ok_def)
  obtain c' where c': "init_conn (kernel s) (conns s fd) fd addr (ws_root s) mode
             (ws_close_log s) (ws_user s) (ws_passWord s) (ws_databaseName s) = Inr (?k, c')" "m_sockfd c' = fd"
    by (rule init_conn_ok [OF len])
  obtain w1 a t where w1: "add_timer (timer_lst s) (3 * TIMESLOT) now = Inr (w1, Some a)" "wheel_inv w1"
      "cur_slot w1 = cur_slot (timer_lst s)" "timers_of (timer_lst s) a = None"
      "data (timers_of w1) = (data (timers_of (timer_lst s)))(a \<mapsto> t)"
      "wait (cur_slot (timer_lst s)) t = nat (max 1 (3 * TIMESLOT))"
    by (rule add_timer_ok [OF inv_parts(1) [OF assms(1)], of "3 * TIMESLOT" now]) (auto simp: TIMESLOT_def)
  have "data (timers_of w1) a = Some t" by (simp add: w1(5))
  then obtain w2 where w2: "bind_timer w1 a fd = Inr w2" "wheel_inv w2" "cur_slot w2 = cur_slot w1"
      "data (timers_of w2) = (data (timers_of w1))(a \<mapsto> t\<lparr>user_data := Some fd, cb_func := Some Cb_Func\<rparr>)"
    by (rule bind_timer_ok [OF w1(2)])
  let ?t = "t\<lparr>user_data := Some fd, cb_func := Some Cb_Func\<rparr>"
  let ?s' = "s\<lparr>kernel := ?k, conns := (conns s)(fd := c'), timer_lst := w2,
      users_timer := (users_timer s)(fd \<mapsto> \<lparr>cd_address = addr, cd_sockfd = fd, cd_timer = Some a\<rparr>)\<rparr>"
  have run: "new_client s now fd addr = Inr ?s'"
    using assms(2) c'(1) w1(1) w2(1) by (simp add: new_client_def fresh_fd_def mode)
  have none: "tdata s a = None" using w1(4) by (simp add: tdata_def data_def)
  have td: "tdata ?s' = (tdata s)(a \<mapsto> ?t)" by (simp add: tdata_def w2(4) w1(5))
  have own0: "fd_of s a = None" using none by (simp add: fd_of_def)
  have own: "fd_of ?s' = (fd_of s)(a \<mapsto> fd)" using td by (auto simp: fd_of_def fun_eq_iff)
  have card: "card (dom ((fd_of s)(a \<mapsto> fd))) = card (dom (fd_of s)) + 1"
    using finite_fd_of [OF assms(1)] own0 by (simp add: domIff)
  have table_k: "ep_table ?k g = ep_table (kernel s) g" if "g \<noteq> fd" for g using that by (simp add: os_ops)
  have table_fd: "ep_table ?k fd \<noteq> None" using assms(2,3) by (simp add: os_ops fresh_fd_def)
  have inv: "srv_inv ?s'"
  proof (rule srv_invI)
    show "os_inv (kernel ?s')"
      using os_inv_ops(1) [OF inv_parts(2) [OF assms(1)], of fd True "m_TRIGMode (conns s fd)"] by (simp add: os_inv_def)
    show "m_user_count (kernel ?s') = int (card (dom (fd_of ?s')))"
      unfolding own card using inv_parts(3) [OF assms(1)] by simp
    fix b u assume b: "tdata ?s' b = Some u"
    show "cb_func u = Some Cb_Func \<and> (\<exists>g. user_data u = Some g \<and> client ?s' b g)"
    proof (cases "b = a")
      case True
      then have "u = ?t" using b unfolding td by simp
      with True show ?thesis
        using assms(2,3) c'(2) table_fd by (simp add: client_def fresh_fd_def)
    next
      case False
      then have "tdata s b = Some u" using b unfolding td by simp
      with inv_bound [OF assms(1)] obtain g where g: "cb_func u = Some Cb_Func" "user_data u = Some g" "client s b g" by blast
      then have "g \<noteq> fd" using assms(2) by (auto simp: client_def fresh_fd_def)
      with g show ?thesis using table_k by (simp add: client_def)
    qed
  qed (simp add: w2(2))
  have d: "due (timer_lst ?s') a = Some 15"
    using w1(3,6) w2(3,4) by (simp add: due_data wait_def TIMESLOT_def)
  show ?thesis
    by (rule that [OF run inv own0 own _ _ d]) (use table_k in \<open>simp_all add: same_conf_def\<close>)
qed

section \<open>Adjusting a timer\<close>

text \<open>The pool hands the cell of a deleted timer out again first, so the new timer has the old address.\<close>

lemma delete_timer_free: "delete_timer w a = Inr w' \<Longrightarrow> m_free_list (m_pool w') = Some a"
  by (auto simp: delete_timer_def delete_object_def deallocate_def elim!: rbindE split: if_splits)

lemma del_timer_free: "del_timer w (Some a) = Inr w' \<Longrightarrow> m_free_list (m_pool w') = Some a"
  by (auto simp: del_timer_def Let_def elim!: rbindE split: if_splits dest: delete_timer_free)

lemma add_timer_addr:
  assumes "m_free_list (m_pool w) = Some p" and "add_timer w timeout cur = Inr (w', Some b)"
  shows "b = p"
  using assms by (auto simp: add_timer_def new_object_def allocate_def Let_def elim!: rbindE
      split: if_splits option.splits cell.splits)

lemma adjust_timer_ok:
  assumes "srv_inv s" and "fd_of s a = Some fd"
  obtains s' where "adjust_timer s now a = Inr s'" and "srv_inv s'" and "fd_of s' = fd_of s" and "same_conf s s'"
    and "kernel s' = kernel s" and "conns s' = conns s" and "requests s' = requests s"
    and "due (timer_lst s') a = Some 15" and "\<And>b. b \<noteq> a \<Longrightarrow> due (timer_lst s') b = due (timer_lst s) b"
proof -
  obtain t d where t: "tdata s a = Some t" "cb_func t = Some Cb_Func" "user_data t = Some fd"
    and cl: "client s a fd" and d: "users_timer s fd = Some d" "cd_sockfd d = fd" "cd_timer d = Some a"
    by (rule inv_fd_of [OF assms])
  obtain u where u: "deref (timer_lst s) (Some a) = Inr u" "user_data u = user_data t"
    by (rule deref_tdata [OF t(1)])
  have w: "wheel_inv (timer_lst s)" "timers_of (timer_lst s) a \<noteq> None"
    using inv_parts(1) [OF assms(1)] timer_live [OF t(1)] by auto
  obtain w1 where w1: "del_timer (timer_lst s) (Some a) = Inr w1" "wheel_inv w1" "cur_slot w1 = cur_slot (timer_lst s)"
      "data (timers_of w1) = (data (timers_of (timer_lst s)))(a := None)"
    by (rule del_timer_ok [OF w])
  obtain w2 b v where w2: "add_timer w1 (3 * TIMESLOT) now = Inr (w2, Some b)" "wheel_inv w2" "cur_slot w2 = cur_slot w1"
      "timers_of w1 b = None" "data (timers_of w2) = (data (timers_of w1))(b \<mapsto> v)"
      "wait (cur_slot w1) v = nat (max 1 (3 * TIMESLOT))"
    by (rule add_timer_ok [OF w1(2), of "3 * TIMESLOT" now]) (auto simp: TIMESLOT_def)
  have b: "b = a" by (rule add_timer_addr [OF del_timer_free [OF w1(1)] w2(1)])
  have "data (timers_of w2) a = Some v" by (simp add: w2(5) b)
  then obtain w3 where w3: "bind_timer w2 a fd = Inr w3" "wheel_inv w3" "cur_slot w3 = cur_slot w2"
      "data (timers_of w3) = (data (timers_of w2))(a \<mapsto> v\<lparr>user_data := Some fd, cb_func := Some Cb_Func\<rparr>)"
    by (rule bind_timer_ok [OF w2(2)])
  let ?v = "v\<lparr>user_data := Some fd, cb_func := Some Cb_Func\<rparr>"
  have same_ut: "set_cd_timer (users_timer s) fd a = users_timer s"
    using d by (cases d) (simp add: set_cd_timer_def fun_eq_iff)
  let ?s' = "s\<lparr>timer_lst := w3, users_timer := users_timer s\<rparr>"
  have fd: "in_users fd" using cl by (simp add: client_def)
  have run: "adjust_timer s now a = Inr ?s'"
    using u w1(1) w2(1) w3(1) t(3) d fd by (simp add: adjust_timer_def b same_ut)
  have td: "tdata ?s' = (tdata s)(a \<mapsto> ?v)" by (simp add: tdata_def w3(4) w2(5) w1(4) b)
  have own: "fd_of ?s' = fd_of s" using td assms(2) by (auto simp: fd_of_def fun_eq_iff)
  have cl': "client ?s' c g = client s c g" for c g by (simp add: client_def)
  have inv: "srv_inv ?s'"
  proof (rule srv_invI)
    show "m_user_count (kernel ?s') = int (card (dom (fd_of ?s')))"
      unfolding own using inv_parts(3) [OF assms(1)] by simp
    fix c x assume c: "tdata ?s' c = Some x"
    show "cb_func x = Some Cb_Func \<and> (\<exists>g. user_data x = Some g \<and> client ?s' c g)"
    proof (cases "c = a")
      case True
      then have "x = ?v" using c unfolding td by simp
      with True cl show ?thesis unfolding cl' by simp
    next
      case False
      then have "tdata s c = Some x" using c unfolding td by simp
      from inv_bound [OF assms(1) this] show ?thesis unfolding cl' .
    qed
  qed (use w3(2) inv_parts(2) [OF assms(1)] in simp_all)
  have due: "due (timer_lst ?s') a = Some 15" "due (timer_lst ?s') c = due (timer_lst s) c" if "c \<noteq> a" for c
    using that w1(3,4) w2(3,5,6) w3(3,4) by (simp_all add: due_data wait_def TIMESLOT_def b)
  show ?thesis
    by (rule that [OF run inv own])
      (use due w1(3) w2(3,5,6) w3(3,4) in \<open>simp_all add: same_conf_def due_data wait_def TIMESLOT_def b w1(4)\<close>)
qed

section \<open>Steps that leave the timers alone\<close>

text \<open>The kernel's tables after a step that closes nothing, and a connection that keeps its descriptor.\<close>

definition same_fds :: "os \<Rightarrow> os \<Rightarrow> bool" where
  "same_fds k k' \<longleftrightarrow> fd_open k' = fd_open k \<and> m_user_count k' = m_user_count k
     \<and> (\<forall>fd. ep_table k' fd = None \<longleftrightarrow> ep_table k fd = None)"

lemma same_fds_refl [simp]: "same_fds k k"
  by (simp add: same_fds_def)

lemma same_fds_modfd: "same_fds k (modfd k fd ev t)"
  by (simp add: same_fds_def os_ops)

lemma same_fds_trans: "same_fds a b \<Longrightarrow> same_fds b c \<Longrightarrow> same_fds a c"
  by (simp add: same_fds_def)

lemma update_client:
  fixes q :: "int thread_pool"
  assumes "srv_inv s" and "same_fds (kernel s) k" and "m_sockfd c = m_sockfd (conns s fd)"
  defines "s' \<equiv> s\<lparr>kernel := k, conns := (conns s)(fd := c), requests := q\<rparr>"
  shows "srv_inv s'" and "fd_of s' = fd_of s" and "same_conf s s'"
proof -
  have td: "tdata s' = tdata s" by (simp add: s'_def tdata_def)
  then show own: "fd_of s' = fd_of s" by (auto simp: fd_of_def fun_eq_iff)
  have cl: "client s' a g = client s a g" for a g
    using assms(2,3) by (auto simp: client_def s'_def same_fds_def)
  show "srv_inv s'"
  proof (rule srv_invI)
    show "wheel_inv (timer_lst s')" using inv_parts(1) [OF assms(1)] by (simp add: s'_def)
    show "os_inv (kernel s')"
      using inv_parts(2) [OF assms(1)] assms(2) by (simp add: s'_def os_inv_def same_fds_def)
    show "m_user_count (kernel s') = int (card (dom (fd_of s')))"
      unfolding own using inv_parts(3) [OF assms(1)] assms(2) by (simp add: s'_def same_fds_def)
    show "cb_func t = Some Cb_Func \<and> (\<exists>fd. user_data t = Some fd \<and> client s' a fd)" if "tdata s' a = Some t" for a t
      using inv_bound [OF assms(1), of a t] that unfolding td cl by blast
  qed
  show "same_conf s s'" by (simp add: same_conf_def s'_def)
qed

lemma read_once_sockfd: "read_once c rs = (c', ok) \<Longrightarrow> m_sockfd c' = m_sockfd c"
proof -
  have et: "m_sockfd (fst (read_once_et c rs)) = m_sockfd c"
    by (induction c rs rule: read_once_et.induct) (simp_all add: Let_def store_def)
  have lt: "m_sockfd (fst (read_once_lt c rs)) = m_sockfd c"
    by (induction c rs rule: read_once_lt.induct) (simp_all add: Let_def store_def)
  show "read_once c rs = (c', ok) \<Longrightarrow> m_sockfd c' = m_sockfd c"
    using et lt by (auto simp: read_once_def split: if_splits)
qed

lemma unmap_sockfd: "unmap c = Inr c' \<Longrightarrow> m_sockfd c' = m_sockfd c"
  by (auto simp: unmap_def split: file_addr.splits)

lemma write_loop_fds:
  "write_loop k c rs = Inr (k', c', out, ok) \<Longrightarrow> same_fds k k' \<and> m_sockfd c' = m_sockfd c"
proof (induction k c rs arbitrary: c' out rule: write_loop.induct)
  case (1 k c)
  then show ?case by (auto simp: same_fds_modfd)
next
  case (2 k c again rs)
  then show ?case by (auto simp: same_fds_modfd elim!: rbindE split: if_splits dest: unmap_sockfd)
next
  case (3 k c n rs)
  obtain m where m: "outgoing c = Inr m" using "3.prems" by (auto elim: rbindE)
  let ?sent = "take n m" and ?c1 = "after_send c (int (length (take n m)))"
  show ?case
  proof (cases "bytes_to_send ?c1 \<le> 0")
    case True
    then obtain c2 where c2: "unmap ?c1 = Inr c2" using "3.prems" m by (auto simp: Let_def elim: rbindE)
    then have "m_sockfd c2 = m_sockfd c" using unmap_sockfd [OF c2] by (simp add: after_send_done)
    with "3.prems" m True c2 show ?thesis
      by (auto simp: Let_def same_fds_modfd init_frames split: if_splits)
  next
    case False
    with "3.prems" m obtain d out' where "write_loop k ?c1 rs = Inr (k', d, out', ok)" "c' = d"
      by (auto simp: Let_def elim!: rbindE)
    with "3.IH" [OF m refl refl False, of d out'] show ?thesis by (simp add: after_send_done)
  qed
qed

lemma write_conn_fds:
  assumes "write_conn k c rs = Inr (k', c', out, ok)"
  shows "same_fds k k'" and "m_sockfd c' = m_sockfd c"
  using assms write_loop_fds [of k c rs]
  by (auto simp: write_conn_def same_fds_modfd init_frames split: if_splits)

section \<open>Reading and writing\<close>

lemma user_timer_ok:
  assumes "srv_inv s" and "fd_of s a = Some fd"
  shows "user_timer s fd = Inr (Some a)"
proof -
  obtain d where "client s a fd" "users_timer s fd = Some d" "cd_timer d = Some a"
    by (rule inv_fd_of [OF assms])
  then show ?thesis by (simp add: user_timer_def client_def)
qed

text \<open>The effect of a step for the connection \<open>fd\<close>: it goes on, or it is closed.\<close>

definition goes_on :: "server \<Rightarrow> server \<Rightarrow> bool" where
  "goes_on s s' \<longleftrightarrow> srv_inv s' \<and> same_conf s s' \<and> fd_of s' = fd_of s \<and> same_fds (kernel s) (kernel s')"

definition closed :: "server \<Rightarrow> addr \<Rightarrow> int \<Rightarrow> server \<Rightarrow> bool" where
  "closed s a fd s' \<longleftrightarrow> srv_inv s' \<and> same_conf s s' \<and> fd_of s' = (fd_of s)(a := None)
     \<and> fd_open (kernel s') = (fd_open (kernel s))(fd := False)
     \<and> (\<forall>g. g \<noteq> fd \<longrightarrow> (ep_table (kernel s') g = None) = (ep_table (kernel s) g = None))"

lemma close_after:
  assumes "goes_on s s1" and "fd_of s a = Some fd"
  obtains s2 where "deal_timer s1 (Some a) fd = Inr s2" and "closed s a fd s2" and "conns s2 = conns s1"
proof -
  have s1: "srv_inv s1" "fd_of s1 a = Some fd" "same_conf s s1" "fd_of s1 = fd_of s" "same_fds (kernel s) (kernel s1)"
    using assms by (auto simp: goes_on_def)
  obtain s2 where s2: "deal_timer s1 (Some a) fd = Inr s2" "srv_inv s2" "fd_of s2 = (fd_of s1)(a := None)"
    "same_conf s1 s2" "fd_open (kernel s2) = (fd_open (kernel s1))(fd := False)" "conns s2 = conns s1"
    "\<And>g. g \<noteq> fd \<Longrightarrow> ep_table (kernel s2) g = ep_table (kernel s1) g"
    using deal_timer_ok [OF s1(1,2)] by metis
  show ?thesis
    by (rule that [OF s2(1) _ s2(6)])
      (use s1 s2 same_conf_trans [OF s1(3) s2(4)] in \<open>auto simp: closed_def same_fds_def\<close>)
qed

lemma adjust_goes_on:
  assumes "goes_on s s1" and "fd_of s a = Some fd"
  obtains s2 where "adjust_if s1 now (Some a) = Inr s2" and "goes_on s s2" and "kernel s2 = kernel s1" and "conns s2 = conns s1"
proof -
  have s1: "srv_inv s1" "fd_of s1 a = Some fd" "same_conf s s1" "fd_of s1 = fd_of s" "same_fds (kernel s) (kernel s1)"
    using assms by (auto simp: goes_on_def)
  obtain s2 where s2: "adjust_timer s1 now a = Inr s2" "srv_inv s2" "fd_of s2 = fd_of s1" "same_conf s1 s2"
    "kernel s2 = kernel s1" "conns s2 = conns s1"
    using adjust_timer_ok [OF s1(1,2)] by metis
  show ?thesis
    by (rule that [OF _ _ s2(5,6)])
      (use s1 s2 same_conf_trans [OF s1(3) s2(4)] in \<open>auto simp: goes_on_def adjust_if_def\<close>)
qed

lemma update_goes_on:
  assumes "goes_on s s1" and "same_fds (kernel s1) k" and "m_sockfd c = m_sockfd (conns s1 fd)"
  shows "goes_on s (s1\<lparr>kernel := k, conns := (conns s1)(fd := c), requests := q\<rparr>)"
proof -
  have "srv_inv s1" using assms(1) by (simp add: goes_on_def)
  note u = update_client [OF this assms(2,3), of q]
  show ?thesis
    using assms(1,2) u same_conf_trans [OF _ u(3), of s] same_fds_trans [OF _ assms(2), of "kernel s"]
    by (simp add: goes_on_def)
qed

lemma goes_on_refl: "srv_inv s \<Longrightarrow> goes_on s s"
  by (simp add: goes_on_def)

text \<open>Reading, in both models: the result of \<open>read_once\<close> decides.\<close>

lemma dealwithread_ok:
  assumes "srv_inv s" and "fd_of s a = Some fd"
  obtains s' where "dealwithread s now fd rs = Inr s'"
    and "if snd (read_once (conns s fd) rs) then goes_on s s' else closed s a fd s'"
    and "\<And>g. g \<noteq> fd \<Longrightarrow> conns s' g = conns s g"
proof -
  note ut = user_timer_ok [OF assms]
  note s0 = goes_on_refl [OF assms(1)]
  obtain c ok where r: "read_once (conns s fd) rs = (c, ok)" by force
  note sock = read_once_sockfd [OF r]
  show ?thesis
  proof (cases "ws_actormodel s = 1")
    case True
    obtain s1 where s1: "adjust_if s now (Some a) = Inr s1" "goes_on s s1" "kernel s1 = kernel s" "conns s1 = conns s"
      by (rule adjust_goes_on [OF s0 assms(2)])
    show ?thesis
    proof (cases ok)
      case ok: True
      obtain q st b where q: "append_state (requests s1) (\<lambda>g. if g = fd then 0 else m_state (conns s1 g)) fd 0 = (q, st, b)"
        by (metis prod_cases3)
      let ?s' = "s1\<lparr>conns := (conns s1)(fd := c\<lparr>improv := 0, m_state := st fd\<rparr>), requests := q\<rparr>"
      have "goes_on s (s1\<lparr>kernel := kernel s1, conns := (conns s1)(fd := c\<lparr>improv := 0, m_state := st fd\<rparr>), requests := q\<rparr>)"
        by (rule update_goes_on [OF s1(2)]) (simp_all add: sock s1(4))
      then have "goes_on s ?s'" by simp
      moreover have "dealwithread s now fd rs = Inr ?s'"
        using True ok s1(1,4) r q by (simp add: dealwithread_def ut)
      ultimately show ?thesis using ok r s1(4) that by simp
    next
      case False
      let ?s1 = "s1\<lparr>conns := (conns s1)(fd := c)\<rparr>"
      have "goes_on s (s1\<lparr>kernel := kernel s1, conns := (conns s1)(fd := c), requests := requests s1\<rparr>)"
        by (rule update_goes_on [OF s1(2)]) (simp_all add: sock s1(4))
      then have "goes_on s ?s1" by simp
      then obtain s2 where s2: "deal_timer ?s1 (Some a) fd = Inr s2" "closed s a fd s2" "conns s2 = conns ?s1"
        by (rule close_after [OF _ assms(2)])
      then have "dealwithread s now fd rs = Inr s2"
        using True False s1(1,4) r by (simp add: dealwithread_def ut)
      with s2 False r s1(4) that show ?thesis by simp
    qed
  next
    case False
    let ?s1 = "s\<lparr>conns := (conns s)(fd := c)\<rparr>"
    show ?thesis
    proof (cases ok)
      case ok: True
      obtain q b where q: "append_p (requests s) fd = (q, b)" by force
      have "goes_on s (s\<lparr>kernel := kernel s, conns := (conns s)(fd := c), requests := q\<rparr>)"
        by (rule update_goes_on [OF s0]) (simp_all add: sock)
      then have "goes_on s (?s1\<lparr>requests := q\<rparr>)" by simp
      then obtain s2 where s2: "adjust_if (?s1\<lparr>requests := q\<rparr>) now (Some a) = Inr s2" "goes_on s s2" "conns s2 = conns ?s1"
        by (rule adjust_goes_on [OF _ assms(2)]) simp
      then have "dealwithread s now fd rs = Inr s2"
        using False ok r q by (simp add: dealwithread_def ut Let_def)
      with s2 ok r that show ?thesis by simp
    next
      case notok: False
      have "goes_on s (s\<lparr>kernel := kernel s, conns := (conns s)(fd := c), requests := requests s\<rparr>)"
        by (rule update_goes_on [OF s0]) (simp_all add: sock)
      then have "goes_on s ?s1" by simp
      then obtain s2 where s2: "deal_timer ?s1 (Some a) fd = Inr s2" "closed s a fd s2" "conns s2 = conns ?s1"
        by (rule close_after [OF _ assms(2)])
      then have "dealwithread s now fd rs = Inr s2"
        using False notok r by (simp add: dealwithread_def ut Let_def)
      with s2 notok r that show ?thesis by simp
    qed
  qed
qed

lemma dealwithwrite_ok:
  assumes "srv_inv s" and "fd_of s a = Some fd" and "write_conn (kernel s) (conns s fd) rs = Inr (k, c, out, ok)"
  obtains s' where "dealwithwrite s now fd rs = Inr s'" and "if ok then goes_on s s' else closed s a fd s'"
    and "\<And>g. g \<noteq> fd \<Longrightarrow> conns s' g = conns s g"
proof -
  note ut = user_timer_ok [OF assms(1,2)]
  note s0 = goes_on_refl [OF assms(1)]
  note k = write_conn_fds [OF assms(3)]
  show ?thesis
  proof (cases "ws_actormodel s = 1")
    case True
    obtain s1 where s1: "adjust_if s now (Some a) = Inr s1" "goes_on s s1" "kernel s1 = kernel s" "conns s1 = conns s"
      by (rule adjust_goes_on [OF s0 assms(2)])
    let ?s2 = "s1\<lparr>kernel := k, conns := (conns s1)(fd := c)\<rparr>"
    have "goes_on s (s1\<lparr>kernel := k, conns := (conns s1)(fd := c), requests := requests s1\<rparr>)"
      by (rule update_goes_on [OF s1(2)]) (simp_all add: k s1)
    then have g: "goes_on s ?s2" by simp
    obtain s3 where s3: "deal_timer ?s2 (Some a) fd = Inr s3" "closed s a fd s3" "conns s3 = conns ?s2"
      by (rule close_after [OF g assms(2)])
    have "dealwithwrite s now fd rs = (if ok then Inr ?s2 else Inr s3)"
      using True s1 assms(3) s3(1) by (simp add: dealwithwrite_def ut Let_def)
    with g s3(2,3) s1(4) that show ?thesis by (cases ok) auto
  next
    case False
    let ?s1 = "s\<lparr>kernel := k, conns := (conns s)(fd := c)\<rparr>"
    have "goes_on s (s\<lparr>kernel := k, conns := (conns s)(fd := c), requests := requests s\<rparr>)"
      by (rule update_goes_on [OF s0]) (simp_all add: k)
    then have g: "goes_on s ?s1" by simp
    obtain s3 where s3: "deal_timer ?s1 (Some a) fd = Inr s3" "closed s a fd s3" "conns s3 = conns ?s1"
      by (rule close_after [OF g assms(2)])
    obtain s2 where s2: "adjust_if ?s1 now (Some a) = Inr s2" "goes_on s s2" "conns s2 = conns ?s1"
      by (rule adjust_goes_on [OF g assms(2)])
    have "dealwithwrite s now fd rs = (if ok then Inr s2 else Inr s3)"
      using False assms(3) s2(1) s3(1) by (simp add: dealwithwrite_def ut Let_def)
    with s2(2,3) s3(2,3) that show ?thesis by (cases ok) auto
  qed
qed

section \<open>A tick\<close>

lemma fire_close:
  assumes "distinct as" and "\<And>a. a \<in> set as \<Longrightarrow> \<exists>t fd d. timers_of w a = Some t \<and> cb_func t = Some Cb_Func
      \<and> user_data t = Some fd \<and> g a = Some fd \<and> ut fd = Some d \<and> cd_sockfd d = fd"
    and "os_inv k"
  shows "\<exists>k'. fire (run_callback ut) (timers_of w) as k = Inr k' \<and> os_inv k'
    \<and> m_user_count k' = m_user_count k - int (length as)
    \<and> (\<forall>fd. fd_open k' fd = (fd_open k fd \<and> (\<forall>a \<in> set as. g a \<noteq> Some fd)))
    \<and> (\<forall>fd. (\<forall>a \<in> set as. g a \<noteq> Some fd) \<longrightarrow> ep_table k' fd = ep_table k fd)"
  using assms
proof (induction as arbitrary: k)
  case (Cons a as)
  obtain t fd d where a: "timers_of w a = Some t" "cb_func t = Some Cb_Func" "user_data t = Some fd" "g a = Some fd"
      "ut fd = Some d" "cd_sockfd d = fd"
    using Cons.prems(2) [of a] by auto
  let ?k = "let k1 = close_fd (epoll_ctl_del k fd) fd in k1\<lparr>m_user_count := m_user_count k1 - 1\<rparr>"
  have k: "os_inv ?k" "m_user_count ?k = m_user_count k - 1" "fd_open ?k = (fd_open k)(fd := False)"
      "\<And>h. h \<noteq> fd \<Longrightarrow> ep_table ?k h = ep_table k h"
    using Cons.prems(3) by (auto simp: os_inv_def Let_def os_ops)
  have run: "fire (run_callback ut) (timers_of w) (a # as) k = fire (run_callback ut) (timers_of w) as ?k"
    using a cb_close_ok [of ut fd d k, OF a(5,6)] by (simp add: run_callback_def)
  obtain k' where k': "fire (run_callback ut) (timers_of w) as ?k = Inr k'" "os_inv k'"
      "m_user_count k' = m_user_count ?k - int (length as)"
      "\<And>h. fd_open k' h = (fd_open ?k h \<and> (\<forall>a \<in> set as. g a \<noteq> Some h))"
      "\<And>h. (\<forall>a \<in> set as. g a \<noteq> Some h) \<Longrightarrow> ep_table k' h = ep_table ?k h"
    using Cons.IH [OF _ _ k(1)] Cons.prems(1,2) by auto
  show ?case
    unfolding run
  proof (intro exI [of _ k'] conjI allI impI)
    show "m_user_count k' = m_user_count k - int (length (a # as))" using k'(3) k(2) by simp
    show "fd_open k' h = (fd_open k h \<and> (\<forall>b \<in> set (a # as). g b \<noteq> Some h))" for h
      using k'(4) [of h] k(3) a(4) by auto
    show "ep_table k' h = ep_table k h" if "\<forall>b \<in> set (a # as). g b \<noteq> Some h" for h
      using k'(5) [of h] k(4) [of h] that a(4) by auto
  qed (use k' in simp_all)
qed simp

lemma after_turn_payload:
  "after_turn d zs a = Some t' \<Longrightarrow> \<exists>t. d a = Some t \<and> cb_func t' = cb_func t \<and> user_data t' = user_data t"
  by (auto simp: after_turn_def turn_def bind_eq_Some_conv split: if_splits)

lemma due_None_iff: "due (timer_lst s) a = None \<longleftrightarrow> tdata s a = None"
  by (simp add: due_data tdata_def)

lemma timer_handler_ok:
  assumes "srv_inv s"
  obtains s' where "timer_handler s = Some (Inr s')" and "srv_inv s'" and "same_conf s s'" and "conns s' = conns s"
    and "fd_of s' = (\<lambda>a. if due (timer_lst s) a = Some 0 then None else fd_of s a)"
    and "due (timer_lst s') = count_down (due (timer_lst s))"
    and "\<And>fd. fd_open (kernel s') fd = (fd_open (kernel s) fd \<and> (\<forall>a. due (timer_lst s) a = Some 0 \<longrightarrow> fd_of s a \<noteq> Some fd))"
    and "alarm_set s' = TIMESLOT"
proof -
  obtain xs where xs: "wheel (timer_lst s) xs" using inv_parts(1) [OF assms] by (auto simp: wheel_inv_def)
  let ?w = "timer_lst s"
  let ?as = "filter (\<lambda>a. \<not> live_rot (timers_of ?w) a) (xs (cur_slot ?w))"
  have set: "set ?as = {a. due ?w a = Some 0}" by (rule due_zero [OF xs])
  have dist: "distinct ?as" using xs by (auto simp: wheel_iff placed_def sorted_in_def)
  have bound: "\<exists>t fd d. timers_of ?w a = Some t \<and> cb_func t = Some Cb_Func
      \<and> user_data t = Some fd \<and> fd_of s a = Some fd \<and> users_timer s fd = Some d \<and> cd_sockfd d = fd" if "a \<in> set ?as" for a
  proof -
    have "due ?w a \<noteq> None" using that unfolding set by simp
    then obtain t where t: "tdata s a = Some t" unfolding due_None_iff by auto
    obtain fd where fd: "cb_func t = Some Cb_Func" "user_data t = Some fd" "client s a fd" using inv_bound [OF assms t] by blast
    obtain u where u: "timers_of ?w a = Some u" "payload_of u = t" using timer_live [OF t] by blast
    have "cb_func u = Some Cb_Func" "user_data u = Some fd" using u(2) fd(1,2) payload_fields [of u] by simp_all
    with fd(2,3) u(1) t show ?thesis by (auto simp: client_def fd_of_Some)
  qed
  obtain k' where k': "fire (run_callback (users_timer s)) (timers_of ?w) ?as (kernel s) = Inr k'" "os_inv k'"
      "m_user_count k' = m_user_count (kernel s) - int (length ?as)"
      "\<And>fd. fd_open k' fd = (fd_open (kernel s) fd \<and> (\<forall>a \<in> set ?as. fd_of s a \<noteq> Some fd))"
      "\<And>fd. (\<forall>a \<in> set ?as. fd_of s a \<noteq> Some fd) \<Longrightarrow> ep_table k' fd = ep_table (kernel s) fd"
    using fire_close [OF dist bound inv_parts(2) [OF assms]] by blast
  obtain w' where w': "tick (run_callback (users_timer s)) ?w (kernel s) = Some (Inr (w', k'))" "wheel_inv w'"
      "due w' = count_down (due ?w)" "data (timers_of w') = after_turn (data (timers_of ?w)) (xs (cur_slot ?w))"
    by (rule tick_wheel [OF xs k'(1)])
  let ?s' = "s\<lparr>timer_lst := w', kernel := k', alarm_set := TIMESLOT\<rparr>"
  have run: "timer_handler s = Some (Inr ?s')" by (simp add: timer_handler_def w'(1))
  have before: "\<exists>t. tdata s a = Some t \<and> cb_func t' = cb_func t \<and> user_data t' = user_data t"
    if "tdata ?s' a = Some t'" for a t'
    using after_turn_payload [of "tdata s" "xs (cur_slot ?w)" a t'] that by (simp add: tdata_def w'(4))
  have none: "tdata ?s' a = None \<longleftrightarrow> tdata s a = None \<or> due ?w a = Some 0" for a
    using due_None_iff [of ?s' a] due_None_iff [of s a] w'(3) by (auto simp: count_down_def split: option.splits nat.splits)
  have own: "fd_of ?s' = (\<lambda>a. if due ?w a = Some 0 then None else fd_of s a)"
  proof
    fix a
    show "fd_of ?s' a = (if due ?w a = Some 0 then None else fd_of s a)"
    proof (cases "tdata ?s' a")
      case None
      then show ?thesis using none [of a] by (auto simp: fd_of_def)
    next
      case (Some t')
      then have "due ?w a \<noteq> Some 0" using none [of a] by simp
      moreover obtain t where "tdata s a = Some t" "user_data t' = user_data t" using before [OF Some] by blast
      ultimately show ?thesis using Some by (simp add: fd_of_def)
    qed
  qed
  have sub: "set ?as \<subseteq> dom (fd_of s)" using bound by blast
  have "dom (fd_of ?s') = dom (fd_of s) - set ?as" unfolding own set by (auto split: if_splits)
  moreover have "card (dom (fd_of s) - set ?as) = card (dom (fd_of s)) - length ?as"
    unfolding distinct_card [OF dist, symmetric] by (rule card_Diff_subset [OF finite_set sub])
  moreover have "length ?as \<le> card (dom (fd_of s))"
    unfolding distinct_card [OF dist, symmetric] by (rule card_mono [OF finite_fd_of [OF assms] sub])
  ultimately have card: "int (card (dom (fd_of ?s'))) = int (card (dom (fd_of s))) - int (length ?as)" by simp
  have inv: "srv_inv ?s'"
  proof (rule srv_invI)
    show "m_user_count (kernel ?s') = int (card (dom (fd_of ?s')))"
      unfolding card using inv_parts(3) [OF assms] k'(3) by simp
    fix a t' assume t': "tdata ?s' a = Some t'"
    then have live: "due ?w a \<noteq> Some 0" using none [of a] by auto
    obtain t where t: "tdata s a = Some t" "cb_func t' = cb_func t" "user_data t' = user_data t" using before [OF t'] by blast
    obtain fd where fd: "cb_func t = Some Cb_Func" "user_data t = Some fd" "client s a fd" using inv_bound [OF assms t(1)] by blast
    have "fd_of s b \<noteq> Some fd" if "b \<in> set ?as" for b
    proof
      assume "fd_of s b = Some fd"
      then have "b = a" using fd_of_inj [OF assms, of b fd a] t(1) fd(2) by (simp add: fd_of_Some)
      with that live show False unfolding set by simp
    qed
    then have "client ?s' a fd" using fd(3) k'(4) [of fd] k'(5) [of fd] by (simp add: client_def)
    with t fd show "cb_func t' = Some Cb_Func \<and> (\<exists>fd. user_data t' = Some fd \<and> client ?s' a fd)" by auto
  qed (use w'(2) k'(2) in simp_all)
  show ?thesis
    by (rule that [OF run inv _ _ own]) (use w'(3) k'(4) set in \<open>auto simp: same_conf_def\<close>)
qed

lemma timer_handler_ex:
  assumes "srv_inv s"
  shows "\<exists>s'. timer_handler s = Some (Inr s') \<and> srv_inv s' \<and> same_conf s s'
    \<and> fd_of s' = (\<lambda>a. if due (timer_lst s) a = Some 0 then None else fd_of s a)
    \<and> due (timer_lst s') = count_down (due (timer_lst s))
    \<and> (\<forall>fd. fd_open (kernel s') fd \<longleftrightarrow> fd_open (kernel s) fd \<and> (\<forall>a. due (timer_lst s) a = Some 0 \<longrightarrow> fd_of s a \<noteq> Some fd))
    \<and> alarm_set s' = TIMESLOT"
proof (rule timer_handler_ok [OF assms])
  fix s'
  assume a: "timer_handler s = Some (Inr s')" "srv_inv s'" "same_conf s s'"
    "fd_of s' = (\<lambda>a. if due (timer_lst s) a = Some 0 then None else fd_of s a)"
    "due (timer_lst s') = count_down (due (timer_lst s))"
    and o: "\<And>fd. fd_open (kernel s') fd = (fd_open (kernel s) fd \<and> (\<forall>a. due (timer_lst s) a = Some 0 \<longrightarrow> fd_of s a \<noteq> Some fd))"
    and al: "alarm_set s' = TIMESLOT"
  show ?thesis
    by (rule exI [of _ s'], intro conjI allI, (rule a)+, rule o, rule al)
qed

text \<open>A tick leaks no descriptor: what it keeps open is not due, or its own.\<close>

lemma timer_handler_no_leak:
  assumes "srv_inv s" and "timer_handler s = Some (Inr s')" and "no_leak s"
  shows "no_leak s'"
proof -
  have s': "same_conf s s'" "fd_of s' = (\<lambda>a. if due (timer_lst s) a = Some 0 then None else fd_of s a)"
    "\<And>fd. fd_open (kernel s') fd \<longleftrightarrow> fd_open (kernel s) fd \<and> (\<forall>a. due (timer_lst s) a = Some 0 \<longrightarrow> fd_of s a \<noteq> Some fd)"
    using timer_handler_ex [OF assms(1)] assms(2) by auto
  show ?thesis
    unfolding no_leak_def
  proof (intro allI impI)
    fix fd assume o: "fd_open (kernel s') fd"
    then have "fd \<in> own_fds s \<or> live s fd" using assms(3) by (simp add: no_leak_def s'(3))
    moreover have "live s' fd" if "live s fd"
    proof -
      from that obtain a where a: "fd_of s a = Some fd" by (auto simp: live_def)
      with o have "due (timer_lst s) a \<noteq> Some 0" by (auto simp: s'(3))
      with a have "fd_of s' a = Some fd" by (simp add: s'(2))
      then show ?thesis by (auto simp: live_def)
    qed
    ultimately show "fd \<in> own_fds s' \<or> live s' fd" using same_conf_own_fds [OF s'(1)] by auto
  qed
qed

text \<open>What \<open>tick_spec\<close> asks of the callbacks holds for those of the server.\<close>

lemma server_callbacks_ok:
  assumes "srv_inv s"
  shows "callbacks_ok (run_callback (users_timer s)) (timer_lst s)"
  unfolding callbacks_ok_def
proof (intro allI impI)
  fix a t k assume "data (timers_of (timer_lst s)) a = Some t"
  then have "tdata s a = Some t" by (simp add: tdata_def)
  then obtain fd where fd: "cb_func t = Some Cb_Func" "user_data t = Some fd" "client s a fd"
    using inv_bound [OF assms] by blast
  then obtain d where "users_timer s fd = Some d" "cd_sockfd d = fd" by (auto simp: client_def)
  with fd show "is_ok (run_callback (users_timer s) (cb_func t) (user_data t) k)"
    by (simp add: run_callback_def cb_close_ok is_ok_iff)
qed

section \<open>Accepting, continued\<close>

text \<open>What \<open>accept\<close> may return, and what its effect is.\<close>

definition accepted_fd :: "accept_result \<Rightarrow> int list" where
  "accepted_fd r = (case r of Accept_Failed \<Rightarrow> [] | Accepted fd _ \<Rightarrow> [fd])"

definition accepts_ok :: "server \<Rightarrow> accept_result list \<Rightarrow> bool" where
  "accepts_ok s rs \<longleftrightarrow> conf_ok s \<and> distinct (concat (map accepted_fd rs))
     \<and> (\<forall>fd \<in> set (concat (map accepted_fd rs)). fresh_fd s fd)"

text \<open>The connections other than \<open>fd\<close> stay what they are.\<close>

definition stepped :: "server \<Rightarrow> int \<Rightarrow> server \<Rightarrow> bool" where
  "stepped s fd s' \<longleftrightarrow> srv_inv s' \<and> same_conf s s' \<and> (no_leak s \<longrightarrow> no_leak s')
     \<and> (\<forall>a g. fd_of s a = Some g \<and> g \<noteq> fd \<longrightarrow> fd_of s' a = Some g \<and> conns s' g = conns s g)"

lemma stepped_refl: "srv_inv s \<Longrightarrow> stepped s fd s"
  by (simp add: stepped_def)

lemma stepped_trans: "stepped s fd s1 \<Longrightarrow> stepped s1 fd s2 \<Longrightarrow> stepped s fd s2"
  unfolding stepped_def by (metis same_conf_trans)

lemma client_not_fresh: "srv_inv s \<Longrightarrow> fd_of s a = Some g \<Longrightarrow> \<not> fresh_fd s g"
  by (erule inv_fd_of, assumption) (auto simp: client_def fresh_fd_def)

text \<open>The descriptor that \<open>accept\<close> returns, before anything is done with it.\<close>

definition opened :: "server \<Rightarrow> int \<Rightarrow> server" where
  "opened s fd = s\<lparr>kernel := (kernel s)\<lparr>fd_open := (fd_open (kernel s))(fd := True)\<rparr>\<rparr>"

lemma opened_inv:
  assumes "srv_inv s"
  shows "srv_inv (opened s fd)" and "fd_of (opened s fd) = fd_of s" and "same_conf s (opened s fd)"
proof -
  let ?s = "opened s fd"
  have td: "tdata ?s = tdata s" by (simp add: tdata_def opened_def)
  then show own: "fd_of ?s = fd_of s" by (auto simp: fd_of_def fun_eq_iff)
  have cl: "client ?s a g" if "client s a g" for a g using that by (simp add: client_def opened_def)
  show "srv_inv ?s"
  proof (rule srv_invI)
    show "os_inv (kernel ?s)" using inv_parts(2) [OF assms] by (auto simp: os_inv_def opened_def)
    show "m_user_count (kernel ?s) = int (card (dom (fd_of ?s)))"
      unfolding own using inv_parts(3) [OF assms] by (simp add: opened_def)
    show "cb_func t = Some Cb_Func \<and> (\<exists>g. user_data t = Some g \<and> client ?s a g)" if "tdata ?s a = Some t" for a t
      using inv_bound [OF assms, of a t] that cl unfolding td by blast
  qed (use inv_parts(1) [OF assms] in \<open>simp add: opened_def\<close>)
  show "same_conf s ?s" by (simp add: same_conf_def opened_def)
qed

lemma accept_one_ok:
  assumes "srv_inv s" and "accepts_ok s (r # rs)"
  obtains s' more where "accept_one s now r = Inr (s', more)" and "stepped s (ws_listenfd s) s'" and "accepts_ok s' rs"
proof (cases r)
  case Accept_Failed
  then show ?thesis
    using assms by (intro that [of s False]) (simp_all add: accept_one_def stepped_refl accepts_ok_def accepted_fd_def)
next
  case (Accepted fd addr)
  let ?k = "(kernel s)\<lparr>fd_open := (fd_open (kernel s))(fd := True)\<rparr>" and ?others = "concat (map accepted_fd rs)"
  let ?s1 = "s\<lparr>kernel := ?k\<rparr>"
  have fresh: "fresh_fd s fd" "fd \<notin> set ?others" "distinct ?others" "\<And>g. g \<in> set ?others \<Longrightarrow> fresh_fd s g" "conf_ok s"
    using assms(2) by (auto simp: accepts_ok_def accepted_fd_def Accepted)
  have not_fd: "g \<noteq> fd" if "fd_of s a = Some g" for a g using client_not_fresh [OF assms(1) that] fresh(1) by blast
  have inv1: "srv_inv ?s1" and own: "fd_of ?s1 = fd_of s" using opened_inv [OF assms(1), of fd] by (simp_all add: opened_def)
  show ?thesis
  proof (cases "m_user_count ?k \<ge> MAX_FD")
    case True
    let ?s' = "s\<lparr>kernel := show_error ?k fd\<rparr>"
    have td': "tdata ?s' = tdata s" by (simp add: tdata_def)
    then have own': "fd_of ?s' = fd_of s" by (auto simp: fd_of_def fun_eq_iff)
    have table: "ep_table (show_error ?k fd) g = ep_table (kernel s) g" for g
      using fresh(1) by (simp add: show_error_def os_ops fresh_fd_def)
    have "srv_inv ?s'"
    proof (rule srv_invI)
      show "os_inv (kernel ?s')"
        using inv_parts(2) [OF assms(1)] by (auto simp: os_inv_def show_error_def os_ops)
      show "m_user_count (kernel ?s') = int (card (dom (fd_of ?s')))"
        unfolding own' using inv_parts(3) [OF assms(1)] by (simp add: show_error_def)
      fix a t assume t: "tdata ?s' a = Some t"
      then obtain g where g: "cb_func t = Some Cb_Func" "user_data t = Some g" "client s a g"
        using inv_bound [OF assms(1), of a t] unfolding td' by blast
      have "g \<noteq> fd" using g(2) t unfolding td' by (intro not_fd [of a]) (simp add: fd_of_Some)
      then have "client ?s' a g" using g(3) table by (simp add: client_def show_error_def)
      with g show "cb_func t = Some Cb_Func \<and> (\<exists>g. user_data t = Some g \<and> client ?s' a g)" by blast
    qed (use inv_parts(1) [OF assms(1)] in simp)
    moreover have "accept_one s now r = Inr (?s', False)" using True by (simp add: accept_one_def Accepted Let_def)
    moreover have "accepts_ok ?s' rs"
      using fresh(3-5) table by (auto simp: accepts_ok_def conf_ok_def fresh_fd_def)
    moreover have "no_leak ?s'" if "no_leak s"
      using that unfolding no_leak_def live_def own' by (auto simp: own_fds_def show_error_def)
    ultimately show ?thesis by (intro that [of ?s' False]) (auto simp: stepped_def same_conf_def own')
  next
    case False
    have "fresh_fd ?s1 fd" "fd_open (kernel ?s1) fd" "conf_ok ?s1"
      using fresh(1,5) by (simp_all add: fresh_fd_def conf_ok_def)
    then obtain s2 a where s2: "new_client ?s1 now fd addr = Inr s2" "srv_inv s2" "fd_of ?s1 a = None"
        "fd_of s2 = (fd_of ?s1)(a \<mapsto> fd)" "same_conf ?s1 s2"
        "\<And>g. g \<noteq> fd \<Longrightarrow> ep_table (kernel s2) g = ep_table (kernel ?s1) g" "\<And>g. g \<noteq> fd \<Longrightarrow> conns s2 g = conns ?s1 g"
        "fd_open (kernel s2) = fd_open (kernel ?s1)"
      using new_client_ok [OF inv1, of fd now addr] by metis
    have conf: "same_conf s s2" using s2(5) by (simp add: same_conf_def)
    have leak: "no_leak s2" if "no_leak s"
      unfolding no_leak_def
    proof (intro allI impI)
      fix g assume "fd_open (kernel s2) g"
      then have "g = fd \<or> g \<in> own_fds s \<or> live s g" using that by (auto simp: no_leak_def s2(8) split: if_splits)
      moreover have "live s2 g" if "live s g"
      proof -
        from that obtain b where b: "fd_of s b = Some g" by (auto simp: live_def)
        with s2(3) have "b \<noteq> a" by (auto simp: own)
        with b show ?thesis by (auto simp: live_def s2(4) own)
      qed
      moreover have "live s2 fd" by (auto simp: live_def s2(4))
      ultimately show "g \<in> own_fds s2 \<or> live s2 g" using same_conf_own_fds [OF conf] by auto
    qed
    have "accept_one s now r = Inr (s2, True)" using False s2(1) by (simp add: accept_one_def Accepted Let_def)
    moreover have "stepped s (ws_listenfd s) s2"
      using s2(2-4,7) conf own not_fd leak by (auto simp: stepped_def)
    moreover have "accepts_ok s2 rs"
    proof -
      have "fresh_fd s2 g" if "g \<in> set ?others" for g
      proof -
        have "g \<noteq> fd" using that fresh(2) by blast
        then show ?thesis using fresh(4) [OF that] s2(6) [of g] conf by (simp add: fresh_fd_def same_conf_def)
      qed
      then show ?thesis using fresh(3,5) conf_ok_same [OF conf] by (simp add: accepts_ok_def)
    qed
    ultimately show ?thesis by (rule that)
  qed
qed

lemma accept_all_ok:
  "srv_inv s \<Longrightarrow> accepts_ok s rs \<Longrightarrow> \<exists>s'. accept_all s now rs = Inr s' \<and> stepped s (ws_listenfd s) s'"
proof (induction rs arbitrary: s)
  case Nil
  then show ?case by (simp add: stepped_refl)
next
  case (Cons r rs)
  obtain s1 more where s1: "accept_one s now r = Inr (s1, more)" "stepped s (ws_listenfd s) s1" "accepts_ok s1 rs"
    by (rule accept_one_ok [OF Cons.prems])
  have i1: "srv_inv s1" "ws_listenfd s1 = ws_listenfd s" using s1(2) by (simp_all add: stepped_def same_conf_def)
  obtain s2 where s2: "accept_all s1 now rs = Inr s2" "stepped s1 (ws_listenfd s1) s2"
    using Cons.IH [OF i1(1) s1(3)] by blast
  show ?case
  proof (cases more)
    case True
    with s1 s2 i1 stepped_trans [OF s1(2), of s2] show ?thesis by simp
  qed (use s1 in simp)
qed

lemma dealclinetdata_ok:
  assumes "srv_inv s" and "accepts_ok s rs"
  shows "\<exists>s' b. dealclinetdata s now rs = Inr (s', b) \<and> stepped s (ws_listenfd s) s'"
proof (cases "ws_LISTENTrigmode s = Some 0")
  case True
  show ?thesis
  proof (cases rs)
    case Nil
    with True assms(1) show ?thesis
      by (intro exI [of _ s] exI [of _ False]) (simp add: dealclinetdata_def stepped_refl)
  next
    case (Cons r rest)
    obtain s1 more where "accept_one s now r = Inr (s1, more)" "stepped s (ws_listenfd s) s1"
      by (rule accept_one_ok [OF assms(1) assms(2) [unfolded Cons]])
    with True Cons show ?thesis by (simp add: dealclinetdata_def)
  qed
next
  case False
  moreover obtain mode where "ws_LISTENTrigmode s = Some mode" using assms(2) by (auto simp: accepts_ok_def conf_ok_def)
  ultimately show ?thesis using accept_all_ok [OF assms, of now] by (auto simp: dealclinetdata_def)
qed

end
