(* ===== verification/Server_Loop.thy ===== *)
theory Server_Loop
  imports Server_Inv
begin

text \<open>
  The event loop of \<open>webserver.cpp\<close> under the invariant of \<open>Server_Inv\<close>: a batch of events, the
  tick after it, and any number of turns. What is relied on is what the kernel guarantees:
  \<open>epoll_wait\<close> names each descriptor once and only registered ones, and \<open>accept\<close> returns
  descriptors that are not in use. The last section has the two places where another thread
  breaks the bookkeeping.
\<close>

section \<open>One event\<close>






section \<open>A batch of events\<close>





section \<open>The loop\<close>




section \<open>The start\<close>

text \<open>The server before \<open>eventListen\<close>: no timer, no connection, nothing open.\<close>

definition blank_server :: "server \<Rightarrow> bool" where
  "blank_server s \<longleftrightarrow> timer_lst s = empty_wheel \<and> fd_open (kernel s) = (\<lambda>_. False)
     \<and> ep_table (kernel s) = (\<lambda>_. None) \<and> m_user_count (kernel s) = 0 \<and> conf_ok s"

lemma tdata_empty: "timer_lst s = empty_wheel \<Longrightarrow> tdata s = (\<lambda>_. None)"
  by (simp add: tdata_def data_def timers_of_def empty_wheel_def view_def empty_pool_def fun_eq_iff)

lemma listen_ok:
  assumes "blank_server s0" and "eventListen s0 sock b l ep pipefd = Some (Inr s)"
  shows "srv_inv s" and "conf_ok s" and "fd_of s = (\<lambda>_. None)" and "no_leak s"
proof -
  obtain mode p0 p1 where p: "ws_LISTENTrigmode s0 = Some mode" "pipefd = Some (p0, p1)"
    using assms(2) by (auto simp: eventListen_def Let_def split: if_splits option.splits)
  have s: "timer_lst s = empty_wheel" "m_user_count (kernel s) = 0" "conf_ok s"
    using assms by (auto simp: eventListen_def Let_def blank_server_def conf_ok_def setnonblocking_def p split: if_splits)
  have "os_inv (kernel s0)" using assms(1) by (simp add: os_inv_def blank_server_def)
  then have os: "os_inv (kernel s)"
    using assms(2) by (auto simp: eventListen_def Let_def os_inv_def os_ops p split: if_splits)
  show own: "fd_of s = (\<lambda>_. None)" by (simp add: fd_of_def tdata_empty [OF s(1)] fun_eq_iff)
  show "srv_inv s"
    by (rule srv_invI) (use s os own wheel_inv_empty in \<open>simp_all add: tdata_empty\<close>)
  show "conf_ok s" by (rule s(3))
  show "no_leak s"
    using assms by (auto simp: no_leak_def own_fds_def eventListen_def Let_def blank_server_def setnonblocking_def p
        split: if_splits option.splits)
qed

section \<open>The claims\<close>


text \<open>
  C21. One alarm: the connections whose timers are due are closed and their timers gone, all
  others stay and their timers come one tick nearer, and the next alarm is set.
\<close>

theorem alarm_closes_idle:
  assumes "srv_inv s"
  shows "\<exists>s'. timer_handler s = Some (Inr s') \<and> srv_inv s' \<and> alarm_set s' = TIMESLOT
    \<and> due (timer_lst s') = count_down (due (timer_lst s))
    \<and> (\<forall>a. due (timer_lst s) a \<noteq> Some 0 \<longrightarrow> fd_of s' a = fd_of s a)
    \<and> (\<forall>a fd. fd_of s a = Some fd \<and> due (timer_lst s) a = Some 0 \<longrightarrow> \<not> fd_open (kernel s') fd \<and> \<not> live s' fd)"
proof -
  obtain s' where s': "timer_handler s = Some (Inr s')" "srv_inv s'" "due (timer_lst s') = count_down (due (timer_lst s))"
    "fd_of s' = (\<lambda>a. if due (timer_lst s) a = Some 0 then None else fd_of s a)"
    "\<forall>fd. fd_open (kernel s') fd \<longleftrightarrow> fd_open (kernel s) fd \<and> (\<forall>a. due (timer_lst s) a = Some 0 \<longrightarrow> fd_of s a \<noteq> Some fd)"
    "alarm_set s' = TIMESLOT"
    using timer_handler_ex [OF assms] by blast
  have "\<not> live s' fd" if "fd_of s a = Some fd" "due (timer_lst s) a = Some 0" for a fd
  proof
    assume "live s' fd"
    then obtain b where "fd_of s' b = Some fd" by (auto simp: live_def)
    then have b: "due (timer_lst s) b \<noteq> Some 0" "fd_of s b = Some fd" by (simp_all add: s'(4) split: if_splits)
    have "b = a" by (rule fd_of_inj [OF assms b(2) that(1)])
    with b(1) that(2) show False by simp
  qed
  moreover have "fd_of s' a = fd_of s a" if "due (timer_lst s) a \<noteq> Some 0" for a using that by (simp add: s'(4))
  moreover have "\<not> fd_open (kernel s') fd" if "fd_of s a = Some fd" "due (timer_lst s) a = Some 0" for a fd
    using s'(5) that by blast
  ultimately show ?thesis using s'(1-3,6) by blast
qed

text \<open>
  A request that is read restarts the connection's timer at 15 ticks, in both models. The
  timer keeps its address, since the pool hands the freed cell out again; so the pointer that
  \<open>dealwithread\<close> holds across \<open>adjust_timer\<close> is still the connection's timer.
\<close>

theorem activity_restarts_timer:
  assumes "srv_inv s" and "fd_of s a = Some fd"
  shows "\<exists>s'. adjust_timer s now a = Inr s' \<and> srv_inv s' \<and> fd_of s' = fd_of s
    \<and> user_timer s' fd = Inr (Some a)
    \<and> due (timer_lst s') = (due (timer_lst s))(a \<mapsto> 15)"
proof -
  obtain s' where s': "adjust_timer s now a = Inr s'" "srv_inv s'" "fd_of s' = fd_of s"
    "due (timer_lst s') a = Some 15" "\<And>b. b \<noteq> a \<Longrightarrow> due (timer_lst s') b = due (timer_lst s) b"
    using adjust_timer_ok [OF assms] by metis
  have "user_timer s' fd = Inr (Some a)" by (rule user_timer_ok [OF s'(2)]) (simp add: s'(3) assms(2))
  with s' show ?thesis by (auto simp: fun_eq_iff)
qed

section \<open>Idle connections\<close>

text \<open>\<open>n\<close> alarms with nothing between them.\<close>

fun alarms :: "nat \<Rightarrow> server \<Rightarrow> server res option" where
  "alarms 0 s = Some (Inr s)"
| "alarms (Suc n) s = (case timer_handler s of
     Some (Inr s1) \<Rightarrow> alarms n s1 | other \<Rightarrow> other)"

lemma alarms_due:
  assumes "srv_inv s" and "due (timer_lst s) a = Some d" and "fd_of s a = Some fd"
  shows "\<exists>s' s''. alarms d s = Some (Inr s') \<and> srv_inv s' \<and> fd_open (kernel s') fd \<and> fd_of s' a = Some fd
    \<and> due (timer_lst s') a = Some 0 \<and> timer_handler s' = Some (Inr s'') \<and> \<not> fd_open (kernel s'') fd"
  using assms
proof (induction d arbitrary: s)
  case 0
  have "client s a fd" by (rule inv_fd_of [OF 0(1,3)])
  moreover obtain s'' where "timer_handler s = Some (Inr s'')"
    "\<forall>fd. fd_open (kernel s'') fd \<longleftrightarrow> fd_open (kernel s) fd \<and> (\<forall>a. due (timer_lst s) a = Some 0 \<longrightarrow> fd_of s a \<noteq> Some fd)"
    using timer_handler_ex [OF 0(1)] by blast
  ultimately show ?case using 0 by (auto simp: client_def)
next
  case (Suc d)
  obtain s1 where s1: "timer_handler s = Some (Inr s1)" "srv_inv s1" "due (timer_lst s1) = count_down (due (timer_lst s))"
    "fd_of s1 = (\<lambda>a. if due (timer_lst s) a = Some 0 then None else fd_of s a)"
    using timer_handler_ex [OF Suc.prems(1)] by blast
  then have "due (timer_lst s1) a = Some d" "fd_of s1 a = Some fd"
    using Suc.prems(2,3) by (simp_all add: count_down_def)
  from Suc.IH [OF s1(2) this] s1(1) show ?case by simp
qed

text \<open>
  C22. A new connection that stays silent is open through 15 alarms and closed by the 16th, that
  is after 80 seconds, as alarms come every \<open>TIMESLOT\<close> seconds.
\<close>

theorem silent_client_closed:
  assumes "srv_inv s" and "fresh_fd s fd" and "fd_open (kernel s) fd" and "conf_ok s"
  shows "\<exists>s1 s2 s3. new_client s now fd addr = Inr s1
    \<and> alarms 15 s1 = Some (Inr s2) \<and> fd_open (kernel s2) fd
    \<and> timer_handler s2 = Some (Inr s3) \<and> \<not> fd_open (kernel s3) fd"
proof -
  obtain s1 a where s1: "new_client s now fd addr = Inr s1" "srv_inv s1" "fd_of s1 = (fd_of s)(a \<mapsto> fd)"
    "due (timer_lst s1) a = Some 15"
    using new_client_ok [OF assms, of now addr] by metis
  have "fd_of s1 a = Some fd" by (simp add: s1(3))
  from alarms_due [OF s1(2,4) this] s1(1) show ?thesis by blast
qed

section \<open>Signals\<close>

text \<open>The signals handled since the last turn set the flags, in whatever order they came.\<close>

lemma handled_signals: "foldl sig_handler pipe sigs = pipe @ map (\<lambda>sig. sig mod 256) sigs"
  by (induction sigs arbitrary: pipe) (simp_all add: sig_handler_def)

lemma signal_flags:
  "foldl (\<lambda>(timeout, stop_server) sig. if sig = SIGALRM then (True, stop_server)
      else if sig = SIGTERM then (timeout, True) else (timeout, stop_server)) (a, b) sigs
    = (a \<or> SIGALRM \<in> set sigs, b \<or> SIGTERM \<in> set sigs)"
  by (induction sigs arbitrary: a b) (auto simp: SIGALRM_def SIGTERM_def)

lemma signals_seen:
  assumes "sigs \<noteq> []" and "\<forall>sig \<in> set sigs. sig < 256"
  shows "dealwithsignal (Some (foldl sig_handler [] sigs)) (False, False) =
    ((SIGALRM \<in> set sigs, SIGTERM \<in> set sigs), True)"
proof -
  have "map (\<lambda>sig. sig mod 256) sigs = sigs" using assms(2) by (simp add: map_idI)
  moreover have "dealwithsignal (Some sigs) (False, False) =
      (foldl (\<lambda>(timeout, stop_server) sig. if sig = SIGALRM then (True, stop_server)
         else if sig = SIGTERM then (timeout, True) else (timeout, stop_server)) (False, False) sigs, True)"
    using assms(1) by (simp add: dealwithsignal_def split: list.split)
  ultimately show ?thesis by (simp add: handled_signals signal_flags)
qed

section \<open>A worker that closes\<close>

text \<open>
  When a worker closes a connection, because \<open>process_write\<close> failed, its timer stays in the
  wheel. The timer's callback later closes the same descriptor number again, whoever has it
  then, and the connection is taken off \<open>m_user_count\<close> a second time.
\<close>

theorem worker_close_counted_twice:
  assumes "srv_inv s" and "fd_of s a = Some fd" and "fd \<noteq> - 1"
    and "close_conn (kernel s) (conns s fd) True = (k, c)"
  shows "m_user_count k = m_user_count (kernel s) - 1 \<and> \<not> fd_open k fd
    \<and> (\<forall>k2. \<exists>k3. run_callback (users_timer s) (Some Cb_Func) (Some fd) k2 = Inr k3
        \<and> \<not> fd_open k3 fd \<and> m_user_count k3 = m_user_count k2 - 1)
    \<and> (\<exists>s2. deal_timer (s\<lparr>kernel := k, conns := (conns s)(fd := c)\<rparr>) (Some a) fd = Inr s2
        \<and> m_user_count (kernel s2) = m_user_count (kernel s) - 2)"
proof -
  obtain t d where t: "tdata s a = Some t" "cb_func t = Some Cb_Func" and cl: "client s a fd"
    and d: "users_timer s fd = Some d" "cd_sockfd d = fd"
    by (rule inv_fd_of [OF assms(1,2)])
  have k: "m_user_count k = m_user_count (kernel s) - 1" "\<not> fd_open k fd"
    using assms(3,4) cl by (auto simp: close_conn_def client_def Let_def split: if_splits)
  have run: "run_callback (users_timer s) (Some Cb_Func) (Some fd) k2 =
      Inr (let k1 = close_fd (epoll_ctl_del k2 fd) fd in k1\<lparr>m_user_count := m_user_count k1 - 1\<rparr>)" for k2
    using cb_close_ok [of "users_timer s" fd d k2] d by (simp add: run_callback_def)
  let ?s1 = "s\<lparr>kernel := k, conns := (conns s)(fd := c)\<rparr>"
  obtain u where u: "deref (timer_lst s) (Some a) = Inr u" "cb_func u = cb_func t" by (rule deref_tdata [OF t(1)])
  have "timers_of (timer_lst s) a \<noteq> None" using timer_live [OF t(1)] by auto
  then obtain w where "del_timer (timer_lst s) (Some a) = Inr w"
    by (rule del_timer_ok [OF inv_parts(1) [OF assms(1)]])
  then have "\<exists>s2. deal_timer ?s1 (Some a) fd = Inr s2 \<and> m_user_count (kernel s2) = m_user_count k - 1"
    using u t(2) run [of k] by (simp add: deal_timer_def Let_def)
  with k run show ?thesis by (auto simp: Let_def)
qed

section \<open>A concrete server\<close>

definition demo_server :: server where
  "demo_server = \<lparr>ws_port = 9006, ws_root = ''/srv'', ws_log_write = 0, ws_close_log = 1, ws_actormodel = 0,
     ws_pipefd0 = 0, ws_pipefd1 = 0, ws_mysql_host = ''h'', ws_user = ''u'', ws_passWord = ''p'', ws_databaseName = ''d'',
     ws_sql_num = 8, ws_thread_num = 8, ws_listenfd = 0, ws_OPT_LINGER = 0, ws_TRIGMode = 0, ws_LISTENTrigmode = Some 0,
     ws_CONNTrigmode = Some 0,
     kernel = \<lparr>fd_open = (\<lambda>_. False), fd_nonblock = (\<lambda>_. False), ep_table = (\<lambda>_. None), m_user_count = 0\<rparr>,
     conns = (\<lambda>_. zero_conn), users_timer = (\<lambda>_. None), timer_lst = empty_wheel, alarm_set = 0,
     requests = \<lparr>m_actor_model = 0, m_max_requests = 10000, m_workqueue = [], m_stop = False\<rparr>\<rparr>"


lemma demo_started:
  obtains s where "eventListen demo_server 3 0 0 4 (Some (5, 6)) = Some (Inr s)" and "srv_inv s" and "conf_ok s"
    and "fresh_fd s 7" and "\<not> fd_open (kernel s) 7" and "ws_listenfd s = 3"
proof -
  obtain s where s: "eventListen demo_server 3 0 0 4 (Some (5, 6)) = Some (Inr s)" by (simp add: eventListen_def Let_def demo_server_def)
  have b: "blank_server demo_server" by (simp add: blank_server_def demo_server_def conf_ok_def)
  have "fresh_fd s 7" "\<not> fd_open (kernel s) 7" "ws_listenfd s = 3"
    using s by (auto simp: eventListen_def Let_def demo_server_def fresh_fd_def in_users_def MAX_FD_def os_ops)
  with that s listen_ok [OF b s] show ?thesis by blast
qed

lemma demo_accepted:
  obtains s where "srv_inv s" and "fresh_fd s 7" and "fd_open (kernel s) 7" and "conf_ok s"
proof -
  obtain s where s: "srv_inv s" "conf_ok s" "fresh_fd s 7" by (rule demo_started)
  have "fresh_fd (opened s 7) 7" "fd_open (kernel (opened s 7)) 7" "conf_ok (opened s 7)"
    using s(2,3) by (simp_all add: fresh_fd_def conf_ok_def opened_def)
  with opened_inv(1) [OF s(1)] show ?thesis by (rule that)
qed

lemma demo_client:
  obtains s a where "srv_inv s" and "fd_of s a = Some 7" and "due (timer_lst s) a = Some 15"
proof -
  obtain s where s: "srv_inv s" "fresh_fd s 7" "fd_open (kernel s) 7" "conf_ok s" by (rule demo_accepted)
  obtain s1 a where "srv_inv s1" "fd_of s1 = (fd_of s)(a \<mapsto> 7)" "due (timer_lst s1) a = Some 15"
    using new_client_ok [OF s, of 0 1] by metis
  then show ?thesis by (intro that [of s1 a]) simp_all
qed


text \<open>The witness of \<open>Time_Wheel.tick_spec\<close>: after 15 alarms the tick fires the timer of the only client, with the server's callback.\<close>

theorem tick_spec_witness:
  "\<exists>s a as w' k'. fd_of s a = Some 7 \<and> fd_open (kernel s) 7 \<and> a \<in> set as
    \<and> fire (run_callback (users_timer s)) (timers_of (timer_lst s)) as (kernel s) = Inr k'
    \<and> tick (run_callback (users_timer s)) (timer_lst s) (kernel s) = Some (Inr (w', k')) \<and> due w' a = None"
proof -
  obtain s0 a where "srv_inv s0" "fd_of s0 a = Some 7" "due (timer_lst s0) a = Some 15" by (rule demo_client)
  then obtain s where s: "srv_inv s" "fd_open (kernel s) 7" "fd_of s a = Some 7" "due (timer_lst s) a = Some 0"
    using alarms_due by blast
  obtain as w' k' where t: "set as = {a. due (timer_lst s) a = Some 0}"
      "fire (run_callback (users_timer s)) (timers_of (timer_lst s)) as (kernel s) = Inr k'"
      "tick (run_callback (users_timer s)) (timer_lst s) (kernel s) = Some (Inr (w', k'))"
      "due w' = count_down (due (timer_lst s))"
    using tick_spec [OF inv_parts(1) [OF s(1)] server_callbacks_ok [OF s(1)], of "kernel s"] by blast
  have "a \<in> set as" "due w' a = None" using s(4) by (simp_all add: t(1,4) count_down_def)
  with s(2,3) t(2,3) show ?thesis by blast
qed

theorem alarm_closes_idle_witness:
  "\<exists>s a s'. fd_of s a = Some 7 \<and> timer_handler s = Some (Inr s') \<and> due (timer_lst s') a = Some 14 \<and> alarm_set s' = 5"
proof -
  obtain s a where s: "srv_inv s" "fd_of s a = Some 7" "due (timer_lst s) a = Some 15" by (rule demo_client)
  from alarm_closes_idle [OF s(1)] obtain s' where
    "timer_handler s = Some (Inr s')" "due (timer_lst s') = count_down (due (timer_lst s))" "alarm_set s' = TIMESLOT" by blast
  moreover from this s(3) have "due (timer_lst s') a = Some 14" "alarm_set s' = 5" by (simp_all add: count_down_def TIMESLOT_def)
  ultimately show ?thesis using s(2) by blast
qed

theorem activity_restarts_timer_witness:
  "\<exists>s a s'. fd_of s a = Some 7 \<and> adjust_timer s 0 a = Inr s' \<and> user_timer s' 7 = Inr (Some a)"
proof -
  obtain s a where s: "srv_inv s" "fd_of s a = Some 7" by (rule demo_client)
  from activity_restarts_timer [OF this, of 0] s(2) show ?thesis by blast
qed

theorem silent_client_closed_witness:
  "\<exists>s s1 s2 s3. new_client s 0 7 1 = Inr s1 \<and> alarms 15 s1 = Some (Inr s2) \<and> fd_open (kernel s2) 7
    \<and> timer_handler s2 = Some (Inr s3) \<and> \<not> fd_open (kernel s3) 7"
proof -
  obtain s where s: "srv_inv s" "fresh_fd s 7" "fd_open (kernel s) 7" "conf_ok s" by (rule demo_accepted)
  from silent_client_closed [OF s, of 0 1] show ?thesis by blast
qed

theorem worker_close_counted_twice_witness:
  "\<exists>s a k c s2. fd_of s a = Some 7 \<and> close_conn (kernel s) (conns s 7) True = (k, c)
    \<and> deal_timer (s\<lparr>kernel := k, conns := (conns s)(7 := c)\<rparr>) (Some a) 7 = Inr s2
    \<and> m_user_count (kernel s2) = m_user_count (kernel s) - 2"
proof -
  obtain s a where s: "srv_inv s" "fd_of s a = Some 7" by (rule demo_client)
  obtain k c where k: "close_conn (kernel s) (conns s 7) True = (k, c)" by force
  from worker_close_counted_twice [OF s _ k] s(2) k show ?thesis by fastforce
qed

end
