(* ===== verification/Log_File.thy ===== *)
theory Log_File
  imports CString "HOL-Library.Signed_Division"
begin

text \<open>
  \<open>Log\<close> (\<open>log/log.cpp\<close>): log lines, the files they go to, and the two buffers between the
  threads that log and the one that writes.

  A \<open>FILE *\<close> is a \<open>handle\<close>: null, open for the file of a name, or closed. \<open>disk\<close> is the list of
  what \<open>fputs\<close> was given, each piece with the file it went to; when the C library and the kernel
  write it out is not modelled, so \<open>fflush\<close> has no effect. \<open>can\<close> says which names \<open>fopen\<close> can
  open. A message is its text behind the conversions of its format, which yield no NUL. The
  time is an argument, as \<open>localtime\<close> and \<open>gettimeofday\<close> return it. \<open>m_buf\<close> carries nothing from one
  call to the next, so only its size is kept.
\<close>

record tm =
  tm_year :: int
  tm_mon :: int
  tm_mday :: int
  tm_hour :: int
  tm_min :: int
  tm_sec :: int
  tv_usec :: int

datatype handle = No_File | Open_File string | Closed_File string

text \<open>The thread of \<open>async_write_log\<close>: not started, before or in \<open>wait_for\<close>, or at an index of its buffer.\<close>

datatype log_writer = Not_Started | Waiting | Writing nat

record log_file =
  dir_name :: chars
  log_name :: chars
  m_split_lines :: int
  m_log_buf_size :: int
  m_count :: int
  m_today :: int
  m_fp :: handle
  m_is_async :: bool
  lg_close_log :: int
  m_input_buffer :: "string list"
  m_output_buffer :: "string list"
  log_writer :: log_writer
  disk :: "(string \<times> string) list"

text \<open>The instance is static, so what the constructor leaves alone is zero.\<close>

definition new_log :: log_file where
  "new_log = \<lparr>dir_name = blank, log_name = blank, m_split_lines = 0, m_log_buf_size = 0, m_count = 0, m_today = 0,
     m_fp = No_File, m_is_async = False, lg_close_log = 0, m_input_buffer = [], m_output_buffer = [],
     log_writer = Not_Started, disk = []\<rparr>"

section \<open>Formatting\<close>

text \<open>\<open>%0wd\<close>, and the cut that \<open>snprintf\<close> makes for an array of \<open>n\<close> bytes.\<close>

definition show_pad :: "nat \<Rightarrow> int \<Rightarrow> string" where
  "show_pad w i =
     (if i < 0 then CHR ''-'' # replicate (w - 1 - length (show_nat (nat (- i)))) (CHR ''0'') @ show_nat (nat (- i))
      else replicate (w - length (show_nat (nat i))) (CHR ''0'') @ show_nat (nat i))"

definition snprintf_cut :: "nat \<Rightarrow> string \<Rightarrow> string" where
  "snprintf_cut n s = take (n - 1) s"

definition date_tail :: "tm \<Rightarrow> string" where
  "date_tail t = show_int (tm_year t + 1900) @ ''_'' @ show_pad 2 (tm_mon t + 1) @ ''_'' @ show_pad 2 (tm_mday t) @ ''_''"

definition level_tag :: "int \<Rightarrow> string" where
  "level_tag level =
     (if level = 0 then ''[debug]:'' else if level = 1 then ''[info]:'' else if level = 2 then ''[warn]:''
      else if level = 3 then ''[erro]:'' else ''[info]:'')"

definition line_head :: "tm \<Rightarrow> int \<Rightarrow> string" where
  "line_head t level =
     show_int (tm_year t + 1900) @ ''-'' @ show_pad 2 (tm_mon t + 1) @ ''-'' @ show_pad 2 (tm_mday t) @ [SPC]
     @ show_pad 2 (tm_hour t) @ '':'' @ show_pad 2 (tm_min t) @ '':'' @ show_pad 2 (tm_sec t) @ ''.''
     @ show_pad 6 (tv_usec t) @ [SPC] @ level_tag level @ [SPC]"

text \<open>
  The line in \<open>m_buf\<close>. \<open>vsnprintf\<close> may write \<open>m_log_buf_size - 1\<close> bytes from index \<open>n\<close> on, and both
  functions return the length they would have liked, so the two last assignments go to index
  \<open>n + m\<close> and the next one: that is the highest index written.
\<close>

definition format_line :: "int \<Rightarrow> tm \<Rightarrow> int \<Rightarrow> string \<Rightarrow> string res" where
  "format_line buf_size t level body =
     (let n = length (line_head t level); m = length body in
      if int n + int m + 1 \<ge> buf_size then Inl Out_Of_Bounds
      else Inr (if n < 48 then line_head t level @ body @ [LF] else snprintf_cut 48 (line_head t level)))"

section \<open>Files\<close>

definition open_log :: "(string \<Rightarrow> bool) \<Rightarrow> log_file \<Rightarrow> string \<Rightarrow> log_file" where
  "open_log can l f = l\<lparr>m_fp := (if can f then Open_File f else No_File)\<rparr>"

definition close_log_file :: "log_file \<Rightarrow> log_file res" where
  "close_log_file l = (case m_fp l of
     No_File \<Rightarrow> Inl Null_Deref | Closed_File f \<Rightarrow> Inl Use_After_Free | Open_File f \<Rightarrow> Inr (l\<lparr>m_fp := Closed_File f\<rparr>))"

definition fputs_log :: "log_file \<Rightarrow> string \<Rightarrow> log_file res" where
  "fputs_log l s = (case m_fp l of
     No_File \<Rightarrow> Inl Null_Deref | Closed_File f \<Rightarrow> Inl Use_After_Free | Open_File f \<Rightarrow> Inr (l\<lparr>disk := disk l @ [(f, s)]\<rparr>))"

text \<open>\<open>Log::init\<close>; a name with a slash is split there into \<open>dir_name\<close> and \<open>log_name\<close>.\<close>

definition log_init ::
    "(string \<Rightarrow> bool) \<Rightarrow> log_file \<Rightarrow> tm \<Rightarrow> string \<Rightarrow> int \<Rightarrow> int \<Rightarrow> int \<Rightarrow> int \<Rightarrow> (log_file \<times> bool) res" where
  "log_init can l t file_name close_log log_buf_size split_lines max_queue_size =
     (let l1 = (if max_queue_size \<ge> 1 then l\<lparr>m_is_async := True, log_writer := Waiting\<rparr> else l);
          l2 = l1\<lparr>lg_close_log := close_log, m_log_buf_size := log_buf_size, m_split_lines := split_lines\<rparr>
      in rbind (case last_index (CHR ''/'') file_name of
           None \<Rightarrow> Inr (l2, snprintf_cut 511 (date_tail t @ file_name))
         | Some p \<Rightarrow>
             rbind (strcpy 128 (log_name l2) 0 (drop (p + 1) file_name)) (\<lambda>ln.
             rbind (strncpy 128 (dir_name l2) 0 file_name (int p + 1)) (\<lambda>dn.
             rbind (c_str 128 dn 0) (\<lambda>dir.
             rbind (c_str 128 ln 0) (\<lambda>name.
             Inr (l2\<lparr>log_name := ln, dir_name := dn\<rparr>, snprintf_cut 511 (dir @ date_tail t @ name))))))) (\<lambda>(l3, full).
         let l4 = open_log can (l3\<lparr>m_today := tm_mday t\<rparr>) full
         in Inr (l4, m_fp l4 \<noteq> No_File)))"

section \<open>Writing a line\<close>

text \<open>
  The first locked section of \<open>write_log\<close>: the count, and when the day has changed or the file
  is full, closing the file; the name of the next one if it has to be opened.
\<close>

definition begin_line :: "log_file \<Rightarrow> tm \<Rightarrow> (log_file \<times> string option) res" where
  "begin_line l t =
     (let l1 = l\<lparr>m_count := m_count l + 1\<rparr> in
      if m_today l = tm_mday t \<and> m_split_lines l = 0 then Inl Div_By_Zero
      else if m_today l \<noteq> tm_mday t \<or> m_count l1 smod m_split_lines l = 0
      then rbind (close_log_file l1) (\<lambda>l2.
           rbind (c_str 128 (dir_name l) 0) (\<lambda>dir.
           rbind (c_str 128 (log_name l) 0) (\<lambda>name.
           let stem = dir @ snprintf_cut 16 (date_tail t) @ name in
           if m_today l \<noteq> tm_mday t
           then Inr (l2\<lparr>m_today := tm_mday t, m_count := 0\<rparr>, Some (snprintf_cut 511 stem))
           else Inr (l2, Some (snprintf_cut 511 (stem @ ''.'' @ show_int (m_count l1 sdiv m_split_lines l)))))))
      else Inr (l1, None))"

text \<open>The second locked section: the text, and the line into the buffer or the file.\<close>

definition put_line :: "log_file \<Rightarrow> tm \<Rightarrow> int \<Rightarrow> string \<Rightarrow> log_file res" where
  "put_line l t level body =
     rbind (format_line (m_log_buf_size l) t level body) (\<lambda>log_str.
     if m_is_async l then Inr (l\<lparr>m_input_buffer := m_input_buffer l @ [log_str]\<rparr>)
     else fputs_log l log_str)"

definition write_log :: "(string \<Rightarrow> bool) \<Rightarrow> log_file \<Rightarrow> tm \<Rightarrow> int \<Rightarrow> string \<Rightarrow> log_file res" where
  "write_log can l t level body =
     rbind (begin_line l t) (\<lambda>(l1, new).
     put_line (case new of None \<Rightarrow> l1 | Some f \<Rightarrow> open_log can l1 f) t level body)"

text \<open>\<open>flush\<close>, and the macros \<open>LOG_DEBUG\<close> to \<open>LOG_ERROR\<close>, which test the caller's \<open>m_close_log\<close>.\<close>

definition log_flush :: "log_file \<Rightarrow> log_file res" where
  "log_flush l = (case m_fp l of Closed_File f \<Rightarrow> Inl Use_After_Free | _ \<Rightarrow> Inr l)"

definition log_message :: "(string \<Rightarrow> bool) \<Rightarrow> int \<Rightarrow> log_file \<Rightarrow> tm \<Rightarrow> int \<Rightarrow> string \<Rightarrow> log_file res" where
  "log_message can close l t level body =
     (if 0 = close then rbind (write_log can l t level body) log_flush else Inr l)"

section \<open>The thread that writes\<close>

text \<open>Under the lock: the buffers change places, unless the input buffer is still empty.\<close>

definition swap_buffers :: "log_file \<Rightarrow> log_file option" where
  "swap_buffers l =
     (if log_writer l = Waiting \<and> m_input_buffer l \<noteq> []
      then Some (l\<lparr>m_output_buffer := m_input_buffer l, m_input_buffer := m_output_buffer l, log_writer := Writing 0\<rparr>)
      else None)"

text \<open>Without the lock: one line, or behind the last one the emptying and the \<open>fflush\<close>.\<close>

definition write_step :: "log_file \<Rightarrow> nat \<Rightarrow> log_file res" where
  "write_step l i =
     (if i < length (m_output_buffer l)
      then rbind (fputs_log l (m_output_buffer l ! i)) (\<lambda>l1. Inr (l1\<lparr>log_writer := Writing (i + 1)\<rparr>))
      else log_flush (l\<lparr>m_output_buffer := [], log_writer := Waiting\<rparr>))"

text \<open>
  The threads together. \<open>logged can l0 ms l r\<close>: from \<open>l0\<close> the state \<open>l\<close> can be reached, \<open>ms\<close> are the
  lines that were put in on the way, in order, and \<open>r\<close> is the file that a thread inside the first
  locked section is about to open: it holds the lock, so only the writing thread, which needs
  none, can come between.
\<close>

inductive logged :: "(string \<Rightarrow> bool) \<Rightarrow> log_file \<Rightarrow> string list \<Rightarrow> log_file \<Rightarrow> string option \<Rightarrow> bool"
  for can :: "string \<Rightarrow> bool" and l0 :: log_file where
  start: "logged can l0 [] l0 None"
| begin_line: "logged can l0 ms l None \<Longrightarrow> begin_line l t = Inr (l1, new) \<Longrightarrow> logged can l0 ms l1 new"
| reopen: "logged can l0 ms l (Some f) \<Longrightarrow> logged can l0 ms (open_log can l f) None"
| line: "logged can l0 ms l None \<Longrightarrow> format_line (m_log_buf_size l) t level body = Inr s \<Longrightarrow>
    put_line l t level body = Inr l1 \<Longrightarrow> logged can l0 (ms @ [s]) l1 None"
| swap: "logged can l0 ms l None \<Longrightarrow> swap_buffers l = Some l1 \<Longrightarrow> logged can l0 ms l1 None"
| write_one: "logged can l0 ms l r \<Longrightarrow> log_writer l = Writing i \<Longrightarrow> write_step l i = Inr l1 \<Longrightarrow> logged can l0 ms l1 r"

section \<open>Nothing is lost between the buffers\<close>

definition unwritten :: "log_file \<Rightarrow> string list" where
  "unwritten l = (case log_writer l of Writing i \<Rightarrow> drop i (m_output_buffer l) | _ \<Rightarrow> [])"

text \<open>
  The lines put in are those in the files, then those still to be written, then those in the
  input buffer; the output buffer is empty whenever the buffers can change places.
\<close>

definition log_inv :: "string list \<Rightarrow> log_file \<Rightarrow> bool" where
  "log_inv ms l \<longleftrightarrow> m_is_async l \<and> map snd (disk l) @ unwritten l @ m_input_buffer l = ms
     \<and> (case log_writer l of Not_Started \<Rightarrow> False | Waiting \<Rightarrow> m_output_buffer l = [] | Writing i \<Rightarrow> i \<le> length (m_output_buffer l))"

lemma begin_line_frame:
  assumes "begin_line l t = Inr (l1, new)"
  shows "m_is_async l1 = m_is_async l" "disk l1 = disk l" "m_input_buffer l1 = m_input_buffer l"
    "m_output_buffer l1 = m_output_buffer l" "log_writer l1 = log_writer l"
    "m_log_buf_size l1 = m_log_buf_size l"
  using assms
  by (auto simp: begin_line_def close_log_file_def Let_def elim!: rbindE split: if_splits handle.splits)

lemma log_inv_begin: "log_inv ms l \<Longrightarrow> begin_line l t = Inr (l1, new) \<Longrightarrow> log_inv ms l1"
  using begin_line_frame [of l t l1 new] by (auto simp: log_inv_def unwritten_def split: log_writer.splits)

lemma log_inv_open: "log_inv ms l \<Longrightarrow> log_inv ms (open_log can l f)"
  by (auto simp: log_inv_def unwritten_def open_log_def split: log_writer.splits)

lemma log_inv_put:
  "log_inv ms l \<Longrightarrow> format_line (m_log_buf_size l) t level body = Inr s \<Longrightarrow> put_line l t level body = Inr l1
    \<Longrightarrow> log_inv (ms @ [s]) l1"
  by (auto simp: log_inv_def unwritten_def put_line_def split: log_writer.splits)

lemma log_inv_swap: "log_inv ms l \<Longrightarrow> swap_buffers l = Some l1 \<Longrightarrow> log_inv ms l1"
  by (auto simp: log_inv_def unwritten_def swap_buffers_def split: if_splits)

lemma log_inv_write:
  assumes "log_inv ms l" and "log_writer l = Writing i" and "write_step l i = Inr l1"
  shows "log_inv ms l1"
proof (cases "i < length (m_output_buffer l)")
  case True
  with assms show ?thesis
    by (auto simp: log_inv_def unwritten_def write_step_def fputs_log_def Cons_nth_drop_Suc [OF True, symmetric]
        split: handle.splits)
next
  case False
  with assms show ?thesis
    by (auto simp: log_inv_def unwritten_def write_step_def log_flush_def split: handle.splits)
qed

lemma logged_inv: "logged can l0 ms l r \<Longrightarrow> log_inv [] l0 \<Longrightarrow> log_inv ms l"
  by (induction rule: logged.induct)
    (blast intro: log_inv_begin log_inv_open log_inv_put log_inv_swap log_inv_write)+

text \<open>
  C15. Asynchronous logging, with any number of threads and in any order of the steps: the lines
  in the files, those the writing thread still has and those in the input buffer are together
  the lines put in, in that order, each once. When the thread waits and the input buffer is
  empty, all lines are in the files.
\<close>

theorem async_log_complete:
  assumes "m_is_async l0" and "log_writer l0 = Waiting" and "m_output_buffer l0 = []"
    and "m_input_buffer l0 = []" and "disk l0 = []" and "logged can l0 ms l r"
  shows "map snd (disk l) @ unwritten l @ m_input_buffer l = ms
    \<and> (log_writer l = Waiting \<and> m_input_buffer l = [] \<longrightarrow> map snd (disk l) = ms)"
proof -
  have "log_inv [] l0" using assms(1-5) by (simp add: log_inv_def unwritten_def)
  from logged_inv [OF assms(6) this] show ?thesis by (auto simp: log_inv_def unwritten_def)
qed

section \<open>The writing thread and a new file\<close>

text \<open>
  The writing thread holds no lock while it writes. When another thread changes the file
  between two of its lines, as it does with the first line of a new day, the writing thread can
  come to its next line, or to its \<open>fflush\<close>, while the old file is closed and the new one not
  yet open: it uses a closed \<open>FILE\<close>.
\<close>

theorem roll_races_writer:
  assumes "logged can l0 ms l None" and "log_writer l = Writing i"
    and "m_today l \<noteq> tm_mday t" and "begin_line l t = Inr (l1, new)"
  shows "logged can l0 ms l1 new \<and> log_writer l1 = Writing i \<and> write_step l1 i = Inl Use_After_Free"
proof -
  have fp: "\<exists>f. m_fp l1 = Closed_File f"
    using assms(3,4) by (auto simp: begin_line_def close_log_file_def Let_def elim!: rbindE split: handle.splits)
  have "log_writer l1 = Writing i" using begin_line_frame [OF assms(4)] assms(2) by simp
  moreover have "write_step l1 i = Inl Use_After_Free"
    using fp by (auto simp: write_step_def fputs_log_def log_flush_def)
  ultimately show ?thesis using logged.begin_line [OF assms(1,4)] by simp
qed

section \<open>Which file a line goes to\<close>

text \<open>The \<open>k\<close>-th file of a day: the first has the plain name.\<close>

definition file_for :: "string \<Rightarrow> string \<Rightarrow> string \<Rightarrow> string \<Rightarrow> int \<Rightarrow> string" where
  "file_for dir name dt base k =
     (if k = 0 then base else snprintf_cut 511 ((dir @ snprintf_cut 16 dt @ name) @ ''.'' @ show_int k))"

definition logging_to :: "string \<Rightarrow> string \<Rightarrow> string \<Rightarrow> string \<Rightarrow> int \<Rightarrow> log_file \<Rightarrow> bool" where
  "logging_to dir name dt base n l \<longleftrightarrow> \<not> m_is_async l \<and> m_split_lines l = n \<and> 0 \<le> m_count l
     \<and> c_str 128 (dir_name l) 0 = Inr dir \<and> c_str 128 (log_name l) 0 = Inr name
     \<and> m_fp l = Open_File (file_for dir name dt base (m_count l div n))"

lemma div_next: "0 < n \<Longrightarrow> (c + 1) mod n \<noteq> 0 \<Longrightarrow> (c + 1) div n = c div (n::int)"
proof -
  assume n: "0 < n" "(c + 1) mod n \<noteq> 0"
  let ?q = "(c + 1) div n" and ?r = "(c + 1) mod n"
  have c: "c = n * ?q + (?r - 1)" using mult_div_mod_eq [of n "c + 1"] by linarith
  have "0 \<le> ?r - 1" "?r - 1 < n" using n pos_mod_bound [of n "c + 1"] pos_mod_sign [of n "c + 1"] by linarith+
  then have "(n * ?q + (?r - 1)) div n = ?q" by simp
  with c show ?thesis by metis
qed

lemma smod_pos: "0 \<le> c \<Longrightarrow> 0 < n \<Longrightarrow> c smod n = c mod (n::int)"
  by (simp add: signed_modulo_int_def sgn_if)

lemma sdiv_pos: "0 \<le> c \<Longrightarrow> 0 < n \<Longrightarrow> c sdiv n = c div (n::int)"
  by (simp add: signed_divide_int_def sgn_if)

lemma write_log_same_day:
  assumes "logging_to dir name dt base n l" and "0 < n" and "\<And>f. can f"
    and "m_today l = tm_mday t" and "date_tail t = dt" and "format_line (m_log_buf_size l) t level body = Inr s"
  obtains l' where "write_log can l t level body = Inr l'" and "logging_to dir name dt base n l'"
    and "m_count l' = m_count l + 1" and "m_today l' = m_today l" and "m_log_buf_size l' = m_log_buf_size l"
    and "disk l' = disk l @ [(file_for dir name dt base ((m_count l + 1) div n), s)]"
proof (cases "(m_count l + 1) mod n = 0")
  case True
  have k: "(m_count l + 1) div n \<noteq> 0"
  proof
    assume "(m_count l + 1) div n = 0"
    with True have "m_count l + 1 = 0" using mult_div_mod_eq [of n "m_count l + 1"] by simp
    with assms(1) show False by (simp add: logging_to_def)
  qed
  have "\<exists>l'. write_log can l t level body = Inr l' \<and> logging_to dir name dt base n l'
    \<and> m_count l' = m_count l + 1 \<and> m_today l' = m_today l \<and> m_log_buf_size l' = m_log_buf_size l
    \<and> disk l' = disk l @ [(file_for dir name dt base ((m_count l + 1) div n), s)]"
    using assms True k
    by (simp add: write_log_def begin_line_def close_log_file_def put_line_def fputs_log_def open_log_def
        logging_to_def file_for_def smod_pos sdiv_pos Let_def)
  with that show ?thesis by blast
next
  case False
  from div_next [OF assms(2) False] have k: "(m_count l + 1) div n = m_count l div n" .
  have "\<exists>l'. write_log can l t level body = Inr l' \<and> logging_to dir name dt base n l'
    \<and> m_count l' = m_count l + 1 \<and> m_today l' = m_today l \<and> m_log_buf_size l' = m_log_buf_size l
    \<and> disk l' = disk l @ [(file_for dir name dt base ((m_count l + 1) div n), s)]"
    using assms False
    by (simp add: write_log_def begin_line_def put_line_def fputs_log_def logging_to_def k smod_pos Let_def)
  with that show ?thesis by blast
qed

text \<open>A thread that logs alone.\<close>

type_synonym log_call = "tm \<times> int \<times> string"

fun write_lines :: "(string \<Rightarrow> bool) \<Rightarrow> log_file \<Rightarrow> log_call list \<Rightarrow> log_file res" where
  "write_lines can l [] = Inr l"
| "write_lines can l ((t, level, body) # ms) =
     rbind (write_log can l t level body) (\<lambda>l1. write_lines can l1 ms)"

definition fits :: "int \<Rightarrow> log_call \<Rightarrow> bool" where
  "fits b = (\<lambda>(t, level, body). length (line_head t level) < 48
     \<and> int (length (line_head t level)) + int (length body) + 1 < b)"

fun line_text :: "log_call \<Rightarrow> string" where
  "line_text (t, level, body) = line_head t level @ body @ [LF]"

lemma format_fits: "fits b (t, level, body) \<Longrightarrow> format_line b t level body = Inr (line_text (t, level, body))"
  by (simp add: fits_def format_line_def Let_def)

lemma write_lines_files:
  assumes "0 < n" and "\<And>f. can f"
  shows "logging_to dir name dt base n l \<Longrightarrow>
    \<forall>(t, level, body) \<in> set ms. tm_mday t = m_today l \<and> date_tail t = dt \<and> fits (m_log_buf_size l) (t, level, body) \<Longrightarrow>
    \<exists>l'. write_lines can l ms = Inr l' \<and> disk l' = disk l @
      map (\<lambda>j. (file_for dir name dt base ((m_count l + 1 + int j) div n), line_text (ms ! j))) [0..<length ms]"
proof (induction ms arbitrary: l)
  case Nil
  show ?case by simp
next
  case (Cons m ms)
  obtain t level body where m: "m = (t, level, body)" by (cases m)
  have h: "m_today l = tm_mday t" "date_tail t = dt" "fits (m_log_buf_size l) (t, level, body)"
    using Cons.prems(2) by (simp_all add: m)
  obtain l1 where l1: "write_log can l t level body = Inr l1" "logging_to dir name dt base n l1"
      "m_count l1 = m_count l + 1" "m_today l1 = m_today l" "m_log_buf_size l1 = m_log_buf_size l"
      "disk l1 = disk l @ [(file_for dir name dt base ((m_count l + 1) div n), line_text m)]"
    by (rule write_log_same_day [OF Cons.prems(1) assms h(1,2) format_fits [OF h(3)]]) (simp add: m)
  have "\<forall>(t, level, body) \<in> set ms. tm_mday t = m_today l1 \<and> date_tail t = dt \<and> fits (m_log_buf_size l1) (t, level, body)"
    using Cons.prems(2) l1(4,5) by auto
  from Cons.IH [OF l1(2) this] obtain l' where l': "write_lines can l1 ms = Inr l'" "disk l' = disk l1 @
      map (\<lambda>j. (file_for dir name dt base ((m_count l1 + 1 + int j) div n), line_text (ms ! j))) [0..<length ms]"
    by blast
  then have "disk l' = disk l @
      map (\<lambda>j. (file_for dir name dt base ((m_count l + 1 + int j) div n), line_text ((m # ms) ! j))) [0..<length (m # ms)]"
    by (simp add: l1(3,6) upt_conv_Cons map_Suc_upt [symmetric] comp_def add.assoc del: upt_Suc)
  with l1(1) l'(1) show ?case by (auto simp: m)
qed

lemma c_str_put_blank: "NUL \<notin> set s \<Longrightarrow> int (length s) < n \<Longrightarrow> c_str n (put blank 0 s) 0 = Inr s"
  by (rule c_strI) (simp_all add: get_put_same put_outside blank_def)

lemma put_blank_NUL: "put blank i (s @ [NUL]) = put blank i s"
  by (auto simp: put_def blank_def fun_eq_iff nth_append)

lemma last_slash: "CHR ''/'' \<notin> set b \<Longrightarrow> last_index (CHR ''/'') (d @ CHR ''/'' # b) = Some (length d)"
  by (induction d) (auto simp: last_index_None split: option.splits)

lemma log_init_names:
  assumes "CHR ''/'' \<notin> set b" and "NUL \<notin> set d" "NUL \<notin> set b" and "length d < 127" and "length b < 128"
    and "can (snprintf_cut 511 (d @ ''/'' @ date_tail t @ b))"
  obtains l where "log_init can new_log t (d @ ''/'' @ b) cl bs n 0 = Inr (l, True)"
    and "logging_to (d @ ''/'') b (date_tail t) (snprintf_cut 511 (d @ ''/'' @ date_tail t @ b)) n l"
    and "m_count l = 0" and "m_today l = tm_mday t" and "m_log_buf_size l = bs" and "disk l = []"
proof -
  let ?f = "d @ ''/'' @ b" and ?full = "snprintf_cut 511 (d @ ''/'' @ date_tail t @ b)"
  have li: "last_index (CHR ''/'') ?f = Some (length d)" using last_slash [OF assms(1), of d] by simp
  have dn: "strncpy 128 blank 0 ?f (int (length d) + 1) = Inr (put blank 0 (d @ ''/''))"
    using assms(4) by (simp add: strncpy_def strncpy_bytes_def nat_add_distrib)
  have ln: "strcpy 128 blank 0 b = Inr (put blank 0 b)"
    using assms(5) by (simp add: strcpy_def put_blank_NUL)
  have c: "c_str 128 (put blank 0 (d @ ''/'')) 0 = Inr (d @ ''/'')" "c_str 128 (put blank 0 b) 0 = Inr b"
    using assms(2-5) by (simp_all add: c_str_put_blank)
  let ?l = "new_log\<lparr>lg_close_log := cl, m_log_buf_size := bs, m_split_lines := n,
    log_name := put blank 0 b, dir_name := put blank 0 (d @ ''/''), m_today := tm_mday t, m_fp := Open_File ?full\<rparr>"
  have i: "log_init can new_log t ?f cl bs n 0 = Inr (?l, True)"
    using assms(6) li dn ln c by (simp add: log_init_def new_log_def open_log_def Let_def)
  show ?thesis
    by (rule that [OF i]) (use c in \<open>simp_all add: logging_to_def new_log_def file_for_def\<close>)
qed

text \<open>
  Synchronous logging from the start on, within one day: the lines come out in order, line
  \<open>j\<close> (from 1) in the file with the day's name when \<open>j\<close> is below \<open>m_split_lines\<close>, and else in the
  one with the suffix \<open>j div m_split_lines\<close>.
\<close>

theorem lines_per_file:
  assumes name: "CHR ''/'' \<notin> set b" "NUL \<notin> set d" "NUL \<notin> set b" "length d < 127" "length b < 128"
    and "0 < n" and "\<And>f. can f"
    and day: "\<forall>(t, level, body) \<in> set ms. tm_mday t = tm_mday t0 \<and> date_tail t = date_tail t0 \<and> fits bs (t, level, body)"
  shows "\<exists>l l'. log_init can new_log t0 (d @ ''/'' @ b) cl bs n 0 = Inr (l, True)
    \<and> write_lines can l ms = Inr l'
    \<and> disk l' = map (\<lambda>j. (file_for (d @ ''/'') b (date_tail t0) (snprintf_cut 511 (d @ ''/'' @ date_tail t0 @ b))
          ((1 + int j) div n), line_text (ms ! j))) [0..<length ms]"
proof -
  obtain l where l: "log_init can new_log t0 (d @ ''/'' @ b) cl bs n 0 = Inr (l, True)"
      "logging_to (d @ ''/'') b (date_tail t0) (snprintf_cut 511 (d @ ''/'' @ date_tail t0 @ b)) n l"
      "m_count l = 0" "m_today l = tm_mday t0" "m_log_buf_size l = bs" "disk l = []"
    by (rule log_init_names [OF name assms(7)])
  have "\<forall>(t, level, body) \<in> set ms. tm_mday t = m_today l \<and> date_tail t = date_tail t0 \<and> fits (m_log_buf_size l) (t, level, body)"
    using day l(4,5) by simp
  from write_lines_files [OF assms(6,7) l(2) this] l show ?thesis by auto
qed

section \<open>Long lines\<close>

text \<open>A time as \<open>localtime\<close> returns it, in a year of four digits.\<close>

definition tm_ok :: "tm \<Rightarrow> bool" where
  "tm_ok t \<longleftrightarrow> - 900 \<le> tm_year t \<and> tm_year t < 8100 \<and> 0 \<le> tm_mon t \<and> tm_mon t < 12 \<and> 1 \<le> tm_mday t \<and> tm_mday t \<le> 31
     \<and> 0 \<le> tm_hour t \<and> tm_hour t < 24 \<and> 0 \<le> tm_min t \<and> tm_min t < 60 \<and> 0 \<le> tm_sec t \<and> tm_sec t \<le> 60
     \<and> 0 \<le> tv_usec t \<and> tv_usec t < 1000000"

lemma length_show_pad: "0 \<le> i \<Longrightarrow> i < 10 ^ w \<Longrightarrow> 0 < w \<Longrightarrow> length (show_pad w i) = w"
proof -
  assume "0 \<le> i" "i < 10 ^ w" "0 < w"
  then have "nat i < 10 ^ w" by (simp add: nat_less_iff)
  from length_show_nat [OF this \<open>0 < w\<close>] \<open>0 \<le> i\<close> show ?thesis by (simp add: show_pad_def)
qed

lemma length_show_nat4: "1000 \<le> n \<Longrightarrow> n < 10000 \<Longrightarrow> length (show_nat n) = 4"
proof -
  assume n: "1000 \<le> n" "n < 10000"
  have "\<not> n < 10" "\<not> n div 10 < 10" "\<not> n div 10 div 10 < 10" "n div 10 div 10 div 10 < 10"
    using n by linarith+
  then show ?thesis
    by (simp add: show_nat.simps [of n] show_nat.simps [of "n div 10"] show_nat.simps [of "n div 10 div 10"]
        show_nat.simps [of "n div 10 div 10 div 10"])
qed

lemma length_line_head: "tm_ok t \<Longrightarrow> length (line_head t level) = 28 + length (level_tag level)"
  by (simp add: tm_ok_def line_head_def length_show_pad show_int_def length_show_nat4 nat_le_iff nat_less_iff le_nat_iff)

text \<open>
  C31. With the buffer of 2000 bytes that the server asks for, a message of at most 1963 bytes, or
  1962 at level debug, is logged whole, asynchronously into the input buffer, synchronously into
  the open file; a longer one is written past the end of \<open>m_buf\<close>, in either mode. The lines of a
  request are logged as they come, and \<open>m_read_buf\<close> has room for longer ones.
\<close>

theorem long_message_overflows:
  assumes "tm_ok t" and "m_log_buf_size l = 2000" and "m_is_async l \<or> m_fp l = Open_File f"
  shows "put_line l t level body =
    (let line = line_head t level @ body @ [LF] in
     if length body > (if level = 0 then 1962 else 1963) then Inl Out_Of_Bounds
     else if m_is_async l then Inr (l\<lparr>m_input_buffer := m_input_buffer l @ [line]\<rparr>)
     else Inr (l\<lparr>disk := disk l @ [(f, line)]\<rparr>))"
  using length_line_head [OF assms(1), of level] assms(2,3)
  by (auto simp: put_line_def format_line_def fputs_log_def level_tag_def Let_def)

section \<open>Concrete logs\<close>

definition demo_tm :: "int \<Rightarrow> tm" where
  "demo_tm day = \<lparr>tm_year = 124, tm_mon = 0, tm_mday = day, tm_hour = 3, tm_min = 4, tm_sec = 5, tv_usec = 6\<rparr>"

lemma demo_tm_ok: "1 \<le> day \<Longrightarrow> day \<le> 31 \<Longrightarrow> tm_ok (demo_tm day)"
  by (simp add: tm_ok_def demo_tm_def)

definition demo_log :: log_file where
  "demo_log = new_log\<lparr>m_is_async := True, log_writer := Waiting, m_log_buf_size := 2000, m_split_lines := 800000,
     m_today := 1, m_fp := Open_File ''log''\<rparr>"

lemma demo_put: "put_line (demo_log\<lparr>m_input_buffer := xs\<rparr>) (demo_tm 1) 1 ''hello'' =
    Inr (demo_log\<lparr>m_input_buffer := xs @ [line_text (demo_tm 1, 1, ''hello'')]\<rparr>)"
  using length_line_head [OF demo_tm_ok, of 1 1]
  by (simp add: put_line_def format_line_def level_tag_def Let_def demo_log_def)

lemma demo_writing:
  fixes s :: string
  defines "s \<equiv> line_text (demo_tm 1, 1, ''hello'')"
  shows "logged (\<lambda>_. True) demo_log [s] (demo_log\<lparr>m_output_buffer := [s], log_writer := Writing 0\<rparr>) None"
proof -
  have f: "format_line (m_log_buf_size demo_log) (demo_tm 1) 1 ''hello'' = Inr s"
    using length_line_head [OF demo_tm_ok, of 1 1]
    by (simp add: format_line_def level_tag_def demo_log_def Let_def s_def)
  have p: "put_line demo_log (demo_tm 1) 1 ''hello'' = Inr (demo_log\<lparr>m_input_buffer := [s]\<rparr>)"
    using demo_put [of "[]"] by (simp add: s_def demo_log_def new_log_def)
  have "swap_buffers (demo_log\<lparr>m_input_buffer := [s]\<rparr>) = Some (demo_log\<lparr>m_output_buffer := [s], log_writer := Writing 0\<rparr>)"
    by (simp add: swap_buffers_def demo_log_def new_log_def)
  from logged.swap [OF _ this] logged.line [OF logged.start f p] show ?thesis by simp
qed

theorem async_log_complete_witness:
  "\<exists>l s. logged (\<lambda>_. True) demo_log [s] l None \<and> disk l = [(''log'', s)]
    \<and> map snd (disk l) @ unwritten l @ m_input_buffer l = [s]"
proof -
  let ?s = "line_text (demo_tm 1, 1, ''hello'')"
  let ?l = "demo_log\<lparr>m_output_buffer := [?s], log_writer := Writing 1, disk := [(''log'', ?s)]\<rparr>"
  have "write_step (demo_log\<lparr>m_output_buffer := [?s], log_writer := Writing 0\<rparr>) 0 = Inr ?l"
    by (simp add: write_step_def fputs_log_def demo_log_def new_log_def)
  from logged.write_one [OF demo_writing _ this] have l: "logged (\<lambda>_. True) demo_log [?s] ?l None" by simp
  have "map snd (disk ?l) @ unwritten ?l @ m_input_buffer ?l = [?s]"
    using async_log_complete [OF _ _ _ _ _ l] by (simp add: demo_log_def new_log_def)
  with l show ?thesis by (intro exI [of _ ?l] exI [of _ ?s]) (simp del: line_text.simps)
qed

theorem roll_races_writer_witness:
  "\<exists>ms l new. logged (\<lambda>_. True) demo_log ms l new \<and> log_writer l = Writing 0 \<and> write_step l 0 = Inl Use_After_Free"
proof -
  let ?s = "line_text (demo_tm 1, 1, ''hello'')"
  let ?l = "demo_log\<lparr>m_output_buffer := [?s], log_writer := Writing 0\<rparr>"
  have c: "c_str 128 blank 0 = Inr []" by (rule c_strI) (simp_all add: blank_def)
  obtain l1 new where b: "begin_line ?l (demo_tm 2) = Inr (l1, new)"
    by (simp add: begin_line_def close_log_file_def demo_log_def new_log_def demo_tm_def c Let_def)
  have t: "log_writer ?l = Writing 0" "m_today ?l \<noteq> tm_mday (demo_tm 2)" by (simp_all add: demo_log_def demo_tm_def)
  from roll_races_writer [OF demo_writing t b] show ?thesis by blast
qed

lemma demo_digits: "digit_char 0 = CHR ''0''" "digit_char (Suc 0) = CHR ''1''" "digit_char 2 = CHR ''2''" "digit_char 4 = CHR ''4''"
  by (simp_all add: digit_char_def char_of_def bit_0)

theorem lines_per_file_witness:
  "\<exists>l l'. log_init (\<lambda>_. True) new_log (demo_tm 1) ''./ServerLog'' 0 2000 2 0 = Inr (l, True)
    \<and> write_lines (\<lambda>_. True) l (replicate 3 (demo_tm 1, 1, ''hello'')) = Inr l'
    \<and> map fst (disk l') = [''./2024_01_01_ServerLog'', ''./2024_01_01_ServerLog.1'', ''./2024_01_01_ServerLog.1'']"
proof -
  let ?ms = "replicate 3 (demo_tm 1, 1 :: int, ''hello'')"
  have f: "fits 2000 (demo_tm 1, 1, ''hello'')"
    using length_line_head [OF demo_tm_ok, of 1 1] by (simp add: fits_def level_tag_def)
  then have ms: "\<forall>(t, level, body) \<in> set ?ms. tm_mday t = tm_mday (demo_tm 1) \<and> date_tail t = date_tail (demo_tm 1)
      \<and> fits 2000 (t, level, body)" by simp
  have names: "snprintf_cut 511 (''.'' @ ''/'' @ date_tail (demo_tm 1) @ ''ServerLog'') = ''./2024_01_01_ServerLog''"
    "file_for (''.'' @ ''/'') ''ServerLog'' (date_tail (demo_tm 1)) x 1 = ''./2024_01_01_ServerLog.1''" for x
    by (simp_all add: snprintf_cut_def file_for_def date_tail_def demo_tm_def show_int_def show_pad_def show_nat.simps demo_digits)
  from lines_per_file [of "''ServerLog''" "''.''" 2 "\<lambda>_. True", OF _ _ _ _ _ _ _ ms, of 0]
  obtain l l' where l: "log_init (\<lambda>_. True) new_log (demo_tm 1) (''.'' @ ''/'' @ ''ServerLog'') 0 2000 2 0 = Inr (l, True)"
      "write_lines (\<lambda>_. True) l ?ms = Inr l'"
      "disk l' = map (\<lambda>j. (file_for (''.'' @ ''/'') ''ServerLog'' (date_tail (demo_tm 1))
          (snprintf_cut 511 (''.'' @ ''/'' @ date_tail (demo_tm 1) @ ''ServerLog'')) ((1 + int j) div 2), line_text (?ms ! j))) [0..<length ?ms]"
    by auto
  have "map fst (disk l') = [''./2024_01_01_ServerLog'', ''./2024_01_01_ServerLog.1'', ''./2024_01_01_ServerLog.1'']"
    unfolding l(3) using names by (simp add: upt_rec file_for_def)
  with l(1,2) show ?thesis by auto
qed

theorem long_message_overflows_witness:
  "put_line demo_log (demo_tm 1) 1 (replicate 1964 (CHR ''a'')) = Inl Out_Of_Bounds
   \<and> put_line (demo_log\<lparr>m_is_async := False\<rparr>) (demo_tm 1) 0 (replicate 1963 (CHR ''a'')) = Inl Out_Of_Bounds
   \<and> put_line (demo_log\<lparr>m_is_async := False\<rparr>) (demo_tm 1) 1 (replicate 1963 (CHR ''a'')) =
     Inr (demo_log\<lparr>m_is_async := False, disk := [(''log'', line_head (demo_tm 1) 1 @ replicate 1963 (CHR ''a'') @ [LF])]\<rparr>)"
  using long_message_overflows [OF demo_tm_ok, of 1 demo_log "''log''" 1 "replicate 1964 (CHR ''a'')"]
    long_message_overflows [OF demo_tm_ok, of 1 "demo_log\<lparr>m_is_async := False\<rparr>" "''log''" 0 "replicate 1963 (CHR ''a'')"]
    long_message_overflows [OF demo_tm_ok, of 1 "demo_log\<lparr>m_is_async := False\<rparr>" "''log''" 1 "replicate 1963 (CHR ''a'')"]
  by (simp add: demo_log_def new_log_def Let_def)

end
