(* ===== verification/Config_Args.thy ===== *)
theory Config_Args
  imports CString
begin

text \<open>
  \<open>Config\<close> (\<open>config.cpp\<close>): the options of the command line.

  \<open>getopt\<close> is glibc's: it goes through the arguments, reads each letter of an argument that
  begins with a dash, takes the rest of the argument or the next one as \<open>optarg\<close>, returns \<open>?\<close>
  for an unknown letter and for a missing argument, skips what is no option and ends at \<open>--\<close>.
  The host names and the password are arrays of 64 bytes inside an object on the stack, so a
  byte is \<open>None\<close> until it is written.
\<close>

type_synonym array64 = "char option list"

record config =
  PORT :: int
  LOGWrite :: int
  TRIGMode :: int
  LISTENTrigmode :: int
  CONNTrigmode :: int
  OPT_LINGER :: int
  sql_num :: int
  thread_num :: int
  close_log :: int
  actor_model :: int
  mysql_host :: array64
  redis_host :: array64
  redis_port :: int
  redis_password :: array64
  session_ttl :: int

definition untouched :: array64 where
  "untouched = replicate 64 None"

text \<open>\<open>strcpy\<close> and \<open>strncpy\<close> to the start of an array, and reading it as a string.\<close>

definition copy_str :: "array64 \<Rightarrow> string \<Rightarrow> array64" where
  "copy_str a s = map Some (s @ [NUL]) @ drop (length s + 1) a"

definition copy_strn :: "array64 \<Rightarrow> string \<Rightarrow> nat \<Rightarrow> array64" where
  "copy_strn a s n = map Some (strncpy_bytes s n) @ drop n a"

fun array_str :: "array64 \<Rightarrow> string res" where
  "array_str [] = Inl Out_Of_Bounds"
| "array_str (None # a) = Inl Uninitialised"
| "array_str (Some c # a) = (if c = NUL then Inr [] else rbind (array_str a) (\<lambda>s. Inr (c # s)))"

definition new_config :: config where
  "new_config = \<lparr>PORT = 9006, LOGWrite = 0, TRIGMode = 0, LISTENTrigmode = 0, CONNTrigmode = 0, OPT_LINGER = 0,
     sql_num = 8, thread_num = 8, close_log = 0, actor_model = 0,
     mysql_host = copy_str untouched ''127.0.0.1'', redis_host = copy_str untouched ''127.0.0.1'',
     redis_port = 6379, redis_password = copy_str untouched [], session_ttl = 3600\<rparr>"

section \<open>getopt\<close>

text \<open>The letters of \<open>p:l:m:o:s:t:c:a:H:R:r:w:T:\<close>; each takes an argument.\<close>

definition option_letters :: string where
  "option_letters = ''plmostcaHRrwT''"

text \<open>The pairs of letter and \<open>optarg\<close> that the calls return: the rest of an argument, then the others.\<close>

function getopt_all :: "string \<Rightarrow> string list \<Rightarrow> (char \<times> string) list" where
  "getopt_all [] [] = []"
| "getopt_all [] (a # args) =
     (if a = ''--'' then []
      else if length a > 1 \<and> hd a = CHR ''-'' then getopt_all (tl a) args
      else getopt_all [] args)"
| "getopt_all (c # cs) args =
     (if c \<notin> set option_letters then (CHR ''?'', []) # getopt_all cs args
      else if cs \<noteq> [] then (c, cs) # getopt_all [] args
      else (case args of
              [] \<Rightarrow> [(CHR ''?'', [])]
            | optarg # rest \<Rightarrow> (c, optarg) # getopt_all [] rest))"
  by pat_completeness auto
termination
  by (relation "measure (\<lambda>(cs, args). length cs + (\<Sum>a \<leftarrow> args. length a + 1))") auto

section \<open>The switch\<close>

definition parse_opt :: "config \<Rightarrow> char \<times> string \<Rightarrow> config" where
  "parse_opt g = (\<lambda>(opt, optarg).
     if opt = CHR ''p'' then g\<lparr>PORT := atoi optarg\<rparr>
     else if opt = CHR ''l'' then g\<lparr>LOGWrite := atoi optarg\<rparr>
     else if opt = CHR ''m'' then g\<lparr>TRIGMode := atoi optarg\<rparr>
     else if opt = CHR ''o'' then g\<lparr>OPT_LINGER := atoi optarg\<rparr>
     else if opt = CHR ''s'' then g\<lparr>sql_num := atoi optarg\<rparr>
     else if opt = CHR ''t'' then g\<lparr>thread_num := atoi optarg\<rparr>
     else if opt = CHR ''c'' then g\<lparr>close_log := atoi optarg\<rparr>
     else if opt = CHR ''a'' then g\<lparr>actor_model := atoi optarg\<rparr>
     else if opt = CHR ''H'' then g\<lparr>mysql_host := copy_strn (mysql_host g) optarg 63\<rparr>
     else if opt = CHR ''R'' then g\<lparr>redis_host := copy_strn (redis_host g) optarg 63\<rparr>
     else if opt = CHR ''r'' then g\<lparr>redis_port := atoi optarg\<rparr>
     else if opt = CHR ''w'' then g\<lparr>redis_password := copy_strn (redis_password g) optarg 63\<rparr>
     else if opt = CHR ''T'' then g\<lparr>session_ttl := atoi optarg\<rparr>
     else g)"

definition parse_arg :: "config \<Rightarrow> string list \<Rightarrow> config" where
  "parse_arg g argv = foldl parse_opt g (getopt_all [] (tl argv))"

section \<open>Printed options are read back\<close>

text \<open>An option and its argument as two arguments, or as one.\<close>

definition print_option :: "bool \<Rightarrow> char \<times> string \<Rightarrow> string list" where
  "print_option joined = (\<lambda>(c, a). if joined \<and> a \<noteq> [] then [CHR ''-'' # c # a] else [[CHR ''-'', c], a])"

lemma getopt_print:
  assumes "c \<in> set option_letters"
  shows "getopt_all [] (print_option joined (c, a) @ args) = (c, a) # getopt_all [] args"
  using assms by (auto simp: print_option_def option_letters_def)

lemma getopt_all_print:
  "\<forall>(j, c, a) \<in> set os. c \<in> set option_letters \<Longrightarrow>
    getopt_all [] (concat (map (\<lambda>(j, o1). print_option j o1) os)) = map snd os"
  by (induction os) (auto simp: getopt_print)

text \<open>The fields with a number, by their letter.\<close>

definition number_field :: "char \<Rightarrow> config \<Rightarrow> int" where
  "number_field c g =
     (if c = CHR ''p'' then PORT g else if c = CHR ''l'' then LOGWrite g else if c = CHR ''m'' then TRIGMode g
      else if c = CHR ''o'' then OPT_LINGER g else if c = CHR ''s'' then sql_num g else if c = CHR ''t'' then thread_num g
      else if c = CHR ''c'' then close_log g else if c = CHR ''a'' then actor_model g
      else if c = CHR ''r'' then redis_port g else session_ttl g)"

definition number_letters :: string where
  "number_letters = ''plmostcarT''"

lemma number_field_parse:
  assumes "c \<in> set number_letters"
  shows "number_field c (parse_opt g (d, a)) = (if d = c then atoi a else number_field c g)"
  using assms by (auto simp: number_letters_def number_field_def parse_opt_def)

lemma number_field_foldl:
  "c \<in> set number_letters \<Longrightarrow>
    number_field c (foldl parse_opt g os) = (case map_of (rev os) c of Some a \<Rightarrow> atoi a | None \<Rightarrow> number_field c g)"
  by (induction os arbitrary: g) (auto simp: number_field_parse map_add_def split: option.splits)

lemma map_of_printed:
  "map_of (map (\<lambda>x. (fst (snd x), f (snd (snd x)))) xs) c = map_option f (map_of (map snd xs) c)"
  by (induction xs) auto

text \<open>
  C27. Options with numbers, each given as \<open>-x n\<close> or \<open>-xn\<close>, are read back: every number is the one
  of its last option, or stays what it was without one.
\<close>

theorem options_read_back:
  assumes "\<forall>(j, c, i) \<in> set os. c \<in> set number_letters \<and> INT_MIN \<le> i \<and> i \<le> INT_MAX" and "c \<in> set number_letters"
  shows "number_field c (parse_arg g (prog # concat (map (\<lambda>(j, c, i). print_option j (c, show_int i)) os))) =
    (case map_of (rev (map snd os)) c of Some i \<Rightarrow> i | None \<Rightarrow> number_field c g)"
proof -
  let ?os = "map (\<lambda>(j, c, i). (j, c, show_int i)) os"
  have "\<forall>(j, c, a) \<in> set ?os. c \<in> set option_letters"
    using assms(1) by (auto simp: number_letters_def option_letters_def)
  from getopt_all_print [OF this]
  moreover have "(\<lambda>(j, c, i). print_option j (c, show_int i)) = (\<lambda>x. print_option (fst x) (fst (snd x), show_int (snd (snd x))))"
    by (simp add: fun_eq_iff)
  ultimately have "getopt_all [] (concat (map (\<lambda>(j, c, i). print_option j (c, show_int i)) os)) = map snd ?os"
    by (simp add: comp_def case_prod_beta)
  then have "number_field c (parse_arg g (prog # concat (map (\<lambda>(j, c, i). print_option j (c, show_int i)) os))) =
      (case map_of (rev (map snd ?os)) c of Some a \<Rightarrow> atoi a | None \<Rightarrow> number_field c g)"
    by (simp add: parse_arg_def number_field_foldl [OF assms(2)])
  also have "map_of (rev (map snd ?os)) c = map_option show_int (map_of (rev (map snd os)) c)"
    using map_of_printed [of show_int "rev os" c] by (simp add: comp_def case_prod_beta rev_map)
  also have "(case map_option show_int (map_of (rev (map snd os)) c) of Some a \<Rightarrow> atoi a | None \<Rightarrow> number_field c g) =
      (case map_of (rev (map snd os)) c of Some i \<Rightarrow> i | None \<Rightarrow> number_field c g)"
  proof (cases "map_of (rev (map snd os)) c")
    case (Some i)
    from map_of_SomeD [OF this] obtain j where "(j, c, i) \<in> set os" by auto
    with assms(1) have "INT_MIN \<le> i" "i \<le> INT_MAX" by blast+
    then have "atoi (show_int i) = i" by (rule atoi_show_int)
    with Some show ?thesis by simp
  qed simp
  finally show ?thesis .
qed

section \<open>Long host names\<close>

lemma array_str_copied: "NUL \<notin> set s \<Longrightarrow> array_str (map Some s @ a) = rbind (array_str a) (\<lambda>t. Inr (s @ t))"
proof (induction s)
  case Nil
  show ?case by (cases "array_str a") simp_all
next
  case (Cons c s)
  then show ?case by (cases "array_str a") auto
qed

text \<open>
  The host name of \<open>-H\<close> is read back when it has at most 62 bytes. A longer one is cut to 63
  bytes without a NUL, and the 64th byte of the array, which nothing writes, is read behind them.
\<close>

theorem long_host_unterminated:
  assumes "NUL \<notin> set h"
  shows "array_str (mysql_host (parse_arg new_config [prog, ''-H'', h])) =
    (if length h \<le> 62 then Inr h else Inl Uninitialised)"
proof -
  have g: "mysql_host (parse_arg new_config [prog, ''-H'', h]) = map Some (strncpy_bytes h 63) @ [None]"
    by (simp add: parse_arg_def option_letters_def parse_opt_def copy_strn_def new_config_def copy_str_def untouched_def)
  show ?thesis
  proof (cases "length h \<le> 62")
    case True
    then have "strncpy_bytes h 63 = h @ NUL # replicate (62 - length h) NUL"
      by (simp add: strncpy_bytes_def Suc_diff_le flip: replicate_Suc)
    then show ?thesis using True array_str_copied [OF assms, of "map Some (NUL # replicate (62 - length h) NUL) @ [None]"]
      by (simp add: g)
  next
    case False
    then have "strncpy_bytes h 63 = take 63 h" by (simp add: strncpy_bytes_def)
    moreover have "NUL \<notin> set (take 63 h)" using assms by (meson in_set_takeD)
    ultimately show ?thesis using False array_str_copied [of "take 63 h" "[None]"] by (simp add: g)
  qed
qed

text \<open>\<open>server -p 8080 -t4 -p 80\<close>, and a name of 63 letters.\<close>

theorem options_read_back_witness:
  "PORT (parse_arg new_config (''server'' # concat (map (\<lambda>(j, c, i). print_option j (c, show_int i))
     [(False, CHR ''p'', 8080), (True, CHR ''t'', 4), (False, CHR ''p'', 80)]))) = 80"
proof -
  have o: "\<forall>(j, c, i) \<in> set [(False, CHR ''p'', 8080), (True, CHR ''t'', 4), (False, CHR ''p'', 80)].
      c \<in> set number_letters \<and> INT_MIN \<le> i \<and> i \<le> INT_MAX"
    by (simp add: number_letters_def INT_MIN_def INT_MAX_def)
  have p: "CHR ''p'' \<in> set number_letters" by (simp add: number_letters_def)
  have "number_field (CHR ''p'') g = PORT g" for g by (simp add: number_field_def)
  with options_read_back [OF o p, of new_config "''server''"] show ?thesis by simp
qed

theorem long_host_unterminated_witness:
  "array_str (mysql_host (parse_arg new_config [''server'', ''-H'', replicate 63 (CHR ''a'')])) = Inl Uninitialised"
  using long_host_unterminated [of "replicate 63 (CHR ''a'')" "''server''"] by simp

end
