(* ===== verification/Server_Start.thy ===== *)
theory Server_Start
  imports Http_Process Server_Loop Log_File Config_Args
begin



text \<open>A start succeeds, reaches undefined behaviour, or ends: an \<open>exit\<close>, an exception, an assertion.\<close>

datatype 'a start = Started 'a | Undefined ub | Ended

definition sbind :: "'a start \<Rightarrow> ('a \<Rightarrow> 'b start) \<Rightarrow> 'b start" where
  "sbind m f = (case m of Started x \<Rightarrow> f x | Undefined e \<Rightarrow> Undefined e | Ended \<Rightarrow> Ended)"

lemma sbind_simps [simp]:
  "sbind (Started x) f = f x" "sbind (Undefined e) f = Undefined e" "sbind Ended f = Ended"
  by (simp_all add: sbind_def)

definition of_res :: "'a res \<Rightarrow> 'a start" where
  "of_res m = (case m of Inl e \<Rightarrow> Undefined e | Inr x \<Rightarrow> Started x)"

lemma of_res_simps [simp]: "of_res (Inl e) = Undefined e" "of_res (Inr x) = Started x"
  by (simp_all add: of_res_def)

definition of_option :: "'a option \<Rightarrow> 'a start" where
  "of_option m = (case m of None \<Rightarrow> Ended | Some x \<Rightarrow> Started x)"

lemma of_option_simps [simp]: "of_option None = Ended" "of_option (Some x) = Started x"
  by (simp_all add: of_option_def)

section \<open>The parts of the server\<close>




section \<open>main\<close>


section \<open>A start that succeeds\<close>









text \<open>
  With any other trigger mode the start reaches \<open>eventListen\<close>, which reads the mode of the
  listening socket that nothing has set.
\<close>

theorem unknown_trigger_mode:
  assumes "ws_TRIGMode s \<notin> {0, 1, 2, 3}" and "ws_LISTENTrigmode s = None"
    and "0 \<le> sock" and "0 \<le> b" and "0 \<le> l" and "ep \<noteq> - 1"
  shows "eventListen (trig_mode s) sock b l ep pipefd = Some (Inl Uninitialised)"
  using assms by (auto simp: trig_mode_def eventListen_def)

theorem unknown_trigger_mode_witness:
  "eventListen (trig_mode (demo_server\<lparr>ws_TRIGMode := 4, ws_LISTENTrigmode := None\<rparr>)) 3 0 0 4 (Some (5, 6)) = Some (Inl Uninitialised)"
  by (rule unknown_trigger_mode) simp_all



end
