(* ===== verification/Server_Serve.thy ===== *)
theory Server_Serve
  imports Server_Loop Http_Process
begin

text \<open>
  A request's whole way through the server in the Proactor model: the main thread reads it and
  appends it to the queue, a worker fetches it and runs \<open>process\<close> with a database connection, the
  main thread writes the answer. The theorem composes the components' theorems; its steps are
  those of the code, one behind the other.
\<close>

definition input_event :: "int \<Rightarrow> string \<Rightarrow> ready" where
  "input_event fd bytes = \<lparr>ev_fd = fd, ev_events = EPOLLIN, ev_accept = [], ev_signals = None, ev_recv = [Recv bytes], ev_writev = []\<rparr>"

definition output_event :: "int \<Rightarrow> nat \<Rightarrow> ready" where
  "output_event fd n = \<lparr>ev_fd = fd, ev_events = EPOLLOUT, ev_accept = [], ev_signals = None, ev_recv = [], ev_writev = [Sent n]\<rparr>"

section \<open>The two events\<close>

lemma event_masks:
  "\<not> has_event EPOLLIN (EPOLLRDHUP OR EPOLLHUP OR EPOLLERR)" "has_event EPOLLIN EPOLLIN"
  "\<not> has_event EPOLLOUT (EPOLLRDHUP OR EPOLLHUP OR EPOLLERR)" "\<not> has_event EPOLLOUT EPOLLIN" "has_event EPOLLOUT EPOLLOUT"
  by (simp_all add: has_event_def epoll_flags)

lemma client_event:
  assumes "srv_inv s" and "fd_of s a = Some fd"
  shows "handle_event s now flags (input_event fd bytes) = rbind (dealwithread s now fd [Recv bytes]) (\<lambda>s1. Inr (s1, flags))"
    and "handle_event s now flags (output_event fd n) = rbind (dealwithwrite s now fd [Sent n]) (\<lambda>s1. Inr (s1, flags))"
proof -
  have "client s a fd" by (rule inv_fd_of [OF assms])
  then have "fd \<noteq> ws_listenfd s" "fd \<noteq> ws_pipefd0 s" by (simp_all add: client_def)
  then show "handle_event s now flags (input_event fd bytes) = rbind (dealwithread s now fd [Recv bytes]) (\<lambda>s1. Inr (s1, flags))"
    "handle_event s now flags (output_event fd n) = rbind (dealwithwrite s now fd [Sent n]) (\<lambda>s1. Inr (s1, flags))"
    by (simp_all add: handle_event_def input_event_def output_event_def event_masks Let_def)
qed

lemma adjust_if_requests: "adjust_if s now t = Inr s' \<Longrightarrow> requests s' = requests s"
  by (auto simp: adjust_if_def adjust_timer_def elim!: rbindE split: option.splits prod.splits if_splits)

lemma read_event:
  assumes inv: "srv_inv s" "fd_of s a = Some fd" and "ws_actormodel s \<noteq> 1"
    and "read_once (conns s fd) [Recv bytes] = (c, True)" and "append_p (requests s) fd = (q, b)"
  obtains s1 where "handle_event s now flags (input_event fd bytes) = Inr (s1, flags)" and "goes_on s s1"
    and "kernel s1 = kernel s" and "conns s1 = (conns s)(fd := c)" and "requests s1 = q"
proof -
  let ?s1 = "s\<lparr>conns := (conns s)(fd := c), requests := q\<rparr>"
  have "goes_on s (s\<lparr>kernel := kernel s, conns := (conns s)(fd := c), requests := q\<rparr>)"
    by (rule update_goes_on [OF goes_on_refl [OF inv(1)]]) (simp_all add: read_once_sockfd [OF assms(4)])
  then have "goes_on s ?s1" by simp
  then obtain s2 where s2: "adjust_if ?s1 now (Some a) = Inr s2" "goes_on s s2" "kernel s2 = kernel s" "conns s2 = (conns s)(fd := c)"
    by (rule adjust_goes_on [OF _ inv(2)]) simp
  have "dealwithread s now fd [Recv bytes] = Inr s2"
    using s2(1) assms(3-5) by (simp add: dealwithread_def user_timer_ok [OF inv] Let_def)
  then have "handle_event s now flags (input_event fd bytes) = Inr (s2, flags)" by (simp add: client_event [OF inv])
  then show ?thesis by (rule that) (use s2 adjust_if_requests [OF s2(1)] in simp_all)
qed

lemma write_event:
  assumes inv: "srv_inv s" "fd_of s a = Some fd" and "ws_actormodel s \<noteq> 1"
    and "write_conn (kernel s) (conns s fd) [Sent n] = Inr (k, c, out, ok)"
  obtains s1 where "handle_event s now flags (output_event fd n) = Inr (s1, flags)"
    and "if ok then goes_on s s1 \<and> kernel s1 = k \<and> conns s1 = (conns s)(fd := c) else closed s a fd s1"
proof -
  let ?s1 = "s\<lparr>kernel := k, conns := (conns s)(fd := c)\<rparr>"
  note k = write_conn_fds [OF assms(4)]
  have "goes_on s (s\<lparr>kernel := k, conns := (conns s)(fd := c), requests := requests s\<rparr>)"
    by (rule update_goes_on [OF goes_on_refl [OF inv(1)]]) (simp_all add: k)
  then have g: "goes_on s ?s1" by simp
  obtain s2 where s2: "adjust_if ?s1 now (Some a) = Inr s2" "goes_on s s2" "kernel s2 = kernel ?s1" "conns s2 = conns ?s1"
    by (rule adjust_goes_on [OF g inv(2)])
  obtain s3 where s3: "deal_timer ?s1 (Some a) fd = Inr s3" "closed s a fd s3"
    by (rule close_after [OF g inv(2)])
  have "dealwithwrite s now fd [Sent n] = Inr (if ok then s2 else s3)"
    using assms(3,4) s2(1) s3(1) by (simp add: dealwithwrite_def user_timer_ok [OF inv] Let_def)
  then have "handle_event s now flags (output_event fd n) = Inr (if ok then s2 else s3, flags)"
    by (simp add: client_event [OF inv])
  then show ?thesis by (rule that) (use s2 s3 in \<open>simp split: if_splits\<close>)
qed

section \<open>The worker\<close>

lemma read_once_all:
  assumes "int (length bytes) < READ_BUFFER_SIZE" and "bytes \<noteq> []"
  shows "read_once (init c) [Recv bytes] = (store (init c) bytes, True)"
proof -
  have "recv_asked (init c) = nat READ_BUFFER_SIZE" "m_read_idx (init c) = 0" by (simp_all add: recv_asked_def init_def)
  then show ?thesis using assms by (simp add: read_once_def Let_def READ_BUFFER_SIZE_def)
qed

text \<open>A worker in the Proactor model serves what it has fetched and gives the connection back.\<close>

lemma serve_proactor:
  assumes "connList p = con # rest" and "0 < reserve p" and "a \<noteq> 1"
    and "process ext k w (c\<lparr>mysql := Some con\<rparr>) = Inr (k', w', c')"
  shows "serve ext a (Some p) k w c = Some (Inr (Some (p\<lparr>connList := rest @ [con]\<rparr>), k', w', c'\<lparr>mysql := None\<rparr>))"
proof -
  have "mysql c' = Some con" using process_mysql [OF assms(4)] by simp
  then show ?thesis using assms
    by (simp add: serve_def served_def serve_get_taken [OF assms(1,2)] serve_release_def ReleaseConnection_def
        release_push_def release_post_def sem_post_def)
qed

lemma sending_mysql: "sending (c\<lparr>mysql := x\<rparr>) h b n = sending c h b n"
  by (simp add: sending_def wrote_def)

lemma write_conn_all:
  assumes "sending c h body 0" and "length (h @ body) \<le> n"
  obtains c' where "write_conn k c [Sent n] = Inr (modfd k (m_sockfd c) EPOLLIN (m_TRIGMode c), c', h @ body, m_linger c)"
proof -
  have "deliver (length (h @ body)) 0 [Sent n] = (length (h @ body), Done)" using assms(2) by simp
  moreover have "header_ok (length h) 0 [Sent n]" by simp
  ultimately obtain k' c' ret where w: "write_loop k c [Sent n] = Inr (k', c', h @ body, ret)"
      "wrote_out k c h body (length (h @ body), Done) (k', c', ret)"
    using write_loop_delivers [OF assms(1), of "[Sent n]" k] by auto
  then have "write_loop k c [Sent n] = Inr (modfd k (m_sockfd c) EPOLLIN (m_TRIGMode c), c', h @ body, m_linger c)"
    by (simp add: wrote_out_def)
  then show ?thesis using sending_to_send [OF assms(1)] that by (simp add: write_conn_def)
qed

section \<open>The way of a request\<close>

lemma request_way:
  assumes srv: "srv_inv s" "fd_of s a = Some fd" "ws_actormodel s \<noteq> 1" "conns s fd = init c"
      "m_workqueue (requests s) = []" "\<not> m_stop (requests s)" "0 < m_max_requests (requests s)"
    and pool: "connList p = con # rest" "0 < reserve p"
    and req: "wf_url url" "\<forall>h \<in> set hs. wf_header h" "foldl clen_step 0 hs = 0"
      "int (length (render_request (method_name GET) url hs [])) < READ_BUFFER_SIZE"
    and url: "CHR ''/'' \<in> set url" "url \<noteq> root_url" "url \<noteq> diagnose_url" "after_slash url \<noteq> CHR ''4''"
    and conn: "NUL \<notin> set (doc_root c)" "length (doc_root c) \<le> 180"
    and fil: "file_stat ext (doc_root c @ target (doc_root c) url) = Some \<lparr>st_size = int (length b), st_iroth = True, st_isdir = False\<rparr>"
      "open_mmap ext (doc_root c @ target (doc_root c) url) (int (length b)) = FA_Mapped b"
      "b \<noteq> []" "int (length b) + WRITE_BUFFER_SIZE \<le> INT_MAX"
  defines "alive \<equiv> foldl linger_step False hs"
  defines "resp \<equiv> plain_head 200 ''OK'' (int (length b)) alive @ b"
  assumes n: "length resp \<le> n"
  shows "\<exists>s1 q k c1 s2 s3 c2.
    handle_event s now flags (input_event fd (render_request (method_name GET) url hs [])) = Inr (s1, flags)
    \<and> srv_inv s1 \<and> fetch (requests s1) = Some (q, fd)
    \<and> serve ext (ws_actormodel s) (Some p) (kernel s1) w (conns s1 fd) =
        Some (Inr (Some (p\<lparr>connList := rest @ [con]\<rparr>), k, w, c1))
    \<and> ep_table k fd = Some (modfd_events EPOLLOUT (m_TRIGMode c))
    \<and> s2 = s1\<lparr>kernel := k, conns := (conns s1)(fd := c1), requests := q\<rparr> \<and> srv_inv s2
    \<and> write_conn k c1 [Sent n] = Inr (modfd k fd EPOLLIN (m_TRIGMode c), c2, resp, alive)
    \<and> handle_event s2 now2 flags (output_event fd n) = Inr (s3, flags) \<and> srv_inv s3
    \<and> (if alive then fd_of s3 = fd_of s \<and> ep_table (kernel s3) fd = Some (modfd_events EPOLLIN (m_TRIGMode c))
       else fd_of s3 = (fd_of s)(a := None) \<and> \<not> fd_open (kernel s3) fd)"
proof -
  let ?text = "render_request (method_name GET) url hs []" and ?q = "(requests s)\<lparr>m_workqueue := [fd]\<rparr>"
  have cl: "client s a fd" by (rule inv_fd_of [OF srv(1,2)])
  have fd: "m_sockfd c = fd" using cl srv(4) by (simp add: client_def init_frames)
  have "?text \<noteq> []" by (simp add: render_request_def)
  from read_once_all [OF req(4) this, of c] have rd: "read_once (conns s fd) [Recv ?text] = (store (init c) ?text, True)"
    by (simp add: srv(4))
  have ap: "append_p (requests s) fd = (?q, True)" using srv(5-7) by (simp add: append_p_def)
  obtain s1 where s1: "handle_event s now flags (input_event fd ?text) = Inr (s1, flags)" "goes_on s s1"
      "kernel s1 = kernel s" "conns s1 fd = store (init c) ?text" "requests s1 = ?q"
    by (rule read_event [where now = now and flags = flags, OF srv(1-3) rd ap]) simp
  have inv1: "srv_inv s1" "fd_of s1 = fd_of s" "ws_actormodel s1 = ws_actormodel s"
    using s1(2) by (simp_all add: goes_on_def same_conf_def)
  let ?c0 = "(store (init c) ?text)\<lparr>mysql := Some con\<rparr>"
  have same: "m_sockfd ?c0 = fd" "m_TRIGMode ?c0 = m_TRIGMode c" "doc_root ?c0 = doc_root c"
    "m_write_idx ?c0 = 0" "m_real_file ?c0 = blank" "bytes_have_send ?c0 = 0"
    by (simp_all add: store_def init_def fd)
  have ready: "ready_conn ?c0 ?text" using ready_stored [OF req(4)] by simp
  obtain c1 where c1: "process ext (kernel s1) w ?c0 = Inr (modfd (kernel s1) fd EPOLLOUT (m_TRIGMode c), w, c1)"
      "sending c1 (plain_head 200 ''OK'' (int (length b)) alive) b 0" "m_linger c1 = alive" "m_sockfd c1 = fd"
      "m_TRIGMode c1 = m_TRIGMode c"
    by (rule get_answered [OF ready same(4-6) req(1-3) url conn [folded same(3)] fil [folded same(3)], of "kernel s1" w])
      (simp add: same alive_def)
  define k where "k = modfd (kernel s1) fd EPOLLOUT (m_TRIGMode c)"
  let ?c1 = "c1\<lparr>mysql := None\<rparr>"
  have serve: "serve ext (ws_actormodel s) (Some p) (kernel s1) w (conns s1 fd) =
      Some (Inr (Some (p\<lparr>connList := rest @ [con]\<rparr>), k, w, ?c1))"
    unfolding s1(4) k_def by (rule serve_proactor [OF pool srv(3) c1(1)])
  let ?s2 = "s1\<lparr>kernel := k, conns := (conns s1)(fd := ?c1), requests := (requests s1)\<lparr>m_workqueue := []\<rparr>\<rparr>"
  have sock: "m_sockfd ?c1 = m_sockfd (conns s1 fd)" by (simp add: c1(4) s1(4) store_def init_frames fd)
  have "same_fds (kernel s1) k" by (simp add: k_def same_fds_modfd)
  note u = update_client [OF inv1(1) this sock]
  have inv2: "srv_inv ?s2" "fd_of ?s2 = fd_of s" "ws_actormodel ?s2 \<noteq> 1" using u inv1 srv(3) by simp_all
  have ep: "ep_table k fd = Some (modfd_events EPOLLOUT (m_TRIGMode c))" and cl_k: "ep_table k fd \<noteq> None"
    using cl by (auto simp: k_def s1(3) client_def modfd_def epoll_ctl_mod_def)
  have "sending ?c1 (plain_head 200 ''OK'' (int (length b)) alive) b 0" by (simp add: sending_mysql c1(2))
  from write_conn_all [OF this n [unfolded resp_def], of k] obtain c2 where
    wr: "write_conn k ?c1 [Sent n] = Inr (modfd k fd EPOLLIN (m_TRIGMode c), c2, resp, alive)"
    by (auto simp: resp_def c1(3-5))
  have fd2: "fd_of ?s2 a = Some fd" by (simp only: inv2(2) srv(2))
  have wr2: "write_conn (kernel ?s2) (conns ?s2 fd) [Sent n] = Inr (modfd k fd EPOLLIN (m_TRIGMode c), c2, resp, alive)"
    using wr by simp
  obtain s3 where s3: "handle_event ?s2 now2 flags (output_event fd n) = Inr (s3, flags)"
      "if alive then goes_on ?s2 s3 \<and> kernel s3 = modfd k fd EPOLLIN (m_TRIGMode c) \<and> conns s3 = (conns ?s2)(fd := c2)
       else closed ?s2 a fd s3"
    by (rule write_event [where now = now2 and flags = flags, OF inv2(1) fd2 inv2(3) wr2])
  have end1: "srv_inv s3" using s3(2) by (simp add: goes_on_def closed_def split: if_splits)
  have end2: "if alive then fd_of s3 = fd_of s \<and> ep_table (kernel s3) fd = Some (modfd_events EPOLLIN (m_TRIGMode c))
       else fd_of s3 = (fd_of s)(a := None) \<and> \<not> fd_open (kernel s3) fd"
    using s3(2) inv2(2) cl_k by (simp add: goes_on_def closed_def modfd_def epoll_ctl_mod_def split: if_splits)
  have "fetch (requests s1) = Some ((requests s1)\<lparr>m_workqueue := []\<rparr>, fd)" by (simp add: fetch_def s1(5))
  with s1(1) inv1(1) serve ep inv2(1) wr s3(1) end1 end2 show ?thesis
    by (intro exI [of _ s1] exI [of _ "(requests s1)\<lparr>m_workqueue := []\<rparr>"] exI [of _ k] exI [of _ ?c1]
        exI [of _ ?s2] exI [of _ s3] exI [of _ c2] conjI) simp_all
qed

text \<open>
  C2. A GET for a file on an idle connection, in the Proactor model with an empty queue: reading
  it puts the connection into the queue; the worker that fetches it leaves the answer and asks
  for \<open>EPOLLOUT\<close>, and the database connection is back in the pool; the event that follows sends
  the head and the file's bytes. With keep-alive the connection then waits for input again with
  its timer running, else it is closed and its timer gone. The server's invariant holds at every
  stage.
\<close>

theorem request_is_served:
  assumes srv: "srv_inv s" "fd_of s a = Some fd" "ws_actormodel s \<noteq> 1" "conns s fd = init c"
      "m_workqueue (requests s) = []" "\<not> m_stop (requests s)" "0 < m_max_requests (requests s)"
    and pool: "connList p = con # rest" "0 < reserve p"
    and req: "wf_url url" "\<forall>h \<in> set hs. wf_header h" "foldl clen_step 0 hs = 0"
      "int (length (render_request (method_name GET) url hs [])) < READ_BUFFER_SIZE"
    and url: "CHR ''/'' \<in> set url" "url \<noteq> root_url" "url \<noteq> diagnose_url" "after_slash url \<noteq> CHR ''4''"
    and conn: "NUL \<notin> set (doc_root c)" "length (doc_root c) \<le> 180"
    and fil: "file_stat ext (doc_root c @ target (doc_root c) url) = Some \<lparr>st_size = int (length b), st_iroth = True, st_isdir = False\<rparr>"
      "open_mmap ext (doc_root c @ target (doc_root c) url) (int (length b)) = FA_Mapped b"
      "b \<noteq> []" "int (length b) + WRITE_BUFFER_SIZE \<le> INT_MAX"
  defines "alive \<equiv> foldl linger_step False hs"
  defines "resp \<equiv> plain_head 200 ''OK'' (int (length b)) alive @ b"
  assumes n: "length resp \<le> n"
  shows "\<exists>s1 q k c1 s2 s3 c2.
    handle_event s now flags (input_event fd (render_request (method_name GET) url hs [])) = Inr (s1, flags)
    \<and> srv_inv s1 \<and> fetch (requests s1) = Some (q, fd)
    \<and> serve ext (ws_actormodel s) (Some p) (kernel s1) w (conns s1 fd) =
        Some (Inr (Some (p\<lparr>connList := rest @ [con]\<rparr>), k, w, c1))
    \<and> ep_table k fd = Some (modfd_events EPOLLOUT (m_TRIGMode c))
    \<and> s2 = s1\<lparr>kernel := k, conns := (conns s1)(fd := c1), requests := q\<rparr> \<and> srv_inv s2
    \<and> write_conn k c1 [Sent n] = Inr (modfd k fd EPOLLIN (m_TRIGMode c), c2, resp, alive)
    \<and> handle_event s2 now2 flags (output_event fd n) = Inr (s3, flags) \<and> srv_inv s3
    \<and> (if alive then fd_of s3 = fd_of s \<and> ep_table (kernel s3) fd = Some (modfd_events EPOLLIN (m_TRIGMode c))
       else fd_of s3 = (fd_of s)(a := None) \<and> \<not> fd_open (kernel s3) fd)"
  unfolding alive_def resp_def
  by (rule request_way [OF srv pool req url conn fil n [unfolded resp_def alive_def]])

section \<open>A concrete request\<close>

lemma actor_model_inv: "srv_inv (s\<lparr>ws_actormodel := m\<rparr>)" if "srv_inv s"
proof (rule srv_invI)
  have td: "tdata (s\<lparr>ws_actormodel := m\<rparr>) = tdata s" by (simp add: tdata_def)
  then have own: "fd_of (s\<lparr>ws_actormodel := m\<rparr>) = fd_of s" by (simp add: fd_of_def fun_eq_iff)
  show "wheel_inv (timer_lst (s\<lparr>ws_actormodel := m\<rparr>))" "os_inv (kernel (s\<lparr>ws_actormodel := m\<rparr>))"
    using inv_parts [OF that] by simp_all
  show "m_user_count (kernel (s\<lparr>ws_actormodel := m\<rparr>)) = int (card (dom (fd_of (s\<lparr>ws_actormodel := m\<rparr>))))"
    unfolding own using inv_parts(3) [OF that] by simp
  fix a t
  assume "tdata (s\<lparr>ws_actormodel := m\<rparr>) a = Some t"
  moreover have "client (s\<lparr>ws_actormodel := m\<rparr>) a g = client s a g" for g by (simp add: client_def)
  ultimately show "cb_func t = Some Cb_Func \<and> (\<exists>fd. user_data t = Some fd \<and> client (s\<lparr>ws_actormodel := m\<rparr>) a fd)"
    using inv_bound [OF that, of a t] by (simp only: td)
qed

definition seven :: http_conn where
  "seven = zero_conn\<lparr>m_sockfd := 7, doc_root := ''/srv''\<rparr>"

lemma demo_idle:
  obtains s a where "srv_inv s" and "fd_of s a = Some 7" and "ws_actormodel s \<noteq> 1" and "conns s 7 = init seven"
    and "requests s = \<lparr>m_actor_model = 0, m_max_requests = 10, m_workqueue = [], m_stop = False\<rparr>"
proof -
  obtain s a where s: "srv_inv s" "fd_of s a = Some 7" by (rule demo_client)
  let ?s = "s\<lparr>ws_actormodel := 0\<rparr>"
  let ?q = "\<lparr>m_actor_model = 0, m_max_requests = 10, m_workqueue = [], m_stop = False\<rparr>"
  have i: "srv_inv ?s" by (rule actor_model_inv [OF s(1)])
  have "tdata ?s = tdata s" by (simp add: tdata_def)
  then have own: "fd_of ?s = fd_of s" by (simp add: fd_of_def fun_eq_iff)
  have "client s a 7" by (rule inv_fd_of [OF s])
  then have "m_sockfd (init seven) = m_sockfd (conns ?s 7)" by (simp add: client_def seven_def init_frames)
  note u = update_client [OF i same_fds_refl this, of ?q]
  show ?thesis by (rule that [OF u(1), of a]) (use u(2) own s(2) in simp_all)
qed

theorem request_is_served_witness:
  "\<exists>s a s1 q k c1 c2 p. fd_of s a = Some 7
    \<and> handle_event s 0 (False, False) (input_event 7 (render_request (method_name GET) ''/a.html'' [''Host: x''] [])) = Inr (s1, (False, False))
    \<and> fetch (requests s1) = Some (q, 7)
    \<and> serve demo_ext (ws_actormodel s) (Some p) (kernel s1) demo_world (conns s1 7) = Some (Inr (Some p, k, demo_world, c1))
    \<and> write_conn k c1 [Sent 1000] = Inr (modfd k 7 EPOLLIN 0, c2, plain_head 200 ''OK'' 5 False @ ''hello'', False)"
proof -
  obtain s a where s: "srv_inv s" "fd_of s a = Some 7" "ws_actormodel s \<noteq> 1" "conns s 7 = init seven"
    and q: "requests s = \<lparr>m_actor_model = 0, m_max_requests = 10, m_workqueue = [], m_stop = False\<rparr>"
    by (rule demo_idle)
  have rq: "m_workqueue (requests s) = []" "\<not> m_stop (requests s)" "0 < m_max_requests (requests s)" by (simp_all add: q)
  define p where "p = new_pool\<lparr>connList := [5], reserve := 1\<rparr>"
  have p: "connList p = [5]" "0 < reserve p" by (simp_all add: p_def)
  have req: "wf_url ''/a.html''" "\<forall>h \<in> set [''Host: x'']. wf_header h" "foldl clen_step 0 [''Host: x''] = 0"
    "int (length (render_request (method_name GET) ''/a.html'' [''Host: x''] [])) < READ_BUFFER_SIZE"
    by (simp_all add: wf_url_def wf_header_def no_eol_def no_blank_def render_request_def
      render_headers_def method_name_def clen_step_def is_header_def casecmp_eq_def tolower_def READ_BUFFER_SIZE_def)
  have url: "CHR ''/'' \<in> set ''/a.html''" "''/a.html'' \<noteq> root_url" "''/a.html'' \<noteq> diagnose_url" "after_slash ''/a.html'' \<noteq> CHR ''4''"
    by (simp_all add: root_url_def diagnose_url_def after_slash_def)
  have conn: "NUL \<notin> set (doc_root seven)" "length (doc_root seven) \<le> 180" by (simp_all add: seven_def)
  have fil: "file_stat demo_ext (doc_root seven @ target (doc_root seven) ''/a.html'') =
      Some \<lparr>st_size = int (length ''hello''), st_iroth = True, st_isdir = False\<rparr>"
    "open_mmap demo_ext (doc_root seven @ target (doc_root seven) ''/a.html'') (int (length ''hello'')) = FA_Mapped ''hello''"
    "''hello'' \<noteq> []" "int (length ''hello'') + WRITE_BUFFER_SIZE \<le> INT_MAX"
    by (simp_all add: demo_ext_def WRITE_BUFFER_SIZE_def INT_MAX_def)
  have l: "foldl linger_step False [''Host: x''] = False"
    by (simp add: linger_step_def is_header_def casecmp_eq_def tolower_def)
  have n: "length (plain_head 200 ''OK'' (int (length ''hello'')) (foldl linger_step False [''Host: x'']) @ ''hello'') \<le> 1000"
    unfolding l by (simp add: plain_head_def message_defs crlf_def show_int_def show_nat.simps)
  have "p\<lparr>connList := [] @ [5]\<rparr> = p" using p(1) by simp
  moreover have "m_TRIGMode seven = 0" by (simp add: seven_def zero_conn_def)
  ultimately show ?thesis
    using request_is_served [OF s rq p req url conn fil n, of 0 "(False, False)" demo_world] s(2)
    unfolding l by fastforce
qed

end
