(* ===== verification/Server_Run.thy ===== *)
theory Server_Run
  imports Server_Serve
begin

text \<open>
  The main thread and the workers at the same time (\<open>WebServer::eventLoop\<close> of \<open>webserver.cpp\<close>
  against \<open>threadpool<T>::run\<close> of \<open>threadpool/threadpool.h\<close>).

  The two share the array of connections, the request queue, the epoll table and the pool of
  database connections. No lock guards a connection; what keeps the threads apart is
  \<open>EPOLLONESHOT\<close>: a connection whose event was delivered stays silent until somebody calls
  \<open>modfd\<close> on it. The relation \<open>run_step\<close> interleaves the steps of the main thread (waiting, one
  event, one tick) with those of the workers (fetching, taking a database connection, \<open>process\<close>,
  giving the connection back, and clearing \<open>mysql\<close>). Each step is a definition of the
  components; \<open>process\<close> is one step, since its only effect on the other threads that matters here
  is the \<open>modfd\<close> it ends with. The sleep and wake-up of the workers is in \<open>Thread_Pool\<close>, the phases
  inside the pool's operations in \<open>Sql_Pool\<close>.
\<close>

section \<open>What epoll\_wait does\<close>

text \<open>
  The kernel reports an event that the mask asks for, or an error or a hang-up, for an entry
  that is armed, and disarms a one-shot entry by keeping only the mode bits of the mask.
\<close>

definition mode_bits :: events where
  "mode_bits = EPOLLONESHOT OR EPOLLET"

definition armed_mask :: "events \<Rightarrow> bool" where
  "armed_mask m \<longleftrightarrow> m AND NOT mode_bits \<noteq> 0"

definition armed :: "os \<Rightarrow> int \<Rightarrow> bool" where
  "armed k fd = (case ep_table k fd of None \<Rightarrow> False | Some m \<Rightarrow> armed_mask m)"

definition reported :: "os \<Rightarrow> ready \<Rightarrow> bool" where
  "reported k e = (case ep_table k (ev_fd e) of None \<Rightarrow> False
     | Some m \<Rightarrow> armed_mask m \<and> ev_events e \<noteq> 0 \<and> ev_events e AND NOT (m OR EPOLLERR OR EPOLLHUP) = 0)"

definition disarm :: "os \<Rightarrow> int \<Rightarrow> os" where
  "disarm k fd = (case ep_table k fd of None \<Rightarrow> k
     | Some m \<Rightarrow> if has_event m EPOLLONESHOT then k\<lparr>ep_table := (ep_table k)(fd \<mapsto> m AND mode_bits)\<rparr> else k)"

definition epoll_wait :: "os \<Rightarrow> ready list \<Rightarrow> os option" where
  "epoll_wait k es =
     (if distinct (map ev_fd es) \<and> (\<forall>e \<in> set es. reported k e) then Some (foldl disarm k (map ev_fd es)) else None)"

lemma armed_masks:
  "armed_mask (addfd_events b t)" "armed_mask (modfd_events EPOLLIN t)" "armed_mask (modfd_events EPOLLOUT t)"
  by (simp_all add: armed_mask_def mode_bits_def addfd_events_def modfd_events_def epoll_flags)

lemma disarmed_mask: "\<not> armed_mask (m AND mode_bits)" "has_event (m AND mode_bits) EPOLLONESHOT = has_event m EPOLLONESHOT"
proof -
  show "\<not> armed_mask (m AND mode_bits)" by (simp add: armed_mask_def word_bw_assocs)
  have "mode_bits AND EPOLLONESHOT = EPOLLONESHOT" by (simp add: mode_bits_def epoll_flags)
  then show "has_event (m AND mode_bits) EPOLLONESHOT = has_event m EPOLLONESHOT"
    by (simp add: has_event_def word_bw_assocs)
qed

lemma disarm_frame [simp]:
  "fd_open (disarm k fd) = fd_open k" "m_user_count (disarm k fd) = m_user_count k"
  "g \<noteq> fd \<Longrightarrow> ep_table (disarm k fd) g = ep_table k g"
  by (simp_all add: disarm_def split: option.split)

lemma disarm_armed:
  "armed (disarm k fd) g \<longleftrightarrow> armed k g \<and> (g = fd \<longrightarrow> (\<exists>m. ep_table k fd = Some m \<and> \<not> has_event m EPOLLONESHOT))"
  by (cases "ep_table k fd") (auto simp: disarm_def armed_def disarmed_mask split: option.split)

section \<open>The threads together\<close>

text \<open>
  Where a worker is with the request it fetched. It owns the connection in \<open>Fetched\<close> and
  \<open>Connected\<close>; after \<open>process\<close> it has given the connection away and still touches \<open>mysql\<close>.
\<close>

datatype phase = Resting | Fetched int | Connected int | Answered int | Returned int

record ('w, 'd) running =
  main :: server
  shared :: "('w, 'd) world"
  db_pool :: "sql_pool option"
  hands :: "phase list"
  batch :: "ready list"
  loop_flags :: "bool \<times> bool"

definition put_conn :: "server \<Rightarrow> int \<Rightarrow> http_conn \<Rightarrow> server" where
  "put_conn s fd c = s\<lparr>conns := (conns s)(fd := c)\<rparr>"

text \<open>The descriptors that \<open>accept\<close> returns are new ones, each different.\<close>

definition new_fds :: "os \<Rightarrow> accept_result list \<Rightarrow> bool" where
  "new_fds k rs \<longleftrightarrow> distinct (concat (map accepted_fd rs)) \<and> (\<forall>fd \<in> set (concat (map accepted_fd rs)). \<not> fd_open k fd)"

inductive run_step :: "('w, 'd, 'f) outside \<Rightarrow> ('w, 'd) running \<Rightarrow> ('w, 'd) running \<Rightarrow> bool" for ext where
  poll: "batch r = [] \<Longrightarrow> loop_flags r = (False, False) \<Longrightarrow> epoll_wait (kernel (main r)) es = Some k \<Longrightarrow>
    run_step ext r (r\<lparr>main := (main r)\<lparr>kernel := k\<rparr>, batch := es\<rparr>)"
| event: "batch r = e # es \<Longrightarrow> new_fds (kernel (main r)) (ev_accept e) \<Longrightarrow>
    handle_event (main r) now (loop_flags r) e = Inr (s, flags) \<Longrightarrow>
    run_step ext r (r\<lparr>main := s, batch := es, loop_flags := flags\<rparr>)"
| tick: "batch r = [] \<Longrightarrow> fst (loop_flags r) \<Longrightarrow> timer_handler (main r) = Some (Inr s) \<Longrightarrow>
    run_step ext r (r\<lparr>main := s, loop_flags := (False, snd (loop_flags r))\<rparr>)"
| take: "i < length (hands r) \<Longrightarrow> hands r ! i = Resting \<Longrightarrow> fetch (requests (main r)) = Some (q, fd) \<Longrightarrow>
    run_step ext r (r\<lparr>main := (main r)\<lparr>requests := q\<rparr>,
      hands := (hands r)[i := if served (m_actor_model q) (conns (main r) fd) then Fetched fd else Resting]\<rparr>)"
| connect: "i < length (hands r) \<Longrightarrow> hands r ! i = Fetched fd \<Longrightarrow>
    serve_get (db_pool r) (conns (main r) fd) = Some (Inr (p, c)) \<Longrightarrow>
    run_step ext r (r\<lparr>main := put_conn (main r) fd c, db_pool := p, hands := (hands r)[i := Connected fd]\<rparr>)"
| work: "i < length (hands r) \<Longrightarrow> hands r ! i = Connected fd \<Longrightarrow>
    process ext (kernel (main r)) (shared r) (conns (main r) fd) = Inr (k, w, c) \<Longrightarrow>
    run_step ext r (r\<lparr>main := (put_conn (main r) fd c)\<lparr>kernel := k\<rparr>, shared := w, hands := (hands r)[i := Answered fd]\<rparr>)"
| give: "i < length (hands r) \<Longrightarrow> hands r ! i = Answered fd \<Longrightarrow> db_pool r = Some p \<Longrightarrow>
    mysql (conns (main r) fd) = Some con \<Longrightarrow>
    run_step ext r (r\<lparr>db_pool := Some (fst (ReleaseConnection p (Some con))), hands := (hands r)[i := Returned fd]\<rparr>)"
| skip: "i < length (hands r) \<Longrightarrow> hands r ! i = Answered fd \<Longrightarrow> db_pool r = None \<or> mysql (conns (main r) fd) = None \<Longrightarrow>
    run_step ext r (r\<lparr>hands := (hands r)[i := Resting]\<rparr>)"
| clear: "i < length (hands r) \<Longrightarrow> hands r ! i = Returned fd \<Longrightarrow>
    run_step ext r (r\<lparr>main := put_conn (main r) fd ((conns (main r) fd)\<lparr>mysql := None\<rparr>), hands := (hands r)[i := Resting]\<rparr>)"

inductive_cases run_stepE: "run_step ext r r'"

section \<open>Who holds a connection\<close>

text \<open>
  The holders of a connection: its armed entry in the epoll table, the event that waits in the
  batch, the entries of the queue, and the workers before the end of \<open>process\<close>.
\<close>

definition works_on :: "int \<Rightarrow> phase \<Rightarrow> bool" where
  "works_on fd w \<longleftrightarrow> w = Fetched fd \<or> w = Connected fd"

definition outside_holders :: "('w, 'd) running \<Rightarrow> int \<Rightarrow> nat" where
  "outside_holders r fd = count_list (map ev_fd (batch r)) fd + length (filter (works_on fd) (hands r))"

definition server_holders :: "server \<Rightarrow> int \<Rightarrow> nat" where
  "server_holders s fd = (if armed (kernel s) fd then 1 else 0) + count_list (m_workqueue (requests s)) fd"

definition holders :: "('w, 'd) running \<Rightarrow> int \<Rightarrow> nat" where
  "holders r fd = server_holders (main r) fd + outside_holders r fd"

text \<open>The descriptors other than the listening socket and the signals' pipe.\<close>

definition peer :: "server \<Rightarrow> int \<Rightarrow> bool" where
  "peer s fd \<longleftrightarrow> fd \<noteq> ws_listenfd s \<and> fd \<noteq> ws_pipefd0 s"

definition same_ends :: "server \<Rightarrow> server \<Rightarrow> bool" where
  "same_ends s s' \<longleftrightarrow> ws_listenfd s' = ws_listenfd s \<and> ws_pipefd0 s' = ws_pipefd0 s"

text \<open>The invariant, for a server \<open>s\<close> and \<open>h fd\<close> holders outside it.\<close>

definition claims_ok :: "server \<Rightarrow> (int \<Rightarrow> nat) \<Rightarrow> bool" where
  "claims_ok s h \<longleftrightarrow>
     fd_open (kernel s) (ws_listenfd s) \<and> fd_open (kernel s) (ws_pipefd0 s) \<and> ep_table (kernel s) (- 1) = None
   \<and> (\<forall>fd m. peer s fd \<and> ep_table (kernel s) fd = Some m \<longrightarrow> has_event m EPOLLONESHOT)
   \<and> (\<forall>i d. users_timer s i = Some d \<longrightarrow> cd_sockfd d = i \<and> peer s i)
   \<and> (\<forall>fd \<in> set (m_workqueue (requests s)). peer s fd)
   \<and> (\<forall>fd. peer s fd \<longrightarrow> server_holders s fd + h fd \<le> 1
       \<and> (0 < server_holders s fd + h fd \<longrightarrow> fd_open (kernel s) fd \<and> m_sockfd (conns s fd) = fd))"


lemma count_list_pos [simp]: "0 < count_list xs x \<longleftrightarrow> x \<in> set xs"
  by (induction xs) auto

lemma claims_peer:
  assumes "claims_ok s h" and "peer s fd"
  shows "server_holders s fd + h fd \<le> 1"
    and "0 < server_holders s fd + h fd \<Longrightarrow> fd_open (kernel s) fd \<and> m_sockfd (conns s fd) = fd"
    and "ep_table (kernel s) fd = Some m \<Longrightarrow> has_event m EPOLLONESHOT"
  using assms by (auto simp: claims_ok_def)

lemma claims_parts:
  assumes "claims_ok s h"
  shows "fd_open (kernel s) (ws_listenfd s)" and "fd_open (kernel s) (ws_pipefd0 s)" and "ep_table (kernel s) (- 1) = None"
    and "users_timer s i = Some d \<Longrightarrow> cd_sockfd d = i \<and> peer s i"
    and "fd \<in> set (m_workqueue (requests s)) \<Longrightarrow> peer s fd"
  using assms unfolding claims_ok_def by blast+

lemma claimsI:
  assumes "fd_open (kernel s) (ws_listenfd s)" and "fd_open (kernel s) (ws_pipefd0 s)" and "ep_table (kernel s) (- 1) = None"
    and "\<And>fd m. peer s fd \<Longrightarrow> ep_table (kernel s) fd = Some m \<Longrightarrow> has_event m EPOLLONESHOT"
    and "\<And>i d. users_timer s i = Some d \<Longrightarrow> cd_sockfd d = i \<and> peer s i"
    and "\<And>fd. fd \<in> set (m_workqueue (requests s)) \<Longrightarrow> peer s fd"
    and "\<And>fd. peer s fd \<Longrightarrow> server_holders s fd + h fd \<le> 1"
    and "\<And>fd. peer s fd \<Longrightarrow> 0 < server_holders s fd + h fd \<Longrightarrow> fd_open (kernel s) fd \<and> m_sockfd (conns s fd) = fd"
  shows "claims_ok s h"
  unfolding claims_ok_def
proof (intro conjI)
  show "\<forall>i d. users_timer s i = Some d \<longrightarrow> cd_sockfd d = i \<and> peer s i" by (intro allI impI) (rule assms(5))
  show "\<forall>fd. peer s fd \<longrightarrow> server_holders s fd + h fd \<le> 1
      \<and> (0 < server_holders s fd + h fd \<longrightarrow> fd_open (kernel s) fd \<and> m_sockfd (conns s fd) = fd)"
    by (intro allI impI conjI) (auto dest: assms(7,8) simp del: add_gr_0)
qed (auto intro: assms(1-4,6))

text \<open>How the steps change the holders: one goes away, moves into the epoll table or into the queue.\<close>

definition same_hold :: "server \<Rightarrow> server \<Rightarrow> bool" where
  "same_hold s s' \<longleftrightarrow> same_ends s s' \<and> kernel s' = kernel s \<and> requests s' = requests s
     \<and> (\<forall>fd. m_sockfd (conns s' fd) = m_sockfd (conns s fd))
     \<and> (\<forall>i d. users_timer s' i = Some d \<longrightarrow> (\<exists>d'. users_timer s i = Some d' \<and> cd_sockfd d' = cd_sockfd d))"

lemma same_hold_refl [simp]: "same_hold s s"
  by (auto simp: same_hold_def same_ends_def)

lemma same_hold_trans: "same_hold a b \<Longrightarrow> same_hold b c \<Longrightarrow> same_hold a c"
  unfolding same_hold_def same_ends_def by (auto; metis)

lemma claims_same:
  assumes "claims_ok s h" and "same_hold s s'" and "\<And>fd. peer s fd \<Longrightarrow> h' fd \<le> h fd"
  shows "claims_ok s' h'"
proof -
  have p: "peer s' fd = peer s fd" "server_holders s' fd = server_holders s fd" for fd
    using assms(2) by (simp_all add: same_hold_def same_ends_def peer_def server_holders_def)
  note f = assms(2) [unfolded same_hold_def same_ends_def]
  show ?thesis
  proof (rule claimsI; (unfold p)?)
    fix i d assume "users_timer s' i = Some d"
    with f obtain d' where "users_timer s i = Some d'" "cd_sockfd d' = cd_sockfd d" by blast
    with claims_parts(4) [OF assms(1)] show "cd_sockfd d = i \<and> peer s i" by metis
  next
    fix fd assume fd: "peer s fd"
    show "server_holders s fd + h' fd \<le> 1" using claims_peer(1) [OF assms(1) fd] assms(3) [OF fd] by simp
    assume "0 < server_holders s fd + h' fd"
    then have "0 < server_holders s fd + h fd" using assms(3) [OF fd] by linarith
    from claims_peer(2) [OF assms(1) fd this] f show "fd_open (kernel s') fd \<and> m_sockfd (conns s' fd) = fd" by simp
  qed (use f claims_parts [OF assms(1)] claims_peer(3) [OF assms(1)] in auto)
qed

lemma claims_only:
  assumes "claims_ok s (h(fd := Suc n))" and "peer s fd"
  shows "server_holders s fd = 0" and "n = 0" and "fd_open (kernel s) fd" and "m_sockfd (conns s fd) = fd"
    and "\<not> armed (kernel s) fd" and "fd \<notin> set (m_workqueue (requests s))"
  using claims_peer(1,2) [OF assms] by (simp_all add: server_holders_def count_list_0_iff split: if_splits)

lemma claims_modfd:
  assumes "claims_ok s (h(fd := Suc (h fd)))" and "peer s fd"
  shows "claims_ok (s\<lparr>kernel := modfd (kernel s) (m_sockfd (conns s fd)) ev t\<rparr>) h"
proof -
  note o = claims_only [OF assms]
  let ?s = "s\<lparr>kernel := modfd (kernel s) (m_sockfd (conns s fd)) ev t\<rparr>"
  have p: "peer ?s g = peer s g" for g by (simp add: peer_def)
  have none: "ep_table (kernel ?s) (- 1) = None"
    using claims_parts(3) [OF assms(1)] by (auto simp: modfd_def epoll_ctl_mod_def)
  have one: "has_event (modfd_events ev t) EPOLLONESHOT"
    by (simp add: modfd_events_def has_event_def word_ao_dist epoll_flags)
  have other: "server_holders ?s g = server_holders s g" if "g \<noteq> fd" for g
    using that by (simp add: server_holders_def armed_def o(4) ep_table_other)
  have self: "server_holders ?s fd \<le> 1" using o(6) by (simp add: server_holders_def count_list_0_iff)
  show ?thesis
  proof (rule claimsI; (unfold p)?)
    fix g m assume g: "peer s g" "ep_table (kernel ?s) g = Some m"
    then show "has_event m EPOLLONESHOT"
      using one claims_peer(3) [OF assms(1) g(1)]
      by (auto simp: modfd_def epoll_ctl_mod_def o(4) split: if_splits)
  next
    fix g assume g: "peer s g"
    show "server_holders ?s g + h g \<le> 1"
      using self o(2) other [of g] claims_peer(1) [OF assms(1) g] by (cases "g = fd") auto
    assume "0 < server_holders ?s g + h g"
    then show "fd_open (kernel ?s) g \<and> m_sockfd (conns ?s g) = g"
      using o(3,4) other [of g] claims_peer(2) [OF assms(1) g] by (cases "g = fd") auto
  qed (use none claims_parts [OF assms(1)] in auto)
qed

lemma claims_append:
  assumes "claims_ok s (h(fd := Suc (h fd)))" and "peer s fd" and "m_workqueue q = m_workqueue (requests s) @ [fd]"
  shows "claims_ok (s\<lparr>requests := q\<rparr>) h"
proof -
  note o = claims_only [OF assms(1,2)]
  let ?s = "s\<lparr>requests := q\<rparr>"
  have p: "peer ?s g = peer s g" for g by (simp add: peer_def)
  have n: "server_holders ?s g + h g = server_holders s g + (h(fd := Suc (h fd))) g" for g
    using assms(3) by (auto simp: server_holders_def)
  show ?thesis
  proof (rule claimsI; (unfold p n)?)
    fix g assume "g \<in> set (m_workqueue (requests ?s))"
    then show "peer s g" using assms(2,3) claims_parts(5) [OF assms(1)] by auto
  next
    fix g assume g: "peer s g"
    show "server_holders s g + (h(fd := Suc (h fd))) g \<le> 1" by (rule claims_peer(1) [OF assms(1) g])
    assume "0 < server_holders s g + (h(fd := Suc (h fd))) g"
    from claims_peer(2) [OF assms(1) g this] show "fd_open (kernel ?s) g \<and> m_sockfd (conns ?s g) = g" by simp
  qed (use claims_parts [OF assms(1)] claims_peer(3) [OF assms(1)] in auto)
qed

text \<open>A step that only closes: the table loses entries, and what is still held stays open.\<close>

definition shrinks :: "os \<Rightarrow> os \<Rightarrow> bool" where
  "shrinks k k' \<longleftrightarrow> (\<forall>fd. ep_table k' fd = ep_table k fd \<or> ep_table k' fd = None)
     \<and> (\<forall>fd. fd_open k fd \<longrightarrow> fd_open k' fd \<or> ep_table k' fd = None)"

lemma shrinks_refl [simp]: "shrinks k k"
  by (simp add: shrinks_def)

lemma shrinks_trans: "shrinks a b \<Longrightarrow> shrinks b c \<Longrightarrow> shrinks a c"
  unfolding shrinks_def by metis

lemma claims_shrink:
  assumes "claims_ok s h" and "shrinks (kernel s) k" and "\<And>fd. peer s fd \<Longrightarrow> h' fd \<le> h fd"
    and "fd_open k (ws_listenfd s)" and "fd_open k (ws_pipefd0 s)"
    and "\<And>fd. peer s fd \<Longrightarrow> fd \<in> set (m_workqueue (requests s)) \<or> 0 < h' fd \<Longrightarrow> fd_open k fd"
  shows "claims_ok (s\<lparr>kernel := k\<rparr>) h'"
proof -
  let ?s = "s\<lparr>kernel := k\<rparr>"
  have p: "peer ?s g = peer s g" for g by (simp add: peer_def)
  have none: "ep_table k (- 1) = None" using assms(2) claims_parts(3) [OF assms(1)] by (metis shrinks_def)
  have t: "ep_table k g = Some m \<Longrightarrow> ep_table (kernel s) g = Some m" for g m
    using assms(2) by (metis shrinks_def option.distinct(1))
  then have a: "armed k g \<Longrightarrow> armed (kernel s) g" for g by (auto simp: armed_def split: option.splits)
  then have n: "server_holders ?s g \<le> server_holders s g" for g by (auto simp: server_holders_def)
  show ?thesis
  proof (rule claimsI; (unfold p)?)
    fix g assume g: "peer s g"
    show "server_holders ?s g + h' g \<le> 1"
      using n [of g] assms(3) [OF g] claims_peer(1) [OF assms(1) g] by simp
    assume pos: "0 < server_holders ?s g + h' g"
    then have "0 < server_holders s g + h g" using n [of g] assms(3) [OF g] by linarith
    then have o: "fd_open (kernel s) g" "m_sockfd (conns s g) = g" using claims_peer(2) [OF assms(1) g] by auto
    have "fd_open k g"
    proof (cases "armed k g")
      case True
      then have "ep_table k g \<noteq> None" by (simp add: armed_def split: option.splits)
      with assms(2) o(1) show ?thesis unfolding shrinks_def by metis
    next
      case False
      then have "g \<in> set (m_workqueue (requests s)) \<or> 0 < h' g"
        using pos by (auto simp: server_holders_def count_list_0_iff)
      then show ?thesis by (rule assms(6) [OF g])
    qed
    with o(2) show "fd_open (kernel ?s) g \<and> m_sockfd (conns ?s g) = g" by simp
  qed (use assms(4,5) none t claims_parts [OF assms(1)] claims_peer(3) [OF assms(1)] in auto)
qed

section \<open>The steps of the main thread\<close>

text \<open>What a step of the main thread leaves: the claims, the two ends, and the connections outside \<open>A\<close>.\<close>

definition main_ok :: "server \<Rightarrow> int set \<Rightarrow> (int \<Rightarrow> nat) \<Rightarrow> server \<Rightarrow> bool" where
  "main_ok s A h s' \<longleftrightarrow> claims_ok s' h \<and> same_ends s s' \<and> (\<forall>fd. fd \<notin> A \<longrightarrow> conns s' fd = conns s fd)"

lemma main_ok_trans: "main_ok s A h s1 \<Longrightarrow> main_ok s1 B h' s2 \<Longrightarrow> main_ok s (A \<union> B) h' s2"
  by (auto simp: main_ok_def same_ends_def)

lemma same_ends_peer: "same_ends s s' \<Longrightarrow> peer s' = peer s"
  by (simp add: same_ends_def peer_def fun_eq_iff)

lemma adjust_same: "adjust_timer s now a = Inr s' \<Longrightarrow> same_hold s s' \<and> conns s' = conns s"
  by (auto simp: adjust_timer_def same_hold_def same_ends_def set_cd_timer_def
      elim!: rbindE split: option.splits prod.splits if_splits)

lemma adjust_if_same: "adjust_if s now t = Inr s' \<Longrightarrow> same_hold s s' \<and> conns s' = conns s"
  using adjust_same by (auto simp: adjust_if_def split: option.splits)

lemma callback_closes:
  assumes "run_callback ut cb u k = Inr k'"
  shows "\<exists>i d. u = Some i \<and> ut i = Some d \<and> k' = (removefd k (cd_sockfd d))\<lparr>m_user_count := m_user_count k - 1\<rparr>"
  using assms
  by (auto simp: run_callback_def cb_close_def removefd_def Let_def close_fd_def epoll_ctl_del_def split: option.splits callback.splits)

lemma shrinks_close: "shrinks k ((removefd k fd)\<lparr>m_user_count := n\<rparr>)"
  by (simp add: shrinks_def os_ops)

lemma claims_less:
  assumes "claims_ok s h" and "\<And>fd. peer s fd \<Longrightarrow> h' fd \<le> h fd"
  shows "claims_ok s h'"
  by (rule claims_same [OF assms(1) same_hold_refl assms(2)])

text \<open>Closing a connection that neither the queue nor anybody outside holds.\<close>

lemma claims_close:
  assumes "claims_ok s h" and "peer s fd" and "fd \<notin> set (m_workqueue (requests s))" and "h fd = 0"
  shows "claims_ok (s\<lparr>kernel := (removefd (kernel s) fd)\<lparr>m_user_count := n\<rparr>\<rparr>) h"
proof (rule claims_shrink [OF assms(1) shrinks_close])
  show "fd_open ((removefd (kernel s) fd)\<lparr>m_user_count := n\<rparr>) (ws_listenfd s)"
    "fd_open ((removefd (kernel s) fd)\<lparr>m_user_count := n\<rparr>) (ws_pipefd0 s)"
    using assms(2) claims_parts(1,2) [OF assms(1)] by (auto simp: peer_def)
  show "fd_open ((removefd (kernel s) fd)\<lparr>m_user_count := n\<rparr>) g"
    if g: "peer s g" "g \<in> set (m_workqueue (requests s)) \<or> 0 < h g" for g
  proof -
    have "g \<noteq> fd" using g(2) assms(3,4) by auto
    moreover have "0 < server_holders s g + h g" using g(2) by (auto simp: server_holders_def)
    ultimately show ?thesis using claims_peer(2) [OF assms(1) g(1)] by simp
  qed
qed simp

lemma deal_timer_claims:
  assumes "claims_ok s h" and "peer s fd" and "fd \<notin> set (m_workqueue (requests s))" and "h fd = 0"
    and "deal_timer s t fd = Inr s'"
  shows "main_ok s {} h s'"
proof -
  obtain k w cb where k: "run_callback (users_timer s) cb (Some fd) (kernel s) = Inr k" and s': "s' = s\<lparr>kernel := k, timer_lst := w\<rparr>"
    using assms(5) by (auto simp: deal_timer_def elim!: rbindE)
  obtain d where d: "users_timer s fd = Some d" "k = (removefd (kernel s) (cd_sockfd d))\<lparr>m_user_count := m_user_count (kernel s) - 1\<rparr>"
    using callback_closes [OF k] by auto
  then have k': "k = (removefd (kernel s) fd)\<lparr>m_user_count := m_user_count (kernel s) - 1\<rparr>"
    using claims_parts(4) [OF assms(1)] by simp
  have "claims_ok (s\<lparr>kernel := k\<rparr>) h" unfolding k' by (rule claims_close [OF assms(1-4)])
  then have "claims_ok s' h"
    by (rule claims_same) (auto simp: s' same_hold_def same_ends_def)
  then show ?thesis by (simp add: main_ok_def s' same_ends_def)
qed

lemma held_close:
  assumes "claims_ok s (h(fd := Suc (h fd)))" and "peer s fd" and "deal_timer s t fd = Inr s'"
  shows "main_ok s {} h s'"
proof -
  have "claims_ok s h" by (rule claims_less [OF assms(1)]) simp
  then show ?thesis by (rule deal_timer_claims [OF _ assms(2) _ _ assms(3)]) (use claims_only [OF assms(1,2)] in simp_all)
qed

text \<open>Accepting: the new descriptor is nobody's yet.\<close>

lemma init_conn_result:
  assumes "init_conn k c fd addr root mode cl user passwd db = Inr (k', c')"
  shows "k' = (addfd k fd True (m_TRIGMode c))\<lparr>m_user_count := m_user_count k + 1\<rparr>" and "m_sockfd c' = fd"
    and "m_read_idx c' = 0" and "mysql c' = None" and "m_TRIGMode c' = mode"
  using assms by (auto simp: init_conn_def Let_def init_def elim!: rbindE)

lemma new_client_result:
  assumes "new_client s now fd addr = Inr s'"
  shows "kernel s' = (addfd (kernel s) fd True (m_TRIGMode (conns s fd)))\<lparr>m_user_count := m_user_count (kernel s) + 1\<rparr>"
    and "m_sockfd (conns s' fd) = fd" and "\<And>g. g \<noteq> fd \<Longrightarrow> conns s' g = conns s g" and "requests s' = requests s"
    and "same_ends s s'" and "0 \<le> fd" and "m_read_idx (conns s' fd) = 0" and "mysql (conns s' fd) = None"
    and "ws_CONNTrigmode s = Some (m_TRIGMode (conns s' fd))" and "users_timer s' i = Some d \<Longrightarrow> i = fd \<and> cd_sockfd d = fd \<or> users_timer s i = Some d"
  using assms init_conn_result
  by (auto simp: new_client_def same_ends_def in_users_def elim!: rbindE split: if_splits option.splits prod.splits; blast)+

lemma open_claims:
  assumes "claims_ok s h" and "\<not> fd_open (kernel s) fd"
  shows "claims_ok (s\<lparr>kernel := (kernel s)\<lparr>fd_open := (fd_open (kernel s))(fd := True)\<rparr>\<rparr>) h"
    and "peer s fd" and "server_holders s fd = 0" and "h fd = 0"
proof -
  show p: "peer s fd" using assms claims_parts(1,2) [OF assms(1)] by (auto simp: peer_def)
  have "\<not> 0 < server_holders s fd + h fd" using claims_peer(2) [OF assms(1) p] assms(2) by metis
  then show "server_holders s fd = 0" "h fd = 0" by simp_all
  let ?s = "s\<lparr>kernel := (kernel s)\<lparr>fd_open := (fd_open (kernel s))(fd := True)\<rparr>\<rparr>"
  have q: "peer ?s g = peer s g" "server_holders ?s g = server_holders s g" for g
    by (simp_all add: peer_def server_holders_def armed_def)
  show "claims_ok ?s h"
    by (rule claimsI; (unfold q)?)
      (use claims_parts [OF assms(1)] claims_peer [OF assms(1)] in auto)
qed

lemma new_client_claims:
  assumes "claims_ok s h" and "peer s fd" and "server_holders s fd = 0" and "h fd = 0"
    and "fd_open (kernel s) fd" and "new_client s now fd addr = Inr s'"
  shows "main_ok s {fd} h s'"
proof -
  note r = new_client_result [OF assms(6)]
  have p: "peer s' = peer s" using r(5) by (rule same_ends_peer)
  have other: "server_holders s' g = server_holders s g" if "g \<noteq> fd" for g
    using that by (simp add: server_holders_def r(1,4) armed_def ep_table_other)
  have "fd \<notin> set (m_workqueue (requests s))" using assms(3) by (simp add: server_holders_def count_list_0_iff split: if_splits)
  then have self: "server_holders s' fd \<le> 1" by (simp add: server_holders_def r(4) count_list_0_iff)
  have "claims_ok s' h"
  proof (rule claimsI; (unfold p)?)
    fix g m assume "peer s g" "ep_table (kernel s') g = Some m"
    then show "has_event m EPOLLONESHOT"
      using claims_peer(3) [OF assms(1), of g m] connection_events_one_shot(1)
      by (auto simp: r(1) os_ops split: if_splits)
  next
    fix g assume g: "peer s g"
    show "server_holders s' g + h g \<le> 1"
      using self assms(4) other [of g] claims_peer(1) [OF assms(1) g] by (cases "g = fd") auto
    assume "0 < server_holders s' g + h g"
    then show "fd_open (kernel s') g \<and> m_sockfd (conns s' g) = g"
      using r(2) r(3) [of g] assms(5) other [of g] claims_peer(2) [OF assms(1) g] by (cases "g = fd") (auto simp: r(1))
  next
    fix i d assume "users_timer s' i = Some d"
    from r(10) [OF this] claims_parts(4) [OF assms(1), of i d] assms(2) show "cd_sockfd d = i \<and> peer s i" by auto
  next
    show "ep_table (kernel s') (- 1) = None" using claims_parts(3) [OF assms(1)] r(6) by (simp add: r(1) ep_table_other)
  qed (use claims_parts [OF assms(1)] r(1,4,5) in \<open>auto simp: same_ends_def\<close>)
  with r(3,5) show ?thesis by (simp add: main_ok_def)
qed

lemma accept_one_claims:
  assumes "claims_ok s h" and "\<forall>fd \<in> set (accepted_fd r). \<not> fd_open (kernel s) fd" and "accept_one s now r = Inr (s', go)"
  shows "main_ok s (set (accepted_fd r)) h s'"
    and "go \<Longrightarrow> \<forall>g. g \<notin> set (accepted_fd r) \<longrightarrow> fd_open (kernel s') g = fd_open (kernel s) g"
proof -
  have "main_ok s (set (accepted_fd r)) h s'
    \<and> (go \<longrightarrow> (\<forall>g. g \<notin> set (accepted_fd r) \<longrightarrow> fd_open (kernel s') g = fd_open (kernel s) g))"
  proof (cases r)
    case Accept_Failed
    with assms show ?thesis by (simp add: accept_one_def main_ok_def same_ends_def)
  next
    case (Accepted fd addr)
    let ?k = "(kernel s)\<lparr>fd_open := (fd_open (kernel s))(fd := True)\<rparr>" and ?A = "set (accepted_fd r)"
    let ?s = "s\<lparr>kernel := ?k\<rparr>"
    have A: "?A = {fd}" and fd: "\<not> fd_open (kernel s) fd" using assms(2) by (simp_all add: Accepted accepted_fd_def)
    note o = open_claims [OF assms(1) fd]
    have q: "peer ?s fd" "server_holders ?s fd = 0" "fd_open (kernel ?s) fd" "same_ends s ?s"
      using o(2,3) by (simp_all add: peer_def server_holders_def armed_def same_ends_def)
    have first: "main_ok s ?A h ?s" using o(1) q(4) by (simp add: main_ok_def)
    show ?thesis
    proof (cases "m_user_count ?k \<ge> MAX_FD")
      case True
      then have s': "s' = ?s\<lparr>kernel := close_fd ?k fd\<rparr>" "\<not> go"
        using assms(3) by (simp_all add: accept_one_def Accepted show_error_def)
      have e: "(removefd (kernel ?s) fd)\<lparr>m_user_count := m_user_count ?k\<rparr> = close_fd ?k fd"
        by (simp add: os_ops)
      have "fd \<notin> set (m_workqueue (requests ?s))" using q(2) by (simp add: server_holders_def count_list_0_iff split: if_splits)
      from claims_close [OF o(1) q(1) this o(4), of "m_user_count ?k"] have "claims_ok s' h" unfolding s' e .
      with s' q(4) show ?thesis by (simp add: main_ok_def same_ends_def)
    next
      case False
      then obtain s2 where s2: "new_client ?s now fd addr = Inr s2" "s' = s2"
        using assms(3) by (auto simp: accept_one_def Accepted elim: rbindE)
      have "main_ok ?s {fd} h s2" by (rule new_client_claims [OF o(1) q(1,2) o(4) q(3) s2(1)])
      with first have "main_ok s ?A h s'" unfolding s2(2) A by (auto simp: main_ok_def same_ends_def)
      with new_client_result(1) [OF s2(1)] s2(2) A show ?thesis by simp
    qed
  qed
  then show "main_ok s (set (accepted_fd r)) h s'"
    "go \<Longrightarrow> \<forall>g. g \<notin> set (accepted_fd r) \<longrightarrow> fd_open (kernel s') g = fd_open (kernel s) g" by blast+
qed

lemma accept_all_claims:
  "claims_ok s h \<Longrightarrow> new_fds (kernel s) rs \<Longrightarrow> accept_all s now rs = Inr s' \<Longrightarrow>
    main_ok s (set (concat (map accepted_fd rs))) h s'"
proof (induction rs arbitrary: s)
  case Nil
  then show ?case by (simp add: main_ok_def same_ends_def)
next
  case (Cons r rs)
  obtain s1 go where s1: "accept_one s now r = Inr (s1, go)" and rest: "(if go then accept_all s1 now rs else Inr s1) = Inr s'"
    using Cons.prems(3) by (auto elim: rbindE)
  have n: "\<forall>fd \<in> set (accepted_fd r). \<not> fd_open (kernel s) fd" using Cons.prems(2) by (simp add: new_fds_def)
  note one = accept_one_claims [OF Cons.prems(1) n s1]
  show ?case
  proof (cases go)
    case True
    have "new_fds (kernel s1) rs" using Cons.prems(2) one(2) [OF True] by (auto simp: new_fds_def)
    with Cons.IH [of s1] one(1) rest True have "main_ok s1 (set (concat (map accepted_fd rs))) h s'"
      by (simp add: main_ok_def)
    from main_ok_trans [OF one(1) this] show ?thesis by simp
  next
    case False
    with rest one(1) show ?thesis by (auto simp: main_ok_def)
  qed
qed

lemma dealclinetdata_claims:
  assumes "claims_ok s h" and "new_fds (kernel s) rs" and "dealclinetdata s now rs = Inr (s', b)"
  shows "main_ok s (set (concat (map accepted_fd rs))) h s'"
proof (cases "ws_LISTENTrigmode s = Some 0")
  case True
  show ?thesis
  proof (cases rs)
    case Nil
    with True assms show ?thesis by (simp add: dealclinetdata_def main_ok_def same_ends_def)
  next
    case (Cons r rs')
    have "main_ok s (set (accepted_fd r)) h s'"
      by (rule accept_one_claims(1) [OF assms(1)]) (use True assms Cons in \<open>auto simp: dealclinetdata_def new_fds_def\<close>)
    then show ?thesis by (auto simp: main_ok_def Cons)
  qed
next
  case False
  with assms accept_all_claims [OF assms(1,2)] show ?thesis by (auto simp: dealclinetdata_def elim!: rbindE split: option.splits)
qed

text \<open>Reading: the connection goes into the queue, or is closed, or (when the queue is full) is forgotten.\<close>

lemma same_hold_conn:
  "m_sockfd c = m_sockfd (conns s fd) \<Longrightarrow> same_hold s (s\<lparr>conns := (conns s)(fd := c)\<rparr>)"
  by (auto simp: same_hold_def same_ends_def)

lemma append_state_cases:
  "append_state p st fd n = (q, st', b) \<Longrightarrow> b \<and> m_workqueue q = m_workqueue p @ [fd] \<or> \<not> b \<and> q = p"
  by (auto simp: append_state_def split: if_splits)

lemma append_p_cases:
  "append_p p fd = (q, b) \<Longrightarrow> b \<and> m_workqueue q = m_workqueue p @ [fd] \<or> \<not> b \<and> q = p"
  by (auto simp: append_p_def split: if_splits)

lemma enqueue_claims:
  assumes "claims_ok s (h(fd := Suc (h fd)))" and "peer s fd" and "m_sockfd c = m_sockfd (conns s fd)"
    and "b \<and> m_workqueue q = m_workqueue (requests s) @ [fd] \<or> \<not> b \<and> q = requests s"
  shows "main_ok s {fd} h (s\<lparr>conns := (conns s)(fd := c), requests := q\<rparr>)"
proof -
  let ?s = "s\<lparr>conns := (conns s)(fd := c)\<rparr>"
  have 1: "claims_ok ?s (h(fd := Suc (h fd)))" by (rule claims_same [OF assms(1) same_hold_conn [OF assms(3)]]) simp
  have p: "peer ?s fd" using assms(2) by (simp add: peer_def)
  have "claims_ok (?s\<lparr>requests := q\<rparr>) h"
  proof (cases b)
    case True
    then show ?thesis using claims_append [OF 1 p, of q] assms(4) by simp
  next
    case False
    then show ?thesis using claims_less [OF 1, of h] assms(4) by simp
  qed
  then show ?thesis by (simp add: main_ok_def same_ends_def)
qed

lemma main_ok_adjust: "main_ok s A h s1 \<Longrightarrow> adjust_if s1 now t = Inr s2 \<Longrightarrow> main_ok s A h s2"
  using adjust_if_same [of s1 now t s2] claims_same [of s1 h s2 h]
  by (auto simp: main_ok_def same_hold_def same_ends_def)

lemma adjust_claims:
  assumes "claims_ok s h" and "peer s fd" and "adjust_if s now t = Inr s1"
  shows "claims_ok s1 h" and "peer s1 fd" and "same_ends s s1" and "conns s1 = conns s"
  using adjust_if_same [OF assms(3)] claims_same [OF assms(1), of s1 h] assms(2)
  by (auto simp: same_hold_def same_ends_def peer_def)

lemma main_ok_from: "same_ends s s1 \<Longrightarrow> conns s1 = conns s \<Longrightarrow> main_ok s1 A h s2 \<Longrightarrow> main_ok s A h s2"
  by (auto simp: main_ok_def same_ends_def)

lemma conn_close:
  assumes "claims_ok s (h(fd := Suc (h fd)))" and "peer s fd" and "m_sockfd c = m_sockfd (conns s fd)"
    and "deal_timer (s\<lparr>conns := (conns s)(fd := c)\<rparr>) t fd = Inr s'"
  shows "main_ok s {fd} h s'"
proof -
  let ?s = "s\<lparr>conns := (conns s)(fd := c)\<rparr>"
  have "claims_ok ?s (h(fd := Suc (h fd)))" by (rule claims_same [OF assms(1) same_hold_conn [OF assms(3)]]) simp
  moreover have "peer ?s fd" using assms(2) by (simp add: peer_def)
  ultimately have "main_ok ?s {} h s'" by (rule held_close [OF _ _ assms(4)])
  then show ?thesis by (auto simp: main_ok_def same_ends_def)
qed

lemma dealwithread_claims:
  assumes "claims_ok s (h(fd := Suc (h fd)))" and "peer s fd" and "dealwithread s now fd rs = Inr s'"
  shows "main_ok s {fd} h s'"
proof (cases "ws_actormodel s = 1")
  case True
  obtain t s1 where t: "user_timer s fd = Inr t" and s1: "adjust_if s now t = Inr s1"
    using assms(3) True by (auto simp: dealwithread_def elim!: rbindE)
  obtain c ok where c: "read_once (conns s1 fd) rs = (c, ok)" by fastforce
  note a = adjust_claims [OF assms(1,2) s1]
  have sock: "m_sockfd c = m_sockfd (conns s1 fd)" by (rule read_once_sockfd [OF c])
  have "main_ok s1 {fd} h s'"
  proof (cases ok)
    case True
    obtain q st b where q: "append_state (requests s1) (\<lambda>g. if g = fd then 0 else m_state (conns s1 g)) fd 0 = (q, st, b)"
      by (metis prod_cases3)
    have s': "s' = s1\<lparr>conns := (conns s1)(fd := c\<lparr>improv := 0, m_state := st fd\<rparr>), requests := q\<rparr>"
      using assms(3) \<open>ws_actormodel s = 1\<close> True by (simp add: dealwithread_def t s1 c q)
    show ?thesis unfolding s'
      by (rule enqueue_claims [OF a(1,2)]) (use sock append_state_cases [OF q] in simp_all)
  next
    case False
    then have "deal_timer (s1\<lparr>conns := (conns s1)(fd := c)\<rparr>) t fd = Inr s'"
      using assms(3) \<open>ws_actormodel s = 1\<close> by (simp add: dealwithread_def t s1 c)
    then show ?thesis by (rule conn_close [OF a(1,2) sock])
  qed
  then show ?thesis by (rule main_ok_from [OF a(3,4)])
next
  case model: False
  obtain t where t: "user_timer s fd = Inr t" using assms(3) by (auto simp: dealwithread_def elim: rbindE)
  obtain c ok where c: "read_once (conns s fd) rs = (c, ok)" by fastforce
  have sock: "m_sockfd c = m_sockfd (conns s fd)" by (rule read_once_sockfd [OF c])
  show ?thesis
  proof (cases ok)
    case True
    obtain q b where q: "append_p (requests s) fd = (q, b)" by fastforce
    let ?s = "s\<lparr>conns := (conns s)(fd := c), requests := q\<rparr>"
    have "adjust_if ?s now t = Inr s'" using assms(3) model True by (simp add: dealwithread_def t c q Let_def)
    moreover have "main_ok s {fd} h ?s" by (rule enqueue_claims [OF assms(1,2) sock append_p_cases [OF q]])
    ultimately show ?thesis by (rule main_ok_adjust [rotated])
  next
    case False
    then have "deal_timer (s\<lparr>conns := (conns s)(fd := c)\<rparr>) t fd = Inr s'"
      using assms(3) model by (simp add: dealwithread_def t c Let_def)
    then show ?thesis by (rule conn_close [OF assms(1,2) sock])
  qed
qed

text \<open>Writing: the connection is armed again, or left alone, or closed.\<close>

definition rearms :: "os \<Rightarrow> int \<Rightarrow> os \<Rightarrow> bool" where
  "rearms k fd k' \<longleftrightarrow> k' = k \<or> (\<exists>ev t. k' = modfd k fd ev t)"

lemma rearms_simps [simp]: "rearms k fd k" "rearms k fd (modfd k fd ev t)"
  by (auto simp: rearms_def)

lemma write_loop_kernel:
  "write_loop k c rs = Inr (k', c', out, ok) \<Longrightarrow>
    rearms k (m_sockfd c) k' \<and> m_sockfd c' = m_sockfd c"
proof (induction k c rs arbitrary: c' out rule: write_loop.induct)
  case (3 k c n rs)
  obtain m where m: "outgoing c = Inr m" using "3.prems" by (auto elim: rbindE)
  let ?c1 = "after_send c (int (length (take n m)))"
  have f: "m_sockfd ?c1 = m_sockfd c" by (simp add: after_send_def Let_def)
  show ?case
  proof (cases "bytes_to_send ?c1 \<le> 0")
    case True
    with "3.prems" m f show ?thesis
      by (auto simp: Let_def init_frames elim!: rbindE split: if_splits dest!: unmap_sockfd)
  next
    case False
    then obtain o1 where "write_loop k ?c1 rs = Inr (k', c', o1, ok)"
      using "3.prems" m by (auto simp: Let_def elim!: rbindE)
    from "3.IH" [OF m refl refl False this] f show ?thesis by simp
  qed
qed (auto elim!: rbindE split: if_splits dest: unmap_sockfd)

lemma write_conn_kernel:
  "write_conn k c rs = Inr (k', c', out, ok) \<Longrightarrow>
    rearms k (m_sockfd c) k' \<and> m_sockfd c' = m_sockfd c"
  by (auto simp: write_conn_def init_frames split: if_splits dest!: write_loop_kernel)

lemma claims_rearm:
  assumes "claims_ok s (h(fd := Suc (h fd)))" and "peer s fd" and "rearms (kernel s) (m_sockfd (conns s fd)) k"
    and "m_sockfd c = m_sockfd (conns s fd)"
  shows "main_ok s {fd} h (s\<lparr>kernel := k, conns := (conns s)(fd := c)\<rparr>)"
proof -
  have "claims_ok (s\<lparr>kernel := k\<rparr>) h"
  proof (cases "k = kernel s")
    case True
    then show ?thesis using claims_less [OF assms(1), of h] by simp
  next
    case False
    then show ?thesis using assms(3) claims_modfd [OF assms(1,2)] by (auto simp: rearms_def)
  qed
  moreover have "same_hold (s\<lparr>kernel := k\<rparr>) (s\<lparr>kernel := k, conns := (conns s)(fd := c)\<rparr>)"
    using same_hold_conn [of c "s\<lparr>kernel := k\<rparr>" fd] assms(4) by simp
  ultimately have "claims_ok (s\<lparr>kernel := k, conns := (conns s)(fd := c)\<rparr>) h" by (rule claims_same) simp
  then show ?thesis by (simp add: main_ok_def same_ends_def)
qed

lemma write_claims:
  assumes "claims_ok s (h(fd := Suc (h fd)))" and "peer s fd"
    and "write_conn (kernel s) (conns s fd) rs = Inr (k, c, out, ok)"
  defines "s1 \<equiv> s\<lparr>kernel := k, conns := (conns s)(fd := c)\<rparr>"
  shows "main_ok s {fd} h s1" and "deal_timer s1 t fd = Inr s' \<Longrightarrow> main_ok s {fd} h s'"
proof -
  note w = write_conn_kernel [OF assms(3)]
  show m: "main_ok s {fd} h s1" unfolding s1_def by (rule claims_rearm [OF assms(1,2)]) (use w in simp_all)
  assume d: "deal_timer s1 t fd = Inr s'"
  have "main_ok s1 {} h s'"
    by (rule deal_timer_claims [OF _ _ _ _ d])
      (use m claims_only [OF assms(1,2)] assms(2) in \<open>simp_all add: main_ok_def s1_def peer_def\<close>)
  with m show "main_ok s {fd} h s'" using main_ok_trans [of s "{fd}" h s1 "{}" h s'] by simp
qed

lemma dealwithwrite_claims:
  assumes "claims_ok s (h(fd := Suc (h fd)))" and "peer s fd" and "dealwithwrite s now fd rs = Inr s'"
  shows "main_ok s {fd} h s'"
proof (cases "ws_actormodel s = 1")
  case True
  obtain t s1 k c out ok where t: "user_timer s fd = Inr t" and s1: "adjust_if s now t = Inr s1"
    and w: "write_conn (kernel s1) (conns s1 fd) rs = Inr (k, c, out, ok)"
    and e: "(if ok then Inr (s1\<lparr>kernel := k, conns := (conns s1)(fd := c)\<rparr>)
        else deal_timer (s1\<lparr>kernel := k, conns := (conns s1)(fd := c)\<rparr>) t fd) = Inr s'"
    using assms(3) True by (auto simp: dealwithwrite_def Let_def elim!: rbindE)
  note a = adjust_claims [OF assms(1,2) s1]
  have "main_ok s1 {fd} h s'" using write_claims [OF a(1,2) w] e by (auto split: if_splits)
  then show ?thesis by (rule main_ok_from [OF a(3,4)])
next
  case False
  obtain t k c out ok where t: "user_timer s fd = Inr t"
    and w: "write_conn (kernel s) (conns s fd) rs = Inr (k, c, out, ok)"
    and e: "(if ok then adjust_if (s\<lparr>kernel := k, conns := (conns s)(fd := c)\<rparr>) now t
        else deal_timer (s\<lparr>kernel := k, conns := (conns s)(fd := c)\<rparr>) t fd) = Inr s'"
    using assms(3) False by (auto simp: dealwithwrite_def Let_def elim!: rbindE)
  show ?thesis
  proof (cases ok)
    case True
    with e show ?thesis using main_ok_adjust [OF write_claims(1) [OF assms(1,2) w]] by simp
  next
    case False
    with e show ?thesis using write_claims(2) [OF assms(1,2) w] by simp
  qed
qed

text \<open>One event: \<open>h\<close> counts the holders without the event.\<close>

lemma handle_event_claims:
  assumes "claims_ok s (h(ev_fd e := Suc (h (ev_fd e))))" and "new_fds (kernel s) (ev_accept e)"
    and "handle_event s now flags e = Inr (s', flags')"
  shows "main_ok s (insert (ev_fd e) (set (concat (map accepted_fd (ev_accept e))))) h s'"
proof -
  let ?fd = "ev_fd e" and ?A = "set (concat (map accepted_fd (ev_accept e)))"
  have less: "claims_ok s h" by (rule claims_less [OF assms(1)]) simp
  have wide: "main_ok s B h s'" if "main_ok s A h s'" "A \<subseteq> B" for A B using that by (auto simp: main_ok_def)
  have stay: "main_ok s B h s" for B using less by (simp add: main_ok_def same_ends_def)
  consider (listen) b where "?fd = ws_listenfd s" "dealclinetdata s now (ev_accept e) = Inr (s', b)"
    | (hup) t where "?fd \<noteq> ws_listenfd s" "user_timer s ?fd = Inr t" "deal_timer s t ?fd = Inr s'"
    | (same) "s' = s"
    | (read) "peer s ?fd" "dealwithread s now ?fd (ev_recv e) = Inr s'"
    | (sends) "peer s ?fd" "dealwithwrite s now ?fd (ev_writev e) = Inr s'"
    | (pipe) "?fd = ws_pipefd0 s" "dealwithread s now ?fd (ev_recv e) = Inr s' \<or> dealwithwrite s now ?fd (ev_writev e) = Inr s'"
    using assms(3)
    by (cases "?fd = ws_pipefd0 s") (auto simp: handle_event_def Let_def peer_def elim!: rbindE split: if_splits)
  then show ?thesis
  proof cases
    case listen
    from dealclinetdata_claims [OF less assms(2) listen(2)] show ?thesis by (rule wide) auto
  next
    case hup
    obtain d where "users_timer s ?fd = Some d" using hup(2) by (auto simp: user_timer_def split: if_splits option.splits)
    then have "peer s ?fd" using claims_parts(4) [OF assms(1)] by blast
    from held_close [OF assms(1) this hup(3)] show ?thesis by (rule wide) simp
  next
    case same
    with stay show ?thesis by simp
  next
    case read
    from dealwithread_claims [OF assms(1) read] show ?thesis by (rule wide) simp
  next
    case sends
    from dealwithwrite_claims [OF assms(1) sends] show ?thesis by (rule wide) simp
  next
    case pipe
    then obtain t where "user_timer s ?fd = Inr t" by (auto simp: dealwithread_def dealwithwrite_def elim: rbindE)
    then obtain d where "users_timer s ?fd = Some d" by (auto simp: user_timer_def split: if_splits option.splits)
    then have "peer s ?fd" using claims_parts(4) [OF assms(1)] by blast
    with pipe(1) show ?thesis by (simp add: peer_def)
  qed
qed


text \<open>A tick only closes, and only descriptors of \<open>users_timer\<close>.\<close>

definition user_closes :: "(int \<Rightarrow> client_data option) \<Rightarrow> os \<Rightarrow> os \<Rightarrow> bool" where
  "user_closes ut k k' \<longleftrightarrow> shrinks k k' \<and> m_user_count k' \<le> m_user_count k
     \<and> (\<forall>fd. (\<forall>i d. ut i = Some d \<longrightarrow> cd_sockfd d \<noteq> fd) \<longrightarrow>
           fd_open k' fd = fd_open k fd \<and> ep_table k' fd = ep_table k fd)"

lemma user_closes_trans: "user_closes ut a b \<Longrightarrow> user_closes ut b c \<Longrightarrow> user_closes ut a c"
  unfolding user_closes_def by (metis shrinks_trans order.trans)

lemma callback_user_closes: "run_callback ut cb u k = Inr k' \<Longrightarrow> user_closes ut k k'"
  by (drule callback_closes) (auto simp: user_closes_def shrinks_close ep_table_other; metis ep_table_other(2))

lemma tick_loop_user_closes:
  "tick_loop run w k tmp = Some r \<Longrightarrow> run = run_callback ut \<longrightarrow> (\<forall>w' k'. r = Inr (w', k') \<longrightarrow> user_closes ut k k')"
proof (erule tick_loop.raw_induct [rotated], intro impI allI)
  fix rec :: "os runner \<Rightarrow> time_wheel \<Rightarrow> os \<Rightarrow> addr option \<Rightarrow> (time_wheel \<times> os) res option"
    and run w k tmp r w' k'
  assume IH: "\<And>run w k tmp r. rec run w k tmp = Some r \<Longrightarrow>
      run = run_callback ut \<longrightarrow> (\<forall>w' k'. r = Inr (w', k') \<longrightarrow> user_closes ut k k')"
    and eq: "(case tmp of None \<Rightarrow> Some (Inr (w, k))
      | Some a \<Rightarrow> (case deref w tmp of Inl e \<Rightarrow> Some (Inl e)
          | Inr t \<Rightarrow> if 0 < rotation t
              then (case assign w tmp (\<lambda>t. t\<lparr>rotation := rotation t - 1\<rparr>) of Inl e \<Rightarrow> Some (Inl e)
                 | Inr w1 \<Rightarrow> rec run w1 k (t_next t))
              else (case run (cb_func t) (user_data t) k of Inl e \<Rightarrow> Some (Inl e)
                 | Inr s1 \<Rightarrow> (case expire_node w a of Inl e \<Rightarrow> Some (Inl e)
                     | Inr v \<Rightarrow> rec run (fst v) s1 (snd v))))) = Some r"
    and run: "run = run_callback ut" and r: "r = Inr (w', k')"
  show "user_closes ut k k'"
  proof (cases tmp)
    case None
    with eq r show ?thesis by (simp add: user_closes_def)
  next
    case (Some a)
    obtain t where t: "deref w tmp = Inr t" using eq r Some by (cases "deref w tmp") auto
    show ?thesis
    proof (cases "0 < rotation t")
      case True
      then obtain w1 where "rec run w1 k (t_next t) = Some r"
        using eq r Some t by (auto split: sum.splits)
      from IH [OF this] run r show ?thesis by blast
    next
      case False
      then obtain k1 v where k1: "run (cb_func t) (user_data t) k = Inr k1"
          and v: "rec run (fst v) k1 (snd v) = Some r"
        using eq r Some t by (auto split: sum.splits)
      have "user_closes ut k k1" using k1 run callback_user_closes by blast
      moreover have "user_closes ut k1 k'" using IH [OF v] run r by blast
      ultimately show ?thesis by (rule user_closes_trans)
    qed
  qed
qed

lemma timer_handler_closes:
  assumes "timer_handler s = Some (Inr s')"
  shows "user_closes (users_timer s) (kernel s) (kernel s')" and "same_ends s s'" and "conns s' = conns s"
    and "requests s' = requests s" and "users_timer s' = users_timer s" and "same_conf s s'"
proof -
  obtain w k where t: "tick (run_callback (users_timer s)) (timer_lst s) (kernel s) = Some (Inr (w, k))"
    and s': "s' = s\<lparr>timer_lst := w, kernel := k, alarm_set := TIMESLOT\<rparr>"
    using assms by (auto simp: timer_handler_def elim!: rbindE)
  have "user_closes (users_timer s) (kernel s) k"
    using t tick_loop_user_closes [of "run_callback (users_timer s)" _ _ _ _ "users_timer s"]
    by (auto simp: tick_def split: sum.splits option.splits)
  with s' show "user_closes (users_timer s) (kernel s) (kernel s')" "same_ends s s'" "conns s' = conns s"
    "requests s' = requests s" "users_timer s' = users_timer s" "same_conf s s'"
    by (simp_all add: same_ends_def same_conf_def)
qed

lemma tick_claims:
  assumes "claims_ok s h" and "timer_handler s = Some (Inr s')"
    and "\<And>fd. peer s fd \<Longrightarrow> fd \<in> set (m_workqueue (requests s)) \<or> 0 < h fd \<Longrightarrow> fd_open (kernel s') fd"
  shows "main_ok s {} h s'"
proof -
  note c = timer_handler_closes [OF assms(2)]
  have "cd_sockfd d \<noteq> ws_listenfd s \<and> cd_sockfd d \<noteq> ws_pipefd0 s" if "users_timer s i = Some d" for i d
    using claims_parts(4) [OF assms(1) that] by (auto simp: peer_def)
  then have "fd_open (kernel s') (ws_listenfd s)" "fd_open (kernel s') (ws_pipefd0 s)"
    using c(1) claims_parts(1,2) [OF assms(1)] unfolding user_closes_def by blast+
  with c(1) assms(3) have "claims_ok (s\<lparr>kernel := kernel s'\<rparr>) h"
    by (intro claims_shrink [OF assms(1)]) (auto simp: user_closes_def)
  then have "claims_ok s' h" by (rule claims_same) (use c in \<open>auto simp: same_hold_def same_ends_def\<close>)
  with c(2,3) show ?thesis by (simp add: main_ok_def)
qed

section \<open>The steps of the workers\<close>

text \<open>\<open>process\<close> ends with \<open>modfd\<close>, or closes the connection and calls \<open>modfd\<close> for descriptor -1.\<close>

lemma process_read_same:
  assumes "process_read ext w c = Inr (v, d, ret)"
  shows "mysql d = mysql c \<and> m_sockfd d = m_sockfd c"
proof -
  obtain e x where e: "read_loop c LINE_OK = Inr (e, x)" using assms by (auto simp: process_read_def elim: rbindE)
  with read_loop_keeps [OF e] assms show ?thesis
    by (cases x) (auto simp: process_read_def keeps_def dest!: do_request_same)
qed

lemma process_kernel:
  assumes "process ext k w c = Inr (k1, w1, c1)"
  shows "rearms k (m_sockfd c) k1 \<and> m_sockfd c1 = m_sockfd c
    \<or> (\<exists>n. rearms ((removefd k (m_sockfd c))\<lparr>m_user_count := n\<rparr>) (- 1) k1) \<and> m_sockfd c1 = - 1"
proof -
  obtain d ret v where r: "process_read ext w c = Inr (v, d, ret)"
    using assms by (auto simp: process_def elim: rbindE)
  have m: "m_sockfd d = m_sockfd c" using process_read_same [OF r] by simp
  show ?thesis
  proof (cases "ret = NO_REQUEST")
    case True
    with assms r m show ?thesis by (auto simp: process_def)
  next
    case False
    obtain f b where f: "process_write d ret = (f, b)" by force
    then have s: "m_sockfd f = m_sockfd c" using process_write_same(2) [of d ret] m by simp
    show ?thesis
    proof (cases "b \<or> m_sockfd c = - 1")
      case True
      with assms r False f s show ?thesis by (auto simp: process_def close_conn_def split: if_splits prod.splits)
    next
      case False
      with assms r \<open>ret \<noteq> NO_REQUEST\<close> f s show ?thesis
        by (auto simp: process_def close_conn_def Let_def intro!: exI [of _ "m_user_count k - 1"])
    qed
  qed
qed

lemma process_claims:
  assumes "claims_ok s (h(fd := Suc (h fd)))" and "peer s fd"
    and "process ext (kernel s) w (conns s fd) = Inr (k, w1, c)"
  shows "main_ok s {fd} h ((put_conn s fd c)\<lparr>kernel := k\<rparr>)"
proof -
  note o = claims_only [OF assms(1,2)]
  have put: "(put_conn s fd c)\<lparr>kernel := k\<rparr> = s\<lparr>kernel := k, conns := (conns s)(fd := c)\<rparr>" by (simp add: put_conn_def)
  show ?thesis using process_kernel [OF assms(3)]
  proof (elim disjE conjE)
    assume "rearms (kernel s) (m_sockfd (conns s fd)) k" "m_sockfd c = m_sockfd (conns s fd)"
    from claims_rearm [OF assms(1,2) this] show ?thesis by (simp add: put)
  next
    assume "\<exists>n. rearms ((removefd (kernel s) (m_sockfd (conns s fd)))\<lparr>m_user_count := n\<rparr>) (- 1) k"
      and c: "m_sockfd c = - 1"
    then obtain n where n: "rearms ((removefd (kernel s) fd)\<lparr>m_user_count := n\<rparr>) (- 1) k" by (auto simp: o(4))
    let ?k = "(removefd (kernel s) fd)\<lparr>m_user_count := n\<rparr>"
    have less: "claims_ok s h" by (rule claims_less [OF assms(1)]) simp
    have cl: "claims_ok (s\<lparr>kernel := ?k\<rparr>) h" by (rule claims_close [OF less assms(2) o(6,2)])
    then have "ep_table ?k (- 1) = None" using claims_parts(3) [OF cl] by simp
    with n have k: "k = ?k" by (auto simp: rearms_def modfd_def epoll_ctl_mod_def)
    let ?s = "(put_conn s fd c)\<lparr>kernel := ?k\<rparr>"
    have p: "peer ?s g = peer s g" "server_holders ?s g = server_holders (s\<lparr>kernel := ?k\<rparr>) g" for g
      by (simp_all add: peer_def server_holders_def put_conn_def)
    have "\<not> 0 < server_holders (s\<lparr>kernel := ?k\<rparr>) fd + h fd"
      using o(2,6) by (simp add: server_holders_def armed_def)
    moreover have q: "peer (s\<lparr>kernel := ?k\<rparr>) = peer s" by (simp add: peer_def fun_eq_iff)
    ultimately have "claims_ok ?s h"
      using claims_parts [OF cl] claims_peer [OF cl, unfolded q]
      by (intro claimsI; (unfold p)?) (auto simp: put_conn_def simp del: add_gr_0)
    then show ?thesis by (simp add: main_ok_def same_ends_def put_conn_def k)
  qed
qed

section \<open>Every step keeps the claims\<close>

definition busy :: "('w, 'd) running \<Rightarrow> int \<Rightarrow> bool" where
  "busy r fd \<longleftrightarrow> fd \<in> set (m_workqueue (requests (main r))) \<or> (\<exists>w \<in> set (hands r). works_on fd w)"

text \<open>A step that does not close a connection which is in the queue or in a worker's hands.\<close>

definition calm :: "('w, 'd) running \<Rightarrow> ('w, 'd) running \<Rightarrow> bool" where
  "calm r r' \<longleftrightarrow> (\<forall>fd. busy r fd \<and> busy r' fd \<and> fd_open (kernel (main r)) fd \<longrightarrow> fd_open (kernel (main r')) fd)"

inductive calm_run :: "('w, 'd, 'f) outside \<Rightarrow> ('w, 'd) running \<Rightarrow> ('w, 'd) running \<Rightarrow> bool" for ext r0 where
  calm_start: "calm_run ext r0 r0"
| calm_next: "calm_run ext r0 r \<Longrightarrow> run_step ext r r' \<Longrightarrow> calm r r' \<Longrightarrow> calm_run ext r0 r'"

definition run_inv :: "('w, 'd) running \<Rightarrow> bool" where
  "run_inv r \<longleftrightarrow> claims_ok (main r) (outside_holders r)
     \<and> (\<forall>w \<in> set (hands r). \<forall>fd. works_on fd w \<longrightarrow> peer (main r) fd)"

lemma hands_update:
  assumes "i < length hs"
  shows "length (filter P (hs[i := v])) + (if P (hs ! i) then 1 else 0) = length (filter P hs) + (if P v then 1 else 0)"
  using cnt_update [OF assms, of P v] by (auto simp: cnt_def split: if_splits)

lemma works_on_simps [simp]:
  "works_on fd (Fetched g) \<longleftrightarrow> fd = g" "works_on fd (Connected g) \<longleftrightarrow> fd = g"
  "\<not> works_on fd Resting" "\<not> works_on fd (Answered g)" "\<not> works_on fd (Returned g)"
  by (auto simp: works_on_def)

text \<open>A worker's hand changes from \<open>w\<close> to \<open>v\<close>.\<close>

lemma outside_update:
  fixes r :: "('w, 'd) running"
  assumes "i < length (hands r)" and "hands r ! i = w" and "hands r' = (hands r)[i := v]" and "batch r' = batch r"
  shows "outside_holders r' fd + (if works_on fd w then 1 else 0) = outside_holders r fd + (if works_on fd v then 1 else 0)"
  using hands_update [OF assms(1), of "works_on fd" v] assms(2-4) by (simp add: outside_holders_def)

lemma hands_peer:
  assumes "\<forall>w \<in> set hs. \<forall>fd. works_on fd w \<longrightarrow> p fd" and "\<And>fd. works_on fd v \<Longrightarrow> p fd"
  shows "\<forall>w \<in> set (hs[i := v]). \<forall>fd. works_on fd w \<longrightarrow> p fd"
  using assms set_update_subset_insert [of hs i v] by auto

lemma inv_hand:
  assumes "run_inv r" and "i < length (hands r)" and "works_on fd (hands r ! i)"
  shows "peer (main r) fd"
  using assms by (auto simp: run_inv_def)

text \<open>A worker lets go of its connection.\<close>

lemma hand_off:
  fixes r :: "('w, 'd) running"
  assumes "i < length (hands r)" and "works_on fd (hands r ! i)" and "\<And>g. \<not> works_on g v"
  defines "h \<equiv> outside_holders (r\<lparr>hands := (hands r)[i := v]\<rparr>)"
  shows "outside_holders r = h(fd := Suc (h fd))"
proof
  fix g
  have "hands r ! i = Fetched fd \<or> hands r ! i = Connected fd" using assms(2) by (simp add: works_on_def)
  then show "outside_holders r g = (h(fd := Suc (h fd))) g"
    using outside_update [OF assms(1) refl, of "r\<lparr>hands := (hands r)[i := v]\<rparr>" v g] assms(3)
    by (auto simp: h_def)
qed

lemma claims_hold:
  assumes "claims_ok (main r) (outside_holders r)" and "\<And>fd. outside_holders r' fd = outside_holders r fd" and "same_hold (main r) (main r')"
  shows "claims_ok (main r') (outside_holders r')"
  by (rule claims_same [OF assms(1,3)]) (simp add: assms(2))

text \<open>\<open>epoll_wait\<close>: the reported entries move from the table into the batch.\<close>

definition disarms :: "os \<Rightarrow> int set \<Rightarrow> os \<Rightarrow> bool" where
  "disarms k A k' \<longleftrightarrow> fd_open k' = fd_open k
     \<and> (\<forall>g m. ep_table k' g = Some m \<longrightarrow> (\<exists>n. ep_table k g = Some n \<and> has_event m EPOLLONESHOT = has_event n EPOLLONESHOT))
     \<and> (\<forall>g. armed k' g \<longrightarrow> armed k g \<and> (g \<in> A \<longrightarrow> (\<exists>m. ep_table k g = Some m \<and> \<not> has_event m EPOLLONESHOT)))"

lemma disarms_one: "disarms k {fd} (disarm k fd)"
  by (auto simp: disarms_def disarm_armed) (auto simp: disarm_def disarmed_mask split: option.splits if_splits)

lemma disarms_trans: "disarms k A k1 \<Longrightarrow> disarms k1 B k2 \<Longrightarrow> disarms k (A \<union> B) k2"
  unfolding disarms_def by (intro conjI allI impI; (elim conjE)?) (simp, metis, metis, (metis UnE option.sel))

lemma disarms_all: "disarms k (set fds) (foldl disarm k fds)"
proof (induction fds arbitrary: k)
  case Nil
  then show ?case by (simp add: disarms_def)
next
  case (Cons fd fds)
  from disarms_trans [OF disarms_one Cons.IH] show ?case by simp
qed

lemma count_distinct: "distinct xs \<Longrightarrow> count_list xs x = (if x \<in> set xs then 1 else 0)"
  by (induction xs) auto

lemma inv_poll:
  assumes "run_inv r" and "batch r = []" and "epoll_wait (kernel (main r)) es = Some k"
  shows "run_inv (r\<lparr>main := (main r)\<lparr>kernel := k\<rparr>, batch := es\<rparr>)"
proof -
  let ?s = "main r" and ?r' = "r\<lparr>main := (main r)\<lparr>kernel := k\<rparr>, batch := es\<rparr>" and ?A = "set (map ev_fd es)"
  have cl: "claims_ok ?s (outside_holders r)" using assms(1) by (simp add: run_inv_def)
  have e: "distinct (map ev_fd es)" "\<forall>e \<in> set es. reported (kernel ?s) e" "k = foldl disarm (kernel ?s) (map ev_fd es)"
    using assms(3) by (auto simp: epoll_wait_def split: if_splits)
  then have d: "disarms (kernel ?s) ?A k" using disarms_all [of "kernel ?s" "map ev_fd es"] by metis
  have p: "peer ((main r)\<lparr>kernel := k\<rparr>) fd = peer ?s fd" for fd by (simp add: peer_def)
  have out: "outside_holders ?r' fd = outside_holders r fd + (if fd \<in> ?A then 1 else 0)" for fd
    unfolding outside_holders_def using count_distinct [OF e(1), of fd] assms(2) by simp
  have less: "server_holders (?s\<lparr>kernel := k\<rparr>) fd + outside_holders ?r' fd \<le> server_holders ?s fd + outside_holders r fd"
    if fd: "peer ?s fd" for fd
  proof (cases "fd \<in> ?A")
    case True
    then have "armed (kernel ?s) fd" using e(2) by (auto simp: reported_def armed_def split: option.splits)
    moreover have "\<not> armed k fd"
      using d True claims_peer(3) [OF cl fd] unfolding disarms_def by blast
    ultimately show ?thesis using True by (simp add: server_holders_def out)
  next
    case False
    have "armed k fd \<Longrightarrow> armed (kernel ?s) fd" using d by (auto simp: disarms_def)
    with False show ?thesis by (auto simp: server_holders_def out)
  qed
  have none: "ep_table k (- 1) = None"
    using d claims_parts(3) [OF cl] unfolding disarms_def by (metis option.exhaust option.distinct(1))
  have "claims_ok (?s\<lparr>kernel := k\<rparr>) (outside_holders ?r')"
  proof (rule claimsI; (unfold p)?)
    fix fd m assume "peer ?s fd" "ep_table (kernel (?s\<lparr>kernel := k\<rparr>)) fd = Some m"
    then show "has_event m EPOLLONESHOT" using d claims_peer(3) [OF cl, of fd] unfolding disarms_def by force
  next
    fix fd assume fd: "peer ?s fd"
    show "server_holders (?s\<lparr>kernel := k\<rparr>) fd + outside_holders ?r' fd \<le> 1"
      using less [OF fd] claims_peer(1) [OF cl fd] by linarith
    assume "0 < server_holders (?s\<lparr>kernel := k\<rparr>) fd + outside_holders ?r' fd"
    then have "0 < server_holders ?s fd + outside_holders r fd" using less [OF fd] by linarith
    from claims_peer(2) [OF cl fd this] d
    show "fd_open (kernel (?s\<lparr>kernel := k\<rparr>)) fd \<and> m_sockfd (conns (?s\<lparr>kernel := k\<rparr>) fd) = fd"
      by (simp add: disarms_def)
  qed (use none d claims_parts [OF cl] in \<open>auto simp: disarms_def\<close>)
  then show ?thesis using assms(1) by (simp add: run_inv_def p)
qed

lemma inv_event:
  assumes "run_inv r" and "batch r = e # es" and "new_fds (kernel (main r)) (ev_accept e)"
    and "handle_event (main r) now (loop_flags r) e = Inr (s, flags)"
  shows "run_inv (r\<lparr>main := s, batch := es, loop_flags := flags\<rparr>)"
    and "\<forall>fd. fd \<noteq> ev_fd e \<and> fd \<notin> set (concat (map accepted_fd (ev_accept e))) \<longrightarrow> conns s fd = conns (main r) fd"
proof -
  let ?r' = "r\<lparr>main := s, batch := es, loop_flags := flags\<rparr>"
  let ?h = "outside_holders ?r'"
  have "outside_holders r = ?h(ev_fd e := Suc (?h (ev_fd e)))"
    using assms(2) by (auto simp: outside_holders_def)
  moreover have "claims_ok (main r) (outside_holders r)" using assms(1) by (simp add: run_inv_def)
  ultimately have "claims_ok (main r) (?h(ev_fd e := Suc (?h (ev_fd e))))" by metis
  from handle_event_claims [OF this assms(3,4)]
  have m: "claims_ok s ?h" "same_ends (main r) s"
    "\<forall>fd. fd \<notin> insert (ev_fd e) (set (concat (map accepted_fd (ev_accept e)))) \<longrightarrow> conns s fd = conns (main r) fd"
    by (simp_all add: main_ok_def)
  show "run_inv ?r'" using m(1) assms(1) same_ends_peer [OF m(2)] by (simp add: run_inv_def)
  show "\<forall>fd. fd \<noteq> ev_fd e \<and> fd \<notin> set (concat (map accepted_fd (ev_accept e))) \<longrightarrow> conns s fd = conns (main r) fd"
    using m(3) by simp
qed

lemma inv_tick:
  assumes "run_inv r" and "batch r = []" and "timer_handler (main r) = Some (Inr s)"
    and "calm r (r\<lparr>main := s, loop_flags := f\<rparr>)"
  shows "run_inv (r\<lparr>main := s, loop_flags := f\<rparr>)"
proof -
  let ?r' = "r\<lparr>main := s, loop_flags := f\<rparr>"
  have cl: "claims_ok (main r) (outside_holders r)" using assms(1) by (simp add: run_inv_def)
  have q: "requests s = requests (main r)" by (rule timer_handler_closes(4) [OF assms(3)])
  have out: "outside_holders ?r' = outside_holders r" by (simp add: outside_holders_def fun_eq_iff)
  have "fd_open (kernel s) fd"
    if fd: "peer (main r) fd" "fd \<in> set (m_workqueue (requests (main r))) \<or> 0 < outside_holders r fd" for fd
  proof -
    have "busy r fd"
      using fd(2) assms(2) by (auto simp: busy_def outside_holders_def filter_empty_conv)
    moreover from this have "busy ?r' fd" using q by (simp add: busy_def)
    moreover have "0 < server_holders (main r) fd + outside_holders r fd"
      using fd(2) by (auto simp: server_holders_def)
    then have "fd_open (kernel (main r)) fd" using claims_peer(2) [OF cl fd(1)] by metis
    ultimately have "fd_open (kernel (main ?r')) fd" using assms(4) unfolding calm_def by blast
    then show ?thesis by simp
  qed
  from tick_claims [OF cl assms(3) this] have m: "claims_ok s (outside_holders r)" "same_ends (main r) s"
    by (simp_all add: main_ok_def)
  then show ?thesis using assms(1) out same_ends_peer [OF m(2)] by (simp add: run_inv_def)
qed

lemma inv_take:
  assumes "run_inv r" and "i < length (hands r)" and "hands r ! i = Resting" and "fetch (requests (main r)) = Some (q, fd)"
    and "v = Fetched fd \<or> v = Resting"
  shows "run_inv (r\<lparr>main := (main r)\<lparr>requests := q\<rparr>, hands := (hands r)[i := v]\<rparr>)"
proof -
  let ?s = "(main r)\<lparr>requests := q\<rparr>"
  let ?r' = "r\<lparr>main := ?s, hands := (hands r)[i := v]\<rparr>"
  have cl: "claims_ok (main r) (outside_holders r)" using assms(1) by (simp add: run_inv_def)
  have q: "m_workqueue (requests (main r)) = fd # m_workqueue q" using assms(4) by (auto simp: fetch_def split: list.splits)
  have fd: "peer (main r) fd" using claims_parts(5) [OF cl, of fd] by (simp add: q)
  have p: "peer ?s g = peer (main r) g" for g by (simp add: peer_def)
  have out: "outside_holders ?r' g = outside_holders r g + (if works_on g v then 1 else 0)" for g
    using outside_update [OF assms(2,3), of ?r' v g] by simp
  have le: "server_holders ?s g + outside_holders ?r' g \<le> server_holders (main r) g + outside_holders r g" for g
    using assms(5) unfolding out by (auto simp: server_holders_def q)
  have "claims_ok ?s (outside_holders ?r')"
  proof (rule claimsI; (unfold p)?)
    fix g assume g: "peer (main r) g"
    show "server_holders ?s g + outside_holders ?r' g \<le> 1" using le [of g] claims_peer(1) [OF cl g] by linarith
    assume "0 < server_holders ?s g + outside_holders ?r' g"
    then have "0 < server_holders (main r) g + outside_holders r g" using le [of g] by linarith
    from claims_peer(2) [OF cl g this] show "fd_open (kernel ?s) g \<and> m_sockfd (conns ?s g) = g" by simp
  qed (use claims_parts [OF cl] claims_peer(3) [OF cl] q in auto)
  moreover have "\<forall>w \<in> set ((hands r)[i := v]). \<forall>g. works_on g w \<longrightarrow> peer (main r) g"
    using assms(1,5) fd by (intro hands_peer) (auto simp: run_inv_def)
  ultimately show ?thesis by (simp add: run_inv_def p)
qed

text \<open>A worker's step that keeps what it holds, or only touches \<open>mysql\<close>.\<close>

lemma inv_hand_same:
  assumes "run_inv r" and "i < length (hands r)" and "\<And>fd. works_on fd v = works_on fd (hands r ! i)"
    and "same_hold (main r) s"
  shows "run_inv (r\<lparr>main := s, db_pool := p, hands := (hands r)[i := v]\<rparr>)"
proof -
  let ?r' = "r\<lparr>main := s, db_pool := p, hands := (hands r)[i := v]\<rparr>"
  have "outside_holders ?r' fd = outside_holders r fd" for fd
    using outside_update [OF assms(2) refl, of ?r' v fd] assms(3) by (simp split: if_splits)
  moreover have "claims_ok (main r) (outside_holders r)" using assms(1) by (simp add: run_inv_def)
  ultimately have "claims_ok s (outside_holders ?r')" using claims_same [OF _ assms(4)] by simp
  moreover have "same_ends (main r) s" using assms(4) by (simp add: same_hold_def)
  then have "peer s = peer (main r)" by (rule same_ends_peer)
  moreover have "\<forall>w \<in> set ((hands r)[i := v]). \<forall>g. works_on g w \<longrightarrow> peer (main r) g"
    using assms(1-3) by (intro hands_peer) (auto simp: run_inv_def)
  ultimately show ?thesis by (simp add: run_inv_def)
qed

lemma same_hold_put: "m_sockfd c = m_sockfd (conns s fd) \<Longrightarrow> same_hold s (put_conn s fd c)"
  by (simp add: put_conn_def same_hold_conn)

lemma inv_work:
  assumes "run_inv r" and "i < length (hands r)" and "hands r ! i = Connected fd"
    and "process ext (kernel (main r)) (shared r) (conns (main r) fd) = Inr (k, w, c)"
  shows "run_inv (r\<lparr>main := (put_conn (main r) fd c)\<lparr>kernel := k\<rparr>, shared := w, hands := (hands r)[i := Answered fd]\<rparr>)"
proof -
  let ?s = "(put_conn (main r) fd c)\<lparr>kernel := k\<rparr>" and ?hs = "(hands r)[i := Answered fd]"
  let ?r' = "r\<lparr>main := ?s, shared := w, hands := ?hs\<rparr>"
  have f: "peer (main r) fd" using inv_hand [OF assms(1,2)] assms(3) by simp
  have e: "outside_holders (r\<lparr>hands := ?hs\<rparr>) = outside_holders ?r'" by (simp add: outside_holders_def fun_eq_iff)
  have "outside_holders r = (outside_holders ?r')(fd := Suc (outside_holders ?r' fd))"
    using hand_off [OF assms(2), of fd "Answered fd"] assms(3) unfolding e by simp
  moreover have "claims_ok (main r) (outside_holders r)" using assms(1) by (simp add: run_inv_def)
  ultimately have "claims_ok (main r) ((outside_holders ?r')(fd := Suc (outside_holders ?r' fd)))" by metis
  from process_claims [OF this f assms(4)] have m: "claims_ok ?s (outside_holders ?r')" "same_ends (main r) ?s"
    by (simp_all add: main_ok_def)
  moreover have "\<forall>v \<in> set ?hs. \<forall>g. works_on g v \<longrightarrow> peer (main r) g"
    using assms(1) by (intro hands_peer) (auto simp: run_inv_def)
  ultimately show ?thesis using same_ends_peer [OF m(2)] by (simp add: run_inv_def)
qed

lemma serve_get_sockfd: "serve_get p c = Some (Inr (p1, c1)) \<Longrightarrow> \<exists>x. c1 = c\<lparr>mysql := x\<rparr>"
proof -
  assume a: "serve_get p c = Some (Inr (p1, c1))"
  have "\<exists>x. d = d\<lparr>mysql := x\<rparr>" for d :: http_conn by (rule exI [of _ "mysql d"]) simp
  with a show ?thesis by (auto simp: serve_get_def elim!: rbindE split: option.splits)
qed

lemma run_inv_step:
  assumes "run_inv r" and "run_step ext r r'" and "calm r r'"
  shows "run_inv r'"
  using assms(2)
proof cases
  case (poll es k)
  with inv_poll [OF assms(1)] show ?thesis by simp
next
  case (event e es now s flags)
  with inv_event(1) [OF assms(1)] show ?thesis by simp
next
  case (tick s)
  with inv_tick [OF assms(1)] assms(3) show ?thesis by simp
next
  case (take i q fd)
  with inv_take [OF assms(1) take(2-4)] show ?thesis by simp
next
  case (connect i fd p c)
  obtain x where "c = (conns (main r) fd)\<lparr>mysql := x\<rparr>" using serve_get_sockfd [OF connect(4)] by blast
  then have "same_hold (main r) (put_conn (main r) fd c)" by (simp add: same_hold_put)
  with inv_hand_same [OF assms(1) connect(2), of "Connected fd"] connect(1,3) show ?thesis by simp
next
  case (work i fd k w c)
  with inv_work [OF assms(1) work(2-4)] show ?thesis by simp
next
  case (give i fd p con)
  with inv_hand_same [OF assms(1) give(2), of "Returned fd" "main r"] show ?thesis by simp
next
  case (skip i fd)
  with inv_hand_same [OF assms(1) skip(2), of Resting "main r" "db_pool r"] show ?thesis by simp
next
  case (clear i fd)
  have "same_hold (main r) (put_conn (main r) fd ((conns (main r) fd)\<lparr>mysql := None\<rparr>))" by (simp add: same_hold_put)
  with inv_hand_same [OF assms(1) clear(2), of Resting _ "db_pool r"] clear(1,3) show ?thesis by simp
qed

lemma calm_run_inv: "calm_run ext r0 r \<Longrightarrow> run_inv r0 \<Longrightarrow> run_inv r"
  by (induction rule: calm_run.induct) (auto intro: run_inv_step)

end
