(* ===== verification/Server_Threads.thy ===== *)
theory Server_Threads
  imports Server_Run
begin

text \<open>
  The claims about the main thread and the workers together: who may hold a connection
  (\<open>webserver.cpp\<close>, \<open>threadpool/threadpool.h\<close>, \<open>http/http_conn.cpp\<close>).

  From the start, the invariant of \<open>Server_Run\<close> gives exclusive ownership of a connection as long
  as no timer closes one in use. The member \<open>mysql\<close> is not covered by it, since a worker touches it
  after \<open>process\<close>; and the timers break the condition. Both are shown by runs of \<open>run_step\<close>.
\<close>

section \<open>The start\<close>

text \<open>
  The server after \<open>eventListen\<close> with an empty queue, resting workers and nothing reported.
\<close>

definition run_start :: "server \<Rightarrow> ('w, 'd) running \<Rightarrow> bool" where
  "run_start s r \<longleftrightarrow> main r = s \<and> m_workqueue (requests s) = [] \<and> (\<forall>i. users_timer s i = None)
     \<and> batch r = [] \<and> loop_flags r = (False, False) \<and> set (hands r) \<subseteq> {Resting}"

lemma run_start_inv:
  assumes "blank_server s0" and "eventListen s0 sock b l ep (Some (p0, p1)) = Some (Inr s)" and "0 \<le> p0" and "run_start s r"
  shows "run_inv r"
proof -
  have r: "main r = s" "m_workqueue (requests s) = []" "\<And>i. users_timer s i = None" "batch r = []"
    "set (hands r) \<subseteq> {Resting}"
    using assms(4) by (simp_all add: run_start_def)
  obtain mode where "ws_LISTENTrigmode s0 = Some mode" using assms(1) by (auto simp: blank_server_def conf_ok_def)
  have s: "0 \<le> sock" "ws_listenfd s = sock" "ws_pipefd0 s = p0" "fd_open (kernel s) sock" "fd_open (kernel s) p0"
    "\<And>fd. fd \<noteq> sock \<Longrightarrow> fd \<noteq> p0 \<Longrightarrow> ep_table (kernel s) fd = None"
    using assms(1,2) by (auto simp: eventListen_def blank_server_def Let_def os_ops split: if_splits option.splits)
  have out: "outside_holders r fd = 0" for fd
  proof -
    have "filter (works_on fd) (hands r) = []" using r(5) by (auto simp: filter_empty_conv)
    then show ?thesis by (simp add: outside_holders_def r(4))
  qed
  have none: "ep_table (kernel s) (- 1) = None" using s(1) assms(3) by (intro s(6)) auto
  have "claims_ok s (outside_holders r)"
    by (rule claimsI) (use none in \<open>simp_all add: r out s peer_def server_holders_def armed_def\<close>)
  moreover have "\<forall>w \<in> set (hands r). \<forall>fd. works_on fd w \<longrightarrow> peer s fd" using r(5) by auto
  ultimately show ?thesis by (simp add: run_inv_def r(1))
qed

section \<open>The claims\<close>

lemma filter_two:
  assumes "i < length xs" and "j < length xs" and "i \<noteq> j" and "P (xs ! i)" and "P (xs ! j)"
  shows "2 \<le> length (filter P xs)"
proof -
  have "{i, j} \<subseteq> {k. k < length xs \<and> P (xs ! k)}" using assms by auto
  then have "card {i, j} \<le> card {k. k < length xs \<and> P (xs ! k)}" by (rule card_mono [rotated]) simp
  then show ?thesis using assms(3) by (simp add: length_filter_conv_card)
qed

lemma inv_one_worker:
  assumes "run_inv r" and "i < length (hands r)" and "j < length (hands r)"
    and "works_on fd (hands r ! i)" and "works_on fd (hands r ! j)"
  shows "i = j"
proof (rule ccontr)
  assume "i \<noteq> j"
  then have "2 \<le> outside_holders r fd" using filter_two [OF assms(2,3) _ assms(4,5)] by (simp add: outside_holders_def)
  moreover have "peer (main r) fd" by (rule inv_hand [OF assms(1,2,4)])
  ultimately show False using assms(1) claims_peer(1) [of "main r" "outside_holders r" fd] by (simp add: run_inv_def)
qed

text \<open>
  C5. From the start on, whatever the order in which the main thread and the workers take their
  steps, a connection has at most one holder: its armed entry, a reported event, a place in the
  queue, or one worker. Who holds it holds an open connection that knows its descriptor. This
  is under the condition that no timer closes a connection in the queue or in a worker's hands.
\<close>

theorem one_holder:
  assumes "blank_server s0" and "eventListen s0 sock b l ep (Some (p0, p1)) = Some (Inr s)" and "0 \<le> p0"
    and "run_start s r0" and "calm_run ext r0 r"
  shows "\<forall>fd. fd \<noteq> ws_listenfd (main r) \<and> fd \<noteq> ws_pipefd0 (main r) \<longrightarrow>
      holders r fd \<le> 1
      \<and> (0 < holders r fd \<longrightarrow> fd_open (kernel (main r)) fd \<and> m_sockfd (conns (main r) fd) = fd)
      \<and> (\<forall>i j. i < length (hands r) \<and> j < length (hands r) \<and> works_on fd (hands r ! i) \<and> works_on fd (hands r ! j) \<longrightarrow> i = j)"
proof -
  have inv: "run_inv r" by (rule calm_run_inv [OF assms(5) run_start_inv [OF assms(1-4)]])
  then have cl: "claims_ok (main r) (outside_holders r)" by (simp add: run_inv_def)
  have "holders r fd \<le> 1 \<and> (0 < holders r fd \<longrightarrow> fd_open (kernel (main r)) fd \<and> m_sockfd (conns (main r) fd) = fd)"
    if "fd \<noteq> ws_listenfd (main r) \<and> fd \<noteq> ws_pipefd0 (main r)" for fd
    using that claims_peer(1,2) [OF cl, of fd] by (simp add: holders_def peer_def)
  then show ?thesis using inv_one_worker [OF inv] by blast
qed

text \<open>
  C6. In a run in which no timer has closed a connection that was in the queue or in a worker's
  hands (\<open>calm_run\<close>): while a worker has a connection, nobody else changes it, \<open>mysql\<close> apart; a
  step that is not the worker's own leaves every other member of the object as it was. Without
  the condition it is not so (\<open>timer_takes_connection\<close>).
\<close>

theorem worker_undisturbed:
  assumes "blank_server s0" and "eventListen s0 sock b l ep (Some (p0, p1)) = Some (Inr s)" and "0 \<le> p0"
    and "run_start s r0" and "calm_run ext r0 r" and "run_step ext r r'"
    and "i < length (hands r)" and "works_on fd (hands r ! i)" and "hands r' ! i = hands r ! i"
  shows "(conns (main r') fd)\<lparr>mysql := None\<rparr> = (conns (main r) fd)\<lparr>mysql := None\<rparr>"
proof -
  have inv: "run_inv r" by (rule calm_run_inv [OF assms(5) run_start_inv [OF assms(1-4)]])
  then have cl: "claims_ok (main r) (outside_holders r)" by (simp add: run_inv_def)
  have p: "peer (main r) fd" by (rule inv_hand [OF inv assms(7,8)])
  have works: "0 < length (filter (works_on fd) (hands r))"
    using assms(7,8) nth_mem [OF assms(7)] by (auto simp: filter_empty_conv)
  have self: "j = i" if "j < length (hands r)" "works_on fd (hands r ! j)" for j
    by (rule inv_one_worker [OF inv that(1) assms(7) that(2) assms(8)])
  from assms(6) show ?thesis
  proof cases
    case (event e es now s flags)
    have "fd \<noteq> ev_fd e"
      using works claims_peer(1) [OF cl p] event(2) by (auto simp: outside_holders_def)
    moreover have "fd_open (kernel (main r)) fd" using claims_peer(2) [OF cl p] works by (simp add: outside_holders_def)
    then have "fd \<notin> set (concat (map accepted_fd (ev_accept e)))" using event(3) unfolding new_fds_def by blast
    ultimately show ?thesis using inv_event(2) [OF inv event(2-4)] event(1) by simp
  next
    case (tick s)
    with timer_handler_closes(3) [OF tick(4)] show ?thesis by simp
  next
    case (connect j g p c)
    have "g \<noteq> fd" using self [OF connect(2)] connect(1,2,3) assms(9) by auto
    with connect(1) show ?thesis by (simp add: put_conn_def)
  next
    case (work j g k w c)
    have "g \<noteq> fd" using self [OF work(2)] work(1,2,3) assms(9) by auto
    with work(1) show ?thesis by (simp add: put_conn_def)
  qed (simp_all add: put_conn_def)
qed

section \<open>A run, and what the workers' last steps and the timers do\<close>

definition accept_event :: "int \<Rightarrow> int \<Rightarrow> nat \<Rightarrow> ready" where
  "accept_event lfd fd addr = \<lparr>ev_fd = lfd, ev_events = EPOLLIN, ev_accept = [Accepted fd addr], ev_signals = None, ev_recv = [], ev_writev = []\<rparr>"

lemma accept_event_ok:
  assumes "srv_inv s" and "conf_ok s" and "in_users fd" and "\<not> fd_open (kernel s) fd"
    and "peer s fd" and "m_user_count (kernel s) < MAX_FD"
  obtains s' where "handle_event s now flags (accept_event (ws_listenfd s) fd addr) = Inr (s', flags)"
    and "armed (kernel s') fd" and "m_read_idx (conns s' fd) = 0" and "mysql (conns s' fd) = None"
    and "ws_CONNTrigmode s = Some (m_TRIGMode (conns s' fd))" and "requests s' = requests s" and "srv_inv s'" and "live s' fd"
    and "same_conf s s'" and "\<And>g. g \<noteq> fd \<Longrightarrow> fd_open (kernel s') g = fd_open (kernel s) g \<and> ep_table (kernel s') g = ep_table (kernel s) g"
    and "m_user_count (kernel s') = m_user_count (kernel s) + 1" and "reported (kernel s') (input_event fd bytes)"
proof -
  let ?s = "opened s fd"
  have none: "ep_table (kernel s) fd = None" using inv_parts(2) [OF assms(1)] assms(4) by (auto simp: os_inv_def)
  then have o: "fresh_fd ?s fd" "fd_open (kernel ?s) fd" "conf_ok ?s"
    using assms(2,3,5) by (simp_all add: fresh_fd_def peer_def opened_def conf_ok_def)
  obtain s' a where n: "new_client ?s now fd addr = Inr s'" "srv_inv s'" "fd_of s' = (fd_of ?s)(a \<mapsto> fd)" "same_conf ?s s'"
    by (rule new_client_ok [OF opened_inv(1) [OF assms(1)] o, of now addr]) auto
  note r = new_client_result [OF n(1)]
  have "accept_one s now (Accepted fd addr) = Inr (s', True)"
    using n(1) assms(6) by (simp add: accept_one_def opened_def)
  moreover obtain mode where "ws_LISTENTrigmode s = Some mode" using assms(2) by (auto simp: conf_ok_def)
  ultimately have "dealclinetdata s now [Accepted fd addr] = Inr (s', ws_LISTENTrigmode s = Some 0)" by (simp add: dealclinetdata_def)
  then have h: "handle_event s now flags (accept_event (ws_listenfd s) fd addr) = Inr (s', flags)"
    by (simp add: handle_event_def accept_event_def)
  have e: "ep_table (kernel s') fd = Some (addfd_events True (m_TRIGMode (conns ?s fd)))"
    using none by (simp add: r(1) os_ops opened_def)
  then have "armed (kernel s') fd" by (simp add: armed_def armed_masks)
  moreover have "reported (kernel s') (input_event fd bytes)"
    using e by (simp add: reported_def input_event_def armed_masks) (simp add: addfd_events_def epoll_flags)
  moreover have "live s' fd" unfolding live_def n(3) by (rule exI [of _ a]) simp
  moreover have "same_conf s s'" using same_conf_trans [OF opened_inv(3) [OF assms(1)] n(4)] .
  ultimately show ?thesis using h n(2) r(4,7-9) by (intro that [of s']) (simp_all add: r(1) opened_def ep_table_other)
qed

definition demo_start :: "server \<Rightarrow> (string \<Rightarrow> string option, string list) running" where
  "demo_start s = \<lparr>main = s, shared = demo_world, db_pool = None, hands = [Resting, Resting], batch = [], loop_flags = (False, False)\<rparr>"

lemma calm_free: "(\<And>fd. \<not> busy r fd) \<Longrightarrow> calm r r'"
  by (simp add: calm_def)

lemma calm_open: "fd_open (kernel (main r')) = fd_open (kernel (main r)) \<Longrightarrow> calm r r'"
  by (simp add: calm_def)

lemma reported_listen:
  assumes "ep_table k lfd = Some (addfd_events False t)"
  shows "reported k (accept_event lfd fd addr)" and "epoll_wait k [accept_event lfd fd addr] = Some k"
proof -
  show 1: "reported k (accept_event lfd fd addr)"
    using assms by (simp add: reported_def accept_event_def armed_masks) (simp add: addfd_events_def epoll_flags)
  have "\<not> has_event (addfd_events False t) EPOLLONESHOT" by (simp add: has_event_def addfd_events_def epoll_flags)
  with 1 assms show "epoll_wait k [accept_event lfd fd addr] = Some k"
    by (simp add: epoll_wait_def disarm_def accept_event_def)
qed

lemma demo_listening:
  obtains s where "eventListen demo_server 3 0 0 4 (Some (5, 6)) = Some (Inr s)" and "srv_inv s" and "conf_ok s"
    and "ws_listenfd s = 3" and "ws_pipefd0 s = 5" and "\<not> fd_open (kernel s) 7"
    and "ep_table (kernel s) 3 = Some (addfd_events False 0)" and "users_timer s = (\<lambda>_. None)"
    and "requests s = \<lparr>m_actor_model = 0, m_max_requests = 10000, m_workqueue = [], m_stop = False\<rparr>"
    and "m_user_count (kernel s) = 0" and "ws_CONNTrigmode s = Some 0" and "\<not> fd_open (kernel s) 8" and "ws_actormodel s = 0"
proof -
  obtain s where s: "eventListen demo_server 3 0 0 4 (Some (5, 6)) = Some (Inr s)" by (simp add: eventListen_def Let_def demo_server_def)
  have b: "blank_server demo_server" by (simp add: blank_server_def demo_server_def conf_ok_def)
  note i = listen_ok [OF b s]
  show ?thesis
    by (rule that [OF s i(1,2)])
      (use s in \<open>auto simp: eventListen_def Let_def demo_server_def os_ops\<close>)
qed

lemma listen_and_accept:
  fixes r :: "('w, 'd) running" and addr :: nat
  assumes "srv_inv (main r)" and "conf_ok (main r)" and "in_users fd" and "\<not> fd_open (kernel (main r)) fd"
    and "peer (main r) fd" and "m_user_count (kernel (main r)) < MAX_FD"
    and "ep_table (kernel (main r)) (ws_listenfd (main r)) = Some (addfd_events False t)"
    and "batch r = []" and "loop_flags r = (False, False)"
  defines "e \<equiv> accept_event (ws_listenfd (main r)) fd addr"
  obtains s' where "handle_event (main r) 0 (False, False) e = Inr (s', (False, False))"
    and "run_step ext r (r\<lparr>batch := [e]\<rparr>)" and "run_step ext (r\<lparr>batch := [e]\<rparr>) (r\<lparr>main := s'\<rparr>)"
    and "armed (kernel s') fd" and "requests s' = requests (main r)" and "same_conf (main r) s'"
proof -
  obtain s' where s': "handle_event (main r) 0 (False, False) e = Inr (s', (False, False))" "armed (kernel s') fd"
      "requests s' = requests (main r)" "same_conf (main r) s'"
    unfolding e_def
    by (rule accept_event_ok [OF assms(1-6), where now = 0 and flags = "(False, False)" and addr = addr])
  have same: "r\<lparr>main := (main r)\<lparr>kernel := kernel (main r)\<rparr>, batch := [e]\<rparr> = r\<lparr>batch := [e]\<rparr>"
    "r\<lparr>batch := [e], main := s', batch := [], loop_flags := (False, False)\<rparr> = r\<lparr>main := s'\<rparr>"
    using assms(8,9) by simp_all
  have 1: "run_step ext r (r\<lparr>batch := [e]\<rparr>)"
    using run_step.poll [OF assms(8,9), of "[e]" "kernel (main r)" ext] reported_listen(2) [OF assms(7)]
    unfolding same(1) e_def by simp
  have 2: "run_step ext (r\<lparr>batch := [e]\<rparr>) (r\<lparr>main := s'\<rparr>)"
    using run_step.event [of "r\<lparr>batch := [e]\<rparr>" e "[]" 0 s' "(False, False)" ext] s'(1) assms(4,9)
    unfolding same(2) by (simp add: new_fds_def e_def accept_event_def accepted_fd_def)
  from that [OF s'(1) 1 2 s'(2-4)] show ?thesis .
qed

lemma demo_calm_run:
  obtains s r where "eventListen demo_server 3 0 0 4 (Some (5, 6)) = Some (Inr s)" and "run_start s (demo_start s)"
    and "calm_run ext (demo_start s) r" and "armed (kernel (main r)) 7" and "peer (main r) 7"
proof -
  obtain s where s: "eventListen demo_server 3 0 0 4 (Some (5, 6)) = Some (Inr s)" "srv_inv s" "conf_ok s"
    "ws_listenfd s = 3" "ws_pipefd0 s = 5" "\<not> fd_open (kernel s) 7"
    "ep_table (kernel s) 3 = Some (addfd_events False 0)" "users_timer s = (\<lambda>_. None)"
    "requests s = \<lparr>m_actor_model = 0, m_max_requests = 10000, m_workqueue = [], m_stop = False\<rparr>"
    "m_user_count (kernel s) = 0" by (rule demo_listening)
  let ?r = "demo_start s"
  have st: "run_start s ?r" by (simp add: run_start_def demo_start_def s)
  have f: "srv_inv (main ?r)" "conf_ok (main ?r)" "in_users 7" "\<not> fd_open (kernel (main ?r)) 7" "peer (main ?r) 7"
    "m_user_count (kernel (main ?r)) < MAX_FD" "ep_table (kernel (main ?r)) (ws_listenfd (main ?r)) = Some (addfd_events False 0)"
    "batch ?r = []" "loop_flags ?r = (False, False)"
    by (simp_all add: demo_start_def in_users_def MAX_FD_def peer_def s)
  obtain s' where s': "run_step ext ?r (?r\<lparr>batch := [accept_event (ws_listenfd (main ?r)) 7 1]\<rparr>)"
      "run_step ext (?r\<lparr>batch := [accept_event (ws_listenfd (main ?r)) 7 1]\<rparr>) (?r\<lparr>main := s'\<rparr>)"
      "armed (kernel s') 7" "same_conf (main ?r) s'"
    by (rule listen_and_accept [OF f, of 1 ext])
  have "\<not> busy ?r fd" "\<not> busy (?r\<lparr>batch := [accept_event (ws_listenfd (main ?r)) 7 1]\<rparr>) fd" for fd
    by (simp_all add: busy_def demo_start_def s(9))
  then have "calm_run ext ?r (?r\<lparr>main := s'\<rparr>)" using s'(1,2) by (meson calm_run.intros calm_free)
  then show ?thesis using that [OF s(1) st] s'(3,4) by (simp add: peer_def same_conf_def demo_start_def s)
qed

theorem one_holder_witness:
  "\<exists>s r. eventListen demo_server 3 0 0 4 (Some (5, 6)) = Some (Inr s) \<and> calm_run demo_ext (demo_start s) r
    \<and> armed (kernel (main r)) 7 \<and> holders r 7 = 1 \<and> m_sockfd (conns (main r) 7) = 7"
proof -
  obtain s r where s: "eventListen demo_server 3 0 0 4 (Some (5, 6)) = Some (Inr s)" "run_start s (demo_start s)"
    "calm_run demo_ext (demo_start s) r" "armed (kernel (main r)) 7" "peer (main r) 7" by (rule demo_calm_run)
  have b: "blank_server demo_server" by (simp add: blank_server_def demo_server_def conf_ok_def)
  have pos: "0 < holders r 7" using s(4) by (simp add: holders_def server_holders_def)
  from one_holder [OF b s(1) _ s(2,3)] s(5)
  have "holders r 7 \<le> 1 \<and> (0 < holders r 7 \<longrightarrow> m_sockfd (conns (main r) 7) = 7)" by (simp add: peer_def)
  with pos s(1,3,4) show ?thesis by (intro exI [of _ s] exI [of _ r]) auto
qed

section \<open>What mysql suffers\<close>

lemma calm_append: "calm_run ext r1 r2 \<Longrightarrow> calm_run ext r0 r1 \<Longrightarrow> calm_run ext r0 r2"
  by (induction rule: calm_run.induct) (auto intro: calm_run.intros)

lemma disarm_same_fds: "same_fds k (disarm k fd)"
  by (auto simp: same_fds_def disarm_def split: option.split)

text \<open>The main thread reads a piece of a request and puts the connection into the queue.\<close>

lemma poll_and_read:
  fixes r :: "('w, 'd) running"
  assumes srv: "srv_inv (main r)" "fd_of (main r) a = Some fd" "ws_actormodel (main r) \<noteq> 1"
      "m_workqueue (requests (main r)) = []" "\<not> m_stop (requests (main r))" "0 < m_max_requests (requests (main r))"
    and r: "batch r = []" "loop_flags r = (False, False)" "reported (kernel (main r)) (input_event fd bytes)"
    and c: "read_once (conns (main r) fd) [Recv bytes] = (c, True)"
  obtains s where "calm_run ext r (r\<lparr>main := s\<rparr>)" and "conns s fd = c"
    and "requests s = (requests (main r))\<lparr>m_workqueue := [fd]\<rparr>" and "kernel s = disarm (kernel (main r)) fd"
    and "srv_inv s" and "same_conf (main r) s"
proof -
  let ?s = "main r" and ?e = "input_event fd bytes"
  let ?k = "disarm (kernel ?s) fd" and ?q = "(requests (main r))\<lparr>m_workqueue := [fd]\<rparr>"
  let ?s1 = "?s\<lparr>kernel := ?k\<rparr>"
  let ?r1 = "r\<lparr>main := ?s1, batch := [?e]\<rparr>"
  have 1: "run_step ext r ?r1"
    using run_step.poll [OF r(1,2), of "[?e]" ?k ext] r(3) by (simp add: epoll_wait_def input_event_def)
  have "srv_inv (?s\<lparr>kernel := ?k, conns := (conns ?s)(fd := conns ?s fd), requests := requests ?s\<rparr>)"
    "fd_of (?s\<lparr>kernel := ?k, conns := (conns ?s)(fd := conns ?s fd), requests := requests ?s\<rparr>) = fd_of ?s"
    using update_client [OF srv(1) disarm_same_fds [of "kernel ?s" fd], of "conns ?s fd" fd "requests ?s"] by simp_all
  then have i: "srv_inv ?s1" "fd_of ?s1 a = Some fd" using srv(2) by simp_all
  have ap: "append_p (requests ?s1) fd = (?q, True)" using srv(4-6) by (simp add: append_p_def)
  obtain s where s: "handle_event ?s1 0 (False, False) ?e = Inr (s, (False, False))" "kernel s = ?k"
      "conns s = (conns ?s)(fd := c)" "requests s = ?q" "goes_on ?s1 s"
    by (rule read_event [where now = 0 and flags = "(False, False)", OF i _ _ ap, of bytes c]) (use srv(3) c in simp_all)
  let ?r2 = "?r1\<lparr>main := s, batch := [], loop_flags := (False, False)\<rparr>"
  have 2: "run_step ext ?r1 ?r2"
    using run_step.event [of ?r1 ?e "[]" 0 s "(False, False)" ext] s(1) r(2) by (simp add: new_fds_def input_event_def)
  have "?r2 = r\<lparr>main := s\<rparr>" using r(1,2) by simp
  moreover have "calm r ?r1" "calm ?r1 ?r2" by (simp_all add: calm_open s(2))
  ultimately have "calm_run ext r (r\<lparr>main := s\<rparr>)" using 1 2 by (metis calm_run.intros)
  then show ?thesis
    by (rule that) (use s(5) in \<open>simp_all add: s(2-4) goes_on_def same_conf_def\<close>)
qed

lemma reported_input:
  "reported (modfd k fd EPOLLIN t) (input_event fd bytes)" if "ep_table k fd \<noteq> None"
proof -
  have "ep_table (modfd k fd EPOLLIN t) fd = Some (modfd_events EPOLLIN t)" using that by (auto simp: modfd_def epoll_ctl_mod_def)
  then show ?thesis
    by (simp add: reported_def input_event_def armed_masks) (simp add: modfd_events_def epoll_flags)
qed

text \<open>
  C34. Even then a connection's member \<open>mysql\<close> is not safe. A worker that finds the request
  incomplete calls \<open>modfd(EPOLLIN)\<close> before it gives its database connection back. The rest of the
  request arrives, a second worker fetches the connection and stores its own database
  connection in \<open>mysql\<close>; the first worker now returns that one, and clears \<open>mysql\<close>. The second
  worker goes on with a null pointer, its database connection is free for others while it is in
  use, and the first worker's one is lost.
\<close>

theorem two_workers_share_mysql:
  fixes r :: "('w, 'd) running"
  assumes srv: "srv_inv (main r)" "fd_of (main r) a = Some fd" "ws_actormodel (main r) \<noteq> 1"
      "m_workqueue (requests (main r)) = []" "\<not> m_stop (requests (main r))" "0 < m_max_requests (requests (main r))"
      "m_actor_model (requests (main r)) \<noteq> 1"
    and r: "batch r = []" "loop_flags r = (False, False)"
    and hands: "i < length (hands r)" "hands r ! i = Connected fd" "j < length (hands r)" "hands r ! j = Resting"
    and pool: "db_pool r = Some p" "connList p = con2 # rest" "0 < reserve p"
    and first: "process_read ext (shared r) (conns (main r) fd) = Inr (w, c, NO_REQUEST)"
    and later: "read_once c [Recv bytes] = (c1, True)"
  shows "\<exists>r' p'. calm_run ext r r' \<and> hands r' ! i = Resting \<and> hands r' ! j = Connected fd
    \<and> mysql (conns (main r') fd) = None \<and> db_pool r' = Some p' \<and> connList p' = rest @ [con2]"
proof -
  let ?s = "main r"
  have cl: "client ?s a fd" by (rule inv_fd_of [OF srv(1,2)])
  have same: "m_sockfd c = fd" using process_read_same [OF first] cl by (simp add: client_def)
  have ij: "i \<noteq> j" using hands by auto
  let ?k = "modfd (kernel ?s) fd EPOLLIN (m_TRIGMode c)"
  let ?s1 = "(put_conn ?s fd c)\<lparr>kernel := ?k\<rparr>"
  define r1 where "r1 = r\<lparr>main := ?s1, shared := w, hands := (hands r)[i := Answered fd]\<rparr>"
  have pr: "process ext (kernel ?s) (shared r) (conns ?s fd) = Inr (?k, w, c)" by (simp add: process_def first same)
  have 1: "run_step ext r r1" unfolding r1_def by (rule run_step.work [OF hands(1,2) pr])
  have s1: "?s1 = ?s\<lparr>kernel := ?k, conns := (conns ?s)(fd := c), requests := requests ?s\<rparr>" by (simp add: put_conn_def)
  have i1: "srv_inv (main r1)" "fd_of (main r1) a = Some fd"
    using update_client [OF srv(1) same_fds_modfd [of "kernel ?s" fd EPOLLIN "m_TRIGMode c"], of c fd "requests ?s"]
      srv(2) same cl unfolding r1_def by (simp_all add: s1 client_def)
  have rep: "reported (kernel (main r1)) (input_event fd bytes)"
    using reported_input [of "kernel ?s" fd] cl by (simp add: r1_def put_conn_def client_def)
  obtain s2 where s2: "calm_run ext r1 (r1\<lparr>main := s2\<rparr>)" "conns s2 fd = c1"
      "requests s2 = (requests ?s)\<lparr>m_workqueue := [fd]\<rparr>"
    by (rule poll_and_read [OF i1 _ _ _ _ _ _ rep, of c1])
      (use srv(3-6) r later in \<open>simp_all add: r1_def put_conn_def\<close>)
  let ?hs = "(hands r)[i := Answered fd]" and ?q = "(requests ?s)\<lparr>m_workqueue := []\<rparr>"
  let ?p2 = "p\<lparr>reserve := reserve p - 1, connList := rest, m_FreeConn := m_FreeConn p - 1, m_CurConn := m_CurConn p + 1\<rparr>"
  let ?c2 = "c1\<lparr>mysql := Some con2\<rparr>"
  define r3 where "r3 = r1\<lparr>main := s2\<lparr>requests := ?q\<rparr>, hands := ?hs[j := Fetched fd]\<rparr>"
  define r4 where "r4 = r3\<lparr>main := put_conn (main r3) fd ?c2, db_pool := Some ?p2, hands := (hands r3)[j := Connected fd]\<rparr>"
  define p5 where "p5 = fst (ReleaseConnection ?p2 (Some con2))"
  define r5 where "r5 = r4\<lparr>db_pool := Some p5, hands := (hands r4)[i := Returned fd]\<rparr>"
  define r6 where "r6 = r5\<lparr>main := put_conn (main r5) fd ((conns (main r5) fd)\<lparr>mysql := None\<rparr>), hands := (hands r5)[i := Resting]\<rparr>"
  have h: "hands r1 = ?hs" "hands r3 ! j = Fetched fd" "hands r4 ! i = Answered fd" "hands r5 ! i = Returned fd"
    "length (hands r3) = length (hands r)" "length (hands r4) = length (hands r)" "length (hands r5) = length (hands r)"
    using hands ij by (simp_all add: r1_def r3_def r4_def r5_def)
  have 2: "run_step ext (r1\<lparr>main := s2\<rparr>) r3"
    using run_step.take [of j "r1\<lparr>main := s2\<rparr>" ?q fd ext] hands ij srv(7) s2(3)
    by (simp add: h(1) r3_def fetch_def served_def)
  have 3: "run_step ext r3 r4"
    unfolding r4_def by (rule run_step.connect) (use hands h serve_get_taken [OF pool(2,3)] s2(2) pool(1) in \<open>simp_all add: r3_def r1_def\<close>)
  have c4: "conns (main r4) fd = ?c2" "db_pool r4 = Some ?p2" by (simp_all add: r4_def put_conn_def)
  have 4: "run_step ext r4 r5"
    unfolding r5_def p5_def by (rule run_step.give) (use hands h c4 in simp_all)
  have 5: "run_step ext r5 r6" unfolding r6_def by (rule run_step.clear) (use hands h in simp_all)
  have "calm r r1" "calm (r1\<lparr>main := s2\<rparr>) r3" "calm r3 r4" "calm r4 r5" "calm r5 r6"
    by (simp_all add: calm_open r1_def r3_def r4_def r5_def r6_def put_conn_def)
  with 1 2 3 4 5 s2(1) have run: "calm_run ext r r6" by (meson calm_run.intros calm_append)
  have "hands r6 ! i = Resting" "hands r6 ! j = Connected fd"
    using hands ij by (simp_all add: r6_def r5_def r4_def r3_def)
  moreover have "mysql (conns (main r6) fd) = None" "db_pool r6 = Some p5" by (simp_all add: r6_def r5_def put_conn_def)
  moreover have "connList p5 = rest @ [con2]"
    by (simp add: p5_def ReleaseConnection_def release_push_def release_post_def)
  ultimately show ?thesis using run by blast
qed

definition piece_conn :: http_conn where
  "piece_conn = (store (init seven) ''G'')\<lparr>mysql := Some 5\<rparr>"

lemma piece_incomplete: "read_loop piece_conn LINE_OK = Inr (piece_conn\<lparr>m_checked_idx := 1\<rparr>, Return NO_REQUEST)"
proof -
  have b: "rdb piece_conn 0 = Inr (CHR ''G'')"
    by (simp add: rd_def piece_conn_def store_def init_def put_def READ_BUFFER_SIZE_def)
  have i: "m_checked_idx piece_conn = 0" "m_read_idx piece_conn = 1" "m_check_state piece_conn = CHECK_STATE_REQUESTLINE"
    by (simp_all add: piece_conn_def store_def init_def)
  have "parse_line (piece_conn\<lparr>m_checked_idx := 1\<rparr>) = Inr (piece_conn\<lparr>m_checked_idx := 1\<rparr>, LINE_OPEN)"
    by (subst parse_line.simps) (simp add: i)
  then have "parse_line piece_conn = Inr (piece_conn\<lparr>m_checked_idx := 1\<rparr>, LINE_OPEN)"
    by (subst parse_line.simps) (simp add: i b)
  then show ?thesis by (subst read_loop.simps) (simp add: loop_guard_def i)
qed

theorem two_workers_share_mysql_witness:
  "\<exists>(r :: (string \<Rightarrow> string option, string list) running) r' p'. hands r = [Connected 7, Resting] \<and> mysql (conns (main r) 7) = Some 5
    \<and> calm_run demo_ext r r' \<and> hands r' ! 1 = Connected 7 \<and> mysql (conns (main r') 7) = None
    \<and> db_pool r' = Some p' \<and> connList p' = [6]"
proof -
  obtain s a where s: "srv_inv s" "fd_of s a = Some 7" "ws_actormodel s \<noteq> 1" "conns s 7 = init seven"
    and q: "requests s = \<lparr>m_actor_model = 0, m_max_requests = 10, m_workqueue = [], m_stop = False\<rparr>"
    by (rule demo_idle)
  let ?s = "s\<lparr>kernel := kernel s, conns := (conns s)(7 := piece_conn), requests := requests s\<rparr>"
  have "m_sockfd piece_conn = m_sockfd (conns s 7)" by (simp add: piece_conn_def store_def s(4))
  note u = update_client [OF s(1) same_fds_refl this, of "requests s"]
  let ?p = "new_pool\<lparr>connList := [6], reserve := 1\<rparr>"
  define r :: "(string \<Rightarrow> string option, string list) running" where
    "r = \<lparr>main = ?s, shared = demo_world, db_pool = Some ?p, hands = [Connected 7, Resting], batch = [], loop_flags = (False, False)\<rparr>"
  have f: "main r = ?s" "hands r = [Connected 7, Resting]" "db_pool r = Some ?p" "batch r = []" "loop_flags r = (False, False)"
    "shared r = demo_world"
    by (simp_all add: r_def)
  let ?c = "piece_conn\<lparr>m_checked_idx := 1\<rparr>"
  have pr: "process_read demo_ext (shared r) (conns (main r) 7) = Inr (demo_world, ?c, NO_REQUEST)"
    by (simp add: f process_read_def piece_incomplete)
  have "read_once ?c [Recv ''E''] = (store ?c ''E'', True)"
    by (simp add: read_once_def piece_conn_def store_def init_def seven_def zero_conn_def READ_BUFFER_SIZE_def recv_asked_def)
  note race = two_workers_share_mysql [OF _ _ _ _ _ _ _ f(4,5) _ _ _ _ f(3) _ _ pr this, of a 0 1]
  have "\<exists>r' p'. calm_run demo_ext r r' \<and> hands r' ! 0 = Resting \<and> hands r' ! 1 = Connected 7
    \<and> mysql (conns (main r') 7) = None \<and> db_pool r' = Some p' \<and> connList p' = [] @ [6]"
    by (rule race) (use u(1,2) s(2,3) q in \<open>simp_all add: f\<close>)
  then obtain r' p' where "calm_run demo_ext r r'" "hands r' ! 1 = Connected 7" "mysql (conns (main r') 7) = None"
    "db_pool r' = Some p'" "connList p' = [6]" by auto
  then show ?thesis by (intro exI [of _ r] exI [of _ r'] exI [of _ p']) (simp add: f piece_conn_def)
qed

section \<open>What the timers do\<close>

text \<open>
  C35. Without the condition that no timer closes a connection in use, ownership is not exclusive. A timer that expires while a worker has
  the connection closes it; the next client gets the same descriptor number and so the same
  object, which is initialised and armed again under the worker's hands. The object now has two
  holders, and the worker answers the new client's connection with the old client's request.
\<close>

theorem timer_takes_connection:
  fixes r :: "('w, 'd) running"
  assumes srv: "srv_inv (main r)" "conf_ok (main r)" "live (main r) fd" "m_user_count (kernel (main r)) < MAX_FD"
    and r: "batch r = []" "loop_flags r = (True, False)"
    and hands: "i < length (hands r)" "works_on fd (hands r ! i)"
    and tick: "timer_handler (main r) = Some (Inr s1)" "\<not> fd_open (kernel s1) fd"
    and listen: "ep_table (kernel s1) (ws_listenfd (main r)) = Some (addfd_events False t)"
  shows "\<exists>r'. (run_step ext)\<^sup>*\<^sup>* r r' \<and> hands r' = hands r \<and> 2 \<le> holders r' fd \<and> armed (kernel (main r')) fd
    \<and> m_read_idx (conns (main r') fd) = 0 \<and> mysql (conns (main r') fd) = None"
proof -
  let ?s = "main r" and ?lfd = "ws_listenfd (main r)"
  obtain a where a: "fd_of ?s a = Some fd" using srv(3) by (auto simp: live_def)
  have cl: "client ?s a fd" by (rule inv_fd_of [OF srv(1) a])
  note c = timer_handler_closes [OF tick(1)]
  have i1: "srv_inv s1" "same_conf ?s s1" using timer_handler_ex [OF srv(1)] tick(1) c(6) by auto
  have few: "m_user_count (kernel s1) < MAX_FD" using c(1) srv(4) by (simp add: user_closes_def)
  have conf: "conf_ok s1" "ws_listenfd s1 = ?lfd" "peer s1 fd" "in_users fd"
    using srv(2) i1(2) cl conf_ok_same [OF i1(2)] by (auto simp: same_conf_def peer_def client_def)
  obtain s2 where s2: "handle_event s1 0 (False, False) (accept_event ?lfd fd 1) = Inr (s2, (False, False))"
      "armed (kernel s2) fd" "m_read_idx (conns s2 fd) = 0" "mysql (conns s2 fd) = None"
    by (rule accept_event_ok [OF i1(1) conf(1,4) tick(2) conf(3) few, where now = 0 and flags = "(False, False)" and addr = 1])
      (simp add: conf(2))
  let ?r1 = "r\<lparr>main := s1, loop_flags := (False, False)\<rparr>"
  let ?r2 = "?r1\<lparr>main := s1\<lparr>kernel := kernel s1\<rparr>, batch := [accept_event ?lfd fd 1]\<rparr>"
  let ?r3 = "?r2\<lparr>main := s2, batch := [], loop_flags := (False, False)\<rparr>"
  have "run_step ext r ?r1" using run_step.tick [OF r(1) _ tick(1), of ext] r(2) by simp
  moreover have "run_step ext ?r1 ?r2"
    using run_step.poll [of ?r1 "[accept_event ?lfd fd 1]" "kernel s1" ext] r(1) reported_listen(2) [OF listen] by simp
  moreover have "run_step ext ?r2 ?r3"
    using run_step.event [of ?r2 "accept_event ?lfd fd 1" "[]" 0 s2 "(False, False)" ext] s2(1) tick(2)
    by (simp add: new_fds_def accept_event_def accepted_fd_def)
  ultimately have run: "(run_step ext)\<^sup>*\<^sup>* r ?r3" by (meson rtranclp.rtrancl_refl rtranclp.rtrancl_into_rtrancl)
  have "0 < length (filter (works_on fd) (hands r))" using hands nth_mem [OF hands(1)] by (auto simp: filter_empty_conv)
  moreover have "holders ?r3 fd = server_holders s2 fd + length (filter (works_on fd) (hands r))" "1 \<le> server_holders s2 fd"
    using s2(2) by (simp_all add: holders_def server_holders_def outside_holders_def)
  ultimately have "2 \<le> holders ?r3 fd" by linarith
  with run s2(2-4) show ?thesis by (intro exI [of _ ?r3]) simp
qed

text \<open>The alarms of an idle server leave the listening socket registered.\<close>

lemma alarms_keep:
  "alarms n s = Some (Inr s') \<Longrightarrow> user_closes (users_timer s) (kernel s) (kernel s') \<and> users_timer s' = users_timer s
    \<and> same_conf s s'"
proof (induction n arbitrary: s)
  case 0
  then show ?case by (simp add: user_closes_def)
next
  case (Suc n)
  then obtain s1 where s1: "timer_handler s = Some (Inr s1)" "alarms n s1 = Some (Inr s')"
    by (auto split: option.splits sum.splits)
  note c = timer_handler_closes [OF s1(1)]
  have "same_conf s s'" using c(6) Suc.IH [OF s1(2)] same_conf_trans by blast
  then show ?case using c(1,5) Suc.IH [OF s1(2)] user_closes_trans by auto
qed

text \<open>A client of the concrete server whose timer is due at the next alarm.\<close>

lemma demo_expiring:
  obtains s s1 where "srv_inv s" and "conf_ok s" and "live s 7" and "m_user_count (kernel s) < MAX_FD"
    and "timer_handler s = Some (Inr s1)" and "\<not> fd_open (kernel s1) 7"
    and "ep_table (kernel s1) (ws_listenfd s) = Some (addfd_events False 0)"
proof -
  obtain s where s: "srv_inv s" "conf_ok s" "ws_listenfd s = 3" "ws_pipefd0 s = 5" "\<not> fd_open (kernel s) 7"
    "ep_table (kernel s) 3 = Some (addfd_events False 0)" "users_timer s = (\<lambda>_. None)" "m_user_count (kernel s) = 0"
    by (rule demo_listening) auto
  let ?o = "opened s 7"
  have none: "ep_table (kernel s) 7 = None" using inv_parts(2) [OF s(1)] s(5) by (auto simp: os_inv_def)
  have o: "fresh_fd ?o 7" "fd_open (kernel ?o) 7" "conf_ok ?o"
    using s(2-4) none by (simp_all add: fresh_fd_def opened_def in_users_def MAX_FD_def conf_ok_def)
  obtain t a where t: "new_client ?o 0 7 1 = Inr t" "srv_inv t" "fd_of t = (fd_of ?o)(a \<mapsto> 7)" "same_conf ?o t"
      "due (timer_lst t) a = Some 15"
    by (rule new_client_ok [OF opened_inv(1) [OF s(1)] o, of 0 1])
  note n = new_client_result [OF t(1)]
  have "fd_of t a = Some 7" by (simp add: t(3))
  from alarms_due [OF t(2,5) this] obtain u v where u: "alarms 15 t = Some (Inr u)" "srv_inv u" "fd_of u a = Some 7"
      "timer_handler u = Some (Inr v)" "\<not> fd_open (kernel v) 7" by blast
  note k = alarms_keep [OF u(1)] and c = timer_handler_closes [OF u(4)]
  have users: "cd_sockfd d \<noteq> 3" if "users_timer t i = Some d" for i d
    using n(10) [OF that] by (auto simp: opened_def s(7))
  have "ep_table (kernel v) 3 = ep_table (kernel t) 3"
    using c(1) k users unfolding user_closes_def by metis
  moreover have "ep_table (kernel t) 3 = Some (addfd_events False 0)" by (simp add: n(1) ep_table_other opened_def s(6))
  moreover have l: "ws_listenfd u = 3" using k n(5) s(3) by (simp add: same_conf_def same_ends_def opened_def)
  moreover have "conf_ok u" using k t(4) o(3) conf_ok_same by blast
  moreover have "m_user_count (kernel u) < MAX_FD"
    using k by (simp add: user_closes_def n(1) opened_def s(8) MAX_FD_def)
  ultimately show ?thesis using that [OF u(2) _ _ _ u(4,5)] u(3) by (auto simp: live_def)
qed

theorem timer_takes_connection_witness:
  "\<exists>(r :: (string \<Rightarrow> string option, string list) running) r'. hands r = [Connected 7] \<and> (run_step demo_ext)\<^sup>*\<^sup>* r r'
    \<and> hands r' = [Connected 7] \<and> 2 \<le> holders r' 7 \<and> armed (kernel (main r')) 7"
proof -
  obtain s s1 where s: "srv_inv s" "conf_ok s" "live s 7" "m_user_count (kernel s) < MAX_FD"
    "timer_handler s = Some (Inr s1)" "\<not> fd_open (kernel s1) 7"
    "ep_table (kernel s1) (ws_listenfd s) = Some (addfd_events False 0)" by (rule demo_expiring)
  define r :: "(string \<Rightarrow> string option, string list) running" where
    "r = \<lparr>main = s, shared = demo_world, db_pool = None, hands = [Connected 7], batch = [], loop_flags = (True, False)\<rparr>"
  have f: "main r = s" "hands r = [Connected 7]" "batch r = []" "loop_flags r = (True, False)" by (simp_all add: r_def)
  from timer_takes_connection [where i = 0 and fd = 7 and r = r and ext = demo_ext, unfolded f, OF s(1-4) refl refl _ _ s(5-7)] f(2)
  show ?thesis by auto
qed

section \<open>A worker at work while a client connects\<close>

lemma demo_held_run:
  obtains s r where "eventListen demo_server 3 0 0 4 (Some (5, 6)) = Some (Inr s)" and "run_start s (demo_start s)"
    and "calm_run ext (demo_start s) r" and "hands r ! 0 = Fetched 7" and "length (hands r) = 2"
    and "srv_inv (main r)" and "conf_ok (main r)" and "\<not> fd_open (kernel (main r)) 8" and "peer (main r) 8"
    and "m_user_count (kernel (main r)) < MAX_FD"
    and "ep_table (kernel (main r)) (ws_listenfd (main r)) = Some (addfd_events False 0)"
    and "batch r = []" and "loop_flags r = (False, False)"
proof -
  obtain s where s: "eventListen demo_server 3 0 0 4 (Some (5, 6)) = Some (Inr s)" "srv_inv s" "conf_ok s"
    "ws_listenfd s = 3" "ws_pipefd0 s = 5" "\<not> fd_open (kernel s) 7"
    "ep_table (kernel s) 3 = Some (addfd_events False 0)" "users_timer s = (\<lambda>_. None)"
    "requests s = \<lparr>m_actor_model = 0, m_max_requests = 10000, m_workqueue = [], m_stop = False\<rparr>"
    "m_user_count (kernel s) = 0" "ws_CONNTrigmode s = Some 0" "\<not> fd_open (kernel s) 8" "ws_actormodel s = 0" by (rule demo_listening)
  let ?r = "demo_start s" and ?e = "accept_event 3 7 1"
  have st: "run_start s ?r" by (simp add: run_start_def demo_start_def s)
  have p: "in_users 7" "peer s 7" "m_user_count (kernel s) < MAX_FD" by (simp_all add: in_users_def MAX_FD_def peer_def s)
  obtain t where t: "handle_event s 0 (False, False) (accept_event (ws_listenfd s) 7 1) = Inr (t, (False, False))"
      "m_read_idx (conns t 7) = 0" "m_TRIGMode (conns t 7) = 0" "requests t = requests s" "srv_inv t" "live t 7" "same_conf s t"
      "\<And>g. g \<noteq> 7 \<Longrightarrow> fd_open (kernel t) g = fd_open (kernel s) g \<and> ep_table (kernel t) g = ep_table (kernel s) g"
      "m_user_count (kernel t) = 1" "reported (kernel t) (input_event 7 ''G'')"
    by (rule accept_event_ok [OF s(2,3) p(1) s(6) p(2,3), where now = 0 and flags = "(False, False)" and addr = 1 and bytes = "''G''"])
      (simp add: s)
  let ?r1 = "?r\<lparr>main := t\<rparr>"
  have eq: "?r\<lparr>main := s\<lparr>kernel := kernel s\<rparr>, batch := [?e]\<rparr> = ?r\<lparr>batch := [?e]\<rparr>"
    "?r\<lparr>batch := [?e], main := t, batch := [], loop_flags := (False, False)\<rparr> = ?r1"
    by (simp_all add: demo_start_def)
  have 1: "run_step ext ?r (?r\<lparr>batch := [?e]\<rparr>)" "run_step ext (?r\<lparr>batch := [?e]\<rparr>) ?r1"
    using run_step.poll [of ?r "[?e]" "kernel s" ext] reported_listen(2) [OF s(7)]
      run_step.event [of "?r\<lparr>batch := [?e]\<rparr>" ?e "[]" 0 t "(False, False)" ext] t(1) s(6) eq
    by (simp_all add: demo_start_def s(4) new_fds_def accept_event_def accepted_fd_def)
  have "\<not> busy ?r fd" "\<not> busy (?r\<lparr>batch := [?e]\<rparr>) fd" for fd by (simp_all add: busy_def demo_start_def s(9))
  with 1 have run1: "calm_run ext ?r ?r1" by (meson calm_run.intros calm_free)
  obtain a where a: "fd_of t a = Some 7" using t(6) by (auto simp: live_def)
  let ?c = "store (conns t 7) ''G''"
  have rd: "read_once (conns t 7) [Recv ''G''] = (?c, True)"
    using t(2,3) by (simp add: read_once_def recv_asked_def READ_BUFFER_SIZE_def)
  have q: "ws_actormodel t \<noteq> 1" "m_workqueue (requests t) = []" "\<not> m_stop (requests t)" "0 < m_max_requests (requests t)"
    using t(4,7) s(9,13) by (simp_all add: same_conf_def)
  obtain u where u: "calm_run ext ?r1 (?r1\<lparr>main := u\<rparr>)" "requests u = (requests t)\<lparr>m_workqueue := [7]\<rparr>"
      "kernel u = disarm (kernel t) 7" "srv_inv u" "same_conf t u"
    by (rule poll_and_read [of ?r1 a 7 "''G''" ?c ext]) (use t(5,10) a q rd in \<open>simp_all add: demo_start_def\<close>)
  let ?q = "(requests u)\<lparr>m_workqueue := []\<rparr>"
  let ?r3 = "?r1\<lparr>main := u\<lparr>requests := ?q\<rparr>, hands := [Fetched 7, Resting]\<rparr>"
  have "run_step ext (?r1\<lparr>main := u\<rparr>) ?r3"
    using run_step.take [of 0 "?r1\<lparr>main := u\<rparr>" ?q 7 ext] u(2) t(4) s(9) by (simp add: fetch_def served_def demo_start_def)
  moreover have "calm (?r1\<lparr>main := u\<rparr>) ?r3" by (simp add: calm_open)
  ultimately have "calm_run ext ?r1 ?r3" using u(1) by (metis calm_run.intros(2))
  then have run: "calm_run ext ?r ?r3" by (rule calm_append [OF _ run1])
  have inv: "srv_inv (u\<lparr>requests := ?q\<rparr>)"
    using update_client(1) [OF u(4) same_fds_refl, of "conns u 7" 7 ?q] by simp
  have conf: "conf_ok (u\<lparr>requests := ?q\<rparr>)" "ws_listenfd u = 3" "ws_pipefd0 u = 5"
    using conf_ok_same [OF same_conf_trans [OF t(7) u(5)]] s(3-5) t(7) u(5) by (simp_all add: conf_ok_def same_conf_def)
  show ?thesis
    by (rule that [OF s(1) st run])
      (use inv conf t(8) [of 8] t(8) [of 3] t(9) s(7,12) in \<open>simp_all add: u(3) peer_def MAX_FD_def demo_start_def\<close>)
qed

theorem worker_undisturbed_witness:
  "\<exists>s r r'. eventListen demo_server 3 0 0 4 (Some (5, 6)) = Some (Inr s) \<and> calm_run demo_ext (demo_start s) r
    \<and> hands r ! 0 = Fetched 7 \<and> run_step demo_ext r r' \<and> armed (kernel (main r')) 8
    \<and> (conns (main r') 7)\<lparr>mysql := None\<rparr> = (conns (main r) 7)\<lparr>mysql := None\<rparr>"
proof -
  obtain s r where s: "eventListen demo_server 3 0 0 4 (Some (5, 6)) = Some (Inr s)" "run_start s (demo_start s)"
    "calm_run demo_ext (demo_start s) r" "hands r ! 0 = Fetched 7" "length (hands r) = 2"
    and r: "srv_inv (main r)" "conf_ok (main r)" "\<not> fd_open (kernel (main r)) 8" "peer (main r) 8"
    "m_user_count (kernel (main r)) < MAX_FD"
    "ep_table (kernel (main r)) (ws_listenfd (main r)) = Some (addfd_events False 0)"
    "batch r = []" "loop_flags r = (False, False)" by (rule demo_held_run)
  have b: "blank_server demo_server" by (simp add: blank_server_def demo_server_def conf_ok_def)
  let ?r1 = "r\<lparr>batch := [accept_event (ws_listenfd (main r)) 8 1]\<rparr>"
  have "in_users 8" by (simp add: in_users_def MAX_FD_def)
  then obtain t where t: "run_step demo_ext r ?r1" "run_step demo_ext ?r1 (r\<lparr>main := t\<rparr>)" "armed (kernel t) 8"
    by (rule listen_and_accept [OF r(1,2) _ r(3-8), of 1 demo_ext])
  have "calm r ?r1" by (simp add: calm_open)
  with s(3) t(1) have run: "calm_run demo_ext (demo_start s) ?r1" by (rule calm_run.intros(2))
  have "(conns (main (r\<lparr>main := t\<rparr>)) 7)\<lparr>mysql := None\<rparr> = (conns (main ?r1) 7)\<lparr>mysql := None\<rparr>"
    by (rule worker_undisturbed [OF b s(1) _ s(2) run t(2), of 0]) (use s(4,5) in simp_all)
  with s(1,4) run t(2,3) show ?thesis
    by (intro exI [of _ s] exI [of _ ?r1] exI [of _ "r\<lparr>main := t\<rparr>"]) simp
qed

end
