(* ===== verification/Block_Queue.thy ===== *)
theory Block_Queue
  imports Bounded_Fifo "HOL-Library.Signed_Division"
begin

text \<open>
  \<open>block_queue<T>\<close> (\<open>log/block_queue.h\<close>), the circular array behind the asynchronous log.

  Every operation holds \<open>m_mutex\<close> from its first to its last access, so an operation is one
  step. \<open>pop\<close> may wait on the condition variable, which releases the mutex: what happens then
  is a list of wake-ups, each a failed wait or the state of the queue when the mutex is held
  again. A \<open>pop\<close> whose list is used up is still waiting (\<open>None\<close>). Waking all waiters
  (\<open>broadcast\<close>) has no effect on the queue.
\<close>

record 'a block_queue =
  m_array :: "int \<Rightarrow> 'a"
  m_size :: int
  m_max_size :: int
  m_front :: int
  m_back :: int

definition new_block_queue :: "'a \<Rightarrow> int \<Rightarrow> 'a block_queue option" where
  "new_block_queue d max_size =
     (if max_size \<le> 0 then None
      else Some \<lparr>m_array = (\<lambda>_. d), m_size = 0, m_max_size = max_size, m_front = -1, m_back = -1\<rparr>)"

definition array_at :: "'a block_queue \<Rightarrow> int \<Rightarrow> 'a res" where
  "array_at q i = (if 0 \<le> i \<and> i < m_max_size q then Inr (m_array q i) else Inl Out_Of_Bounds)"

definition clear :: "'a block_queue \<Rightarrow> 'a block_queue" where
  "clear q = q\<lparr>m_size := 0, m_front := -1, m_back := -1\<rparr>"

definition full :: "'a block_queue \<Rightarrow> bool" where
  "full q = (m_size q \<ge> m_max_size q)"

definition is_empty :: "'a block_queue \<Rightarrow> bool" where
  "is_empty q = (0 = m_size q)"

definition queue_size :: "'a block_queue \<Rightarrow> int" where
  "queue_size q = m_size q"

definition queue_max_size :: "'a block_queue \<Rightarrow> int" where
  "queue_max_size q = m_max_size q"

text \<open>\<open>front\<close> and \<open>back\<close>: the out parameter and the result in one option.\<close>

definition front :: "'a block_queue \<Rightarrow> 'a option res" where
  "front q = (if 0 = m_size q then Inr None else rbind (array_at q (m_front q)) (\<lambda>v. Inr (Some v)))"

definition rear :: "'a block_queue \<Rightarrow> 'a option res" where
  "rear q = (if 0 = m_size q then Inr None else rbind (array_at q (m_back q)) (\<lambda>v. Inr (Some v)))"

definition push :: "'a block_queue \<Rightarrow> 'a \<Rightarrow> 'a block_queue \<times> bool" where
  "push q item =
     (if m_size q \<ge> m_max_size q then (q, False)
      else let back' = (m_back q + 1) smod m_max_size q
           in (q\<lparr>m_back := back', m_array := (m_array q)(back' := item), m_size := m_size q + 1\<rparr>, True))"

text \<open>The part of both \<open>pop\<close>s that follows the waiting.\<close>

definition dequeue :: "'a block_queue \<Rightarrow> 'a block_queue \<times> 'a" where
  "dequeue q =
     (let front' = (m_front q + 1) smod m_max_size q
      in (q\<lparr>m_front := front', m_size := m_size q - 1\<rparr>, m_array q front'))"

datatype 'a wake = Wait_Failed | Woken "'a block_queue"

fun pop :: "'a block_queue \<Rightarrow> 'a wake list \<Rightarrow> ('a block_queue \<times> 'a option) option" where
  "pop q ws =
     (if m_size q \<le> 0 then
        (case ws of
           [] \<Rightarrow> None
         | Wait_Failed # _ \<Rightarrow> Some (q, None)
         | Woken q1 # ws' \<Rightarrow> pop q1 ws')
      else Some (map_prod id Some (dequeue q)))"

declare pop.simps [simp del]

text \<open>The deadline that the timed \<open>pop\<close> passes to \<open>timewait\<close>: seconds and nanoseconds.\<close>

definition deadline :: "int \<Rightarrow> int \<Rightarrow> int \<times> int" where
  "deadline now_sec ms_timeout = (now_sec + ms_timeout sdiv 1000, (ms_timeout smod 1000) * 1000)"

text \<open>Here the list of wake-ups has at most one element: this \<open>pop\<close> waits once.\<close>

definition pop_timed :: "'a block_queue \<Rightarrow> 'a wake option \<Rightarrow> ('a block_queue \<times> 'a option) option" where
  "pop_timed q w =
     (if m_size q \<le> 0 then
        (case w of
           None \<Rightarrow> None
         | Some Wait_Failed \<Rightarrow> Some (q, None)
         | Some (Woken q1) \<Rightarrow> if m_size q1 \<le> 0 then Some (q1, None) else Some (map_prod id Some (dequeue q1)))
      else Some (map_prod id Some (dequeue q)))"

section \<open>The queue as a list\<close>

definition queue_inv :: "'a block_queue \<Rightarrow> bool" where
  "queue_inv q \<longleftrightarrow> 0 < m_max_size q \<and> 0 \<le> m_size q \<and> m_size q \<le> m_max_size q
     \<and> -1 \<le> m_front q \<and> m_front q < m_max_size q \<and> -1 \<le> m_back q \<and> m_back q < m_max_size q
     \<and> (m_front q + m_size q) mod m_max_size q = m_back q mod m_max_size q"

definition contents :: "'a block_queue \<Rightarrow> 'a list" where
  "contents q = map (\<lambda>k. m_array q ((m_front q + 1 + int k) mod m_max_size q)) [0..<nat (m_size q)]"

lemma length_contents [simp]: "length (contents q) = nat (m_size q)"
  by (simp add: contents_def)

text \<open>The observers agree with the contents.\<close>

lemma observers:
  assumes "queue_inv q"
  shows "queue_size q = int (length (contents q))" and "queue_size q \<le> queue_max_size q"
    and "is_empty q \<longleftrightarrow> contents q = []" and "full q \<longleftrightarrow> queue_size q = queue_max_size q"
proof -
  show "queue_size q = int (length (contents q))" using assms by (simp add: queue_size_def queue_inv_def)
  show "queue_size q \<le> queue_max_size q" using assms by (simp add: queue_size_def queue_max_size_def queue_inv_def)
  have "contents q = [] \<longleftrightarrow> m_size q = 0" using assms by (auto simp: contents_def queue_inv_def)
  then show "is_empty q \<longleftrightarrow> contents q = []" by (auto simp: is_empty_def)
  show "full q \<longleftrightarrow> queue_size q = queue_max_size q"
    using assms by (auto simp: full_def queue_size_def queue_max_size_def queue_inv_def)
qed

lemma smod_mod: "0 \<le> x \<Longrightarrow> 0 < n \<Longrightarrow> x smod n = x mod (n::int)"
  by (simp add: signed_modulo_int_def sgn_if)

lemma new_block_queue_inv:
  "new_block_queue d n = Some q \<Longrightarrow> queue_inv q \<and> contents q = [] \<and> m_max_size q = n"
  by (auto simp: new_block_queue_def queue_inv_def contents_def split: if_splits)

lemma clear_inv: "queue_inv q \<Longrightarrow> queue_inv (clear q) \<and> contents (clear q) = []"
  by (simp add: queue_inv_def clear_def contents_def)

lemma mod_inj:
  fixes n :: int
  assumes "0 < n" and "(a + int i) mod n = (a + int j) mod n" and "int i < n" "int j < n"
  shows "i = j"
proof -
  have "n dvd (a + int i) - (a + int j)" using assms(2) by (simp add: mod_eq_dvd_iff)
  then have "n dvd int i - int j" by simp
  moreover have "\<bar>int i - int j\<bar> < n" using assms by simp
  ultimately have "int i - int j = 0" using assms(1) by (metis dvd_imp_le_int linorder_not_le abs_of_pos)
  then show ?thesis by simp
qed

lemma push_spec:
  assumes "queue_inv q"
  shows "queue_inv (fst (push q x)) \<and> m_max_size (fst (push q x)) = m_max_size q
    \<and> snd (push q x) = (length (contents q) < nat (m_max_size q))
    \<and> contents (fst (push q x)) = (if length (contents q) < nat (m_max_size q) then contents q @ [x] else contents q)"
proof (cases "m_size q \<ge> m_max_size q")
  case True
  then have "push q x = (q, False)" by (simp add: push_def)
  moreover have "\<not> length (contents q) < nat (m_max_size q)" using True assms by (simp add: queue_inv_def)
  ultimately show ?thesis using assms by simp
next
  case False
  let ?n = "m_max_size q"
  have inv: "0 < ?n" "0 \<le> m_size q" "m_size q < ?n" "-1 \<le> m_front q" "m_front q < ?n" "-1 \<le> m_back q"
    "m_back q < ?n" "(m_front q + m_size q) mod ?n = m_back q mod ?n"
    using assms False by (auto simp: queue_inv_def)
  have back': "(m_back q + 1) smod ?n = (m_back q + 1) mod ?n" using inv by (intro smod_mod) simp_all
  have at: "(m_back q + 1) mod ?n = (m_front q + 1 + int (nat (m_size q))) mod ?n"
    using inv(2,8) mod_add_cong [OF inv(8), of 1 1] by (simp add: algebra_simps)
  let ?q' = "q\<lparr>m_back := (m_back q + 1) mod ?n, m_array := (m_array q)((m_back q + 1) mod ?n := x), m_size := m_size q + 1\<rparr>"
  have push: "push q x = (?q', True)" using False back' by (simp add: push_def Let_def)
  have "contents ?q' = contents q @ [x]"
  proof (rule nth_equalityI)
    show "length (contents ?q') = length (contents q @ [x])" using inv(2) by simp
    fix k assume k: "k < length (contents ?q')"
    show "contents ?q' ! k = (contents q @ [x]) ! k"
    proof (cases "k < nat (m_size q)")
      case True
      have "(m_front q + 1 + int k) mod ?n \<noteq> (m_back q + 1) mod ?n"
        using mod_inj [OF inv(1), of "m_front q + 1" k "nat (m_size q)"] True inv at by auto
      with True k show ?thesis by (simp add: contents_def nth_append)
    next
      case False
      then have "k = nat (m_size q)" using k inv(2) by (simp add: nat_add_distrib)
      with at k show ?thesis by (simp add: contents_def nth_append)
    qed
  qed
  moreover have "queue_inv ?q'"
  proof -
    have "(m_front q + (m_size q + 1)) mod ?n = (m_back q + 1) mod ?n" using at inv(2) by (simp add: algebra_simps)
    moreover have "-1 \<le> (m_back q + 1) mod ?n" "(m_back q + 1) mod ?n < ?n"
      using inv(1) pos_mod_sign [of ?n "m_back q + 1"] pos_mod_bound [of ?n "m_back q + 1"] by linarith+
    ultimately show ?thesis using inv by (simp add: queue_inv_def)
  qed
  ultimately show ?thesis using push inv by simp
qed

lemma dequeue_spec:
  assumes "queue_inv q" and "0 < m_size q"
  shows "queue_inv (fst (dequeue q)) \<and> m_max_size (fst (dequeue q)) = m_max_size q
    \<and> contents q = snd (dequeue q) # contents (fst (dequeue q))"
proof -
  let ?n = "m_max_size q" and ?f = "(m_front q + 1) mod m_max_size q"
  have inv: "0 < ?n" "m_size q \<le> ?n" "-1 \<le> m_front q" "m_front q < ?n" "-1 \<le> m_back q"
    "m_back q < ?n" "(m_front q + m_size q) mod ?n = m_back q mod ?n"
    using assms by (auto simp: queue_inv_def)
  have f: "(m_front q + 1) smod ?n = ?f" using inv by (intro smod_mod) simp_all
  have deq: "dequeue q = (q\<lparr>m_front := ?f, m_size := m_size q - 1\<rparr>, m_array q ?f)"
    by (simp add: dequeue_def f Let_def)
  have "(?f + (m_size q - 1)) mod ?n = m_back q mod ?n"
    using inv(7) mod_add_left_eq [of "m_front q + 1" ?n "m_size q - 1"] by simp
  moreover have "-1 \<le> ?f" "?f < ?n"
    using inv(1) pos_mod_sign [of ?n "m_front q + 1"] pos_mod_bound [of ?n "m_front q + 1"] by linarith+
  ultimately have "queue_inv (fst (dequeue q))" using inv assms(2) by (simp add: deq queue_inv_def)
  moreover have "contents q = snd (dequeue q) # contents (fst (dequeue q))"
  proof (rule nth_equalityI)
    show "length (contents q) = length (snd (dequeue q) # contents (fst (dequeue q)))"
      using assms(2) by (simp add: deq)
    fix k assume k: "k < length (contents q)"
    show "contents q ! k = (snd (dequeue q) # contents (fst (dequeue q))) ! k"
    proof (cases k)
      case 0
      with k show ?thesis by (simp add: contents_def deq)
    next
      case (Suc j)
      have "(m_front q + 1 + int (Suc j)) mod ?n = (?f + 1 + int j) mod ?n"
        using mod_add_left_eq [of "m_front q + 1" ?n "1 + int j"] by (simp add: ac_simps)
      moreover have "j < nat (m_size q - 1)" using Suc k by simp
      ultimately show ?thesis using Suc k by (simp add: contents_def deq)
    qed
  qed
  ultimately show ?thesis by (simp add: deq)
qed

section \<open>The interface\<close>

definition try_pop :: "'a block_queue \<Rightarrow> ('a block_queue \<times> 'a) option" where
  "try_pop q = (if m_size q \<le> 0 then None else Some (dequeue q))"

interpretation log_queue: bounded_fifo queue_inv contents "\<lambda>q. nat (m_max_size q)" push try_pop
proof (unfold_locales, goal_cases)
  case (1 q)
  then show ?case by (simp add: queue_inv_def nat_mono)
next
  case (2 q x)
  then show ?case using push_spec [of q x] by simp
next
  case (3 q)
  show ?case by (simp add: try_pop_def contents_def)
next
  case (4 q q' x)
  then show ?case using dequeue_spec [of q] by (auto simp: try_pop_def split: if_splits)
qed

section \<open>The claims\<close>

text \<open>A run of \<open>push\<close>es and \<open>pop\<close>s that do not have to wait.\<close>

fun queue_run :: "'a block_queue \<Rightarrow> 'a qop list \<Rightarrow> 'a block_queue \<times> 'a list \<times> 'a list" where
  "queue_run q [] = (q, [], [])"
| "queue_run q (Put x # ops) =
     (case push q x of (q1, b) \<Rightarrow>
      (case queue_run q1 ops of (q2, ins, outs) \<Rightarrow> (q2, (if b then [x] else []) @ ins, outs)))"
| "queue_run q (Take # ops) =
     (case try_pop q of
        None \<Rightarrow> queue_run q ops
      | Some (q1, x) \<Rightarrow> (case queue_run q1 ops of (q2, ins, outs) \<Rightarrow> (q2, ins, x # outs)))"

lemma queue_run_eq: "queue_run q ops = log_queue.run q ops"
  by (induction q ops rule: queue_run.induct) (auto split: prod.splits option.splits)

text \<open>
  C16. Through any sequence of operations the circular array is a first-in first-out queue: what
  was in it and what was accepted is what was taken out, in that order, and what is still there.
\<close>

theorem block_queue_fifo:
  assumes "queue_inv q" and "queue_run q ops = (q', ins, outs)"
  shows "queue_inv q' \<and> contents q @ ins = outs @ contents q' \<and> length (contents q') \<le> nat (m_max_size q)"
  using log_queue.fifo [OF assms(1)] log_queue.never_over_capacity [OF assms(1)] assms(2)
  unfolding queue_run_eq by blast

definition queue3 :: "nat block_queue" where
  "queue3 = the (new_block_queue 0 3)"

lemma queue3_inv: "queue_inv queue3" "contents queue3 = []"
  using new_block_queue_inv [of 0 3 queue3] by (simp_all add: queue3_def new_block_queue_def)

theorem block_queue_fifo_witness:
  "snd (queue_run queue3 [Put 7, Put 8, Take, Put 9, Put 10, Put 11, Take]) = ([7, 8, 9, 10], [7, 8])
   \<and> contents (fst (queue_run queue3 [Put 7, Put 8, Take, Put 9, Put 10, Put 11, Take])) = [9, 10]"
proof -
  let ?ops = "[Put 7, Put 8, Take, Put 9, Put 10, Put 11, Take] :: nat qop list"
  have r: "snd (queue_run queue3 ?ops) = ([7, 8, 9, 10], [7, 8])"
    by (simp add: queue3_def new_block_queue_def push_def try_pop_def dequeue_def Let_def smod_mod)
  then obtain q' where q': "queue_run queue3 ?ops = (q', [7, 8, 9, 10], [7, 8])" by (metis prod.collapse)
  from block_queue_fifo [OF queue3_inv(1) q'] queue3_inv(2) r q' show ?thesis by simp
qed

text \<open>
  A \<open>pop\<close> that returns an element returns the oldest one of the queue as it was when its
  waiting ended; it never takes from an empty queue, however often it is woken for nothing.
\<close>

theorem pop_takes_oldest:
  assumes "queue_inv q" and "\<forall>w \<in> set ws. case w of Wait_Failed \<Rightarrow> True | Woken q1 \<Rightarrow> queue_inv q1"
    and "pop q ws = Some (q', Some x)"
  shows "\<exists>q1. (q1 = q \<or> Woken q1 \<in> set ws) \<and> contents q1 = x # contents q' \<and> queue_inv q'"
  using assms
proof (induction q ws rule: pop.induct)
  case (1 q ws)
  show ?case
  proof (cases "m_size q \<le> 0")
    case False
    then have "q' = fst (dequeue q)" "x = snd (dequeue q)"
      using "1.prems"(3) by (simp_all add: pop.simps [of q ws] map_prod_def split: prod.splits)
    with dequeue_spec [OF "1.prems"(1)] False show ?thesis by auto
  next
    case True
    with "1.prems"(3) obtain q1 ws' where ws: "ws = Woken q1 # ws'" and p: "pop q1 ws' = Some (q', Some x)"
      by (auto simp: pop.simps [of q ws] split: list.splits wake.splits)
    from "1.IH" [OF True ws] "1.prems"(2) p ws obtain q2 where
      "(q2 = q1 \<or> Woken q2 \<in> set ws')" "contents q2 = x # contents q'" "queue_inv q'" by auto
    with ws show ?thesis by auto
  qed
qed

theorem pop_takes_oldest_witness:
  "\<exists>q'. pop queue3 [Woken queue3, Woken (fst (push queue3 5))] = Some (q', Some 5)
     \<and> contents (fst (push queue3 5)) = 5 # contents q'"
proof -
  have pop: "\<exists>q'. pop queue3 [Woken queue3, Woken (fst (push queue3 5))] = Some (q', Some 5)"
    by (simp add: pop.simps queue3_def new_block_queue_def push_def dequeue_def Let_def smod_mod map_prod_def)
  then obtain q' where q': "pop queue3 [Woken queue3, Woken (fst (push queue3 5))] = Some (q', Some 5)" by blast
  have inv: "queue_inv (fst (push queue3 5))" using push_spec [OF queue3_inv(1)] by blast
  from pop_takes_oldest [OF queue3_inv(1) _ q'] inv queue3_inv
  show ?thesis using q' by auto
qed

text \<open>
  \<open>front\<close> does not return the oldest element: it reads the cell before it, which on a fresh
  queue lies outside the array.
\<close>

theorem front_reads_wrong_cell:
  assumes "new_block_queue d n = Some q"
  shows "front (fst (push q x)) = Inl Out_Of_Bounds \<and> contents (fst (push q x)) = [x]"
proof -
  have inv: "queue_inv q" "contents q = []" "m_max_size q = n" using new_block_queue_inv [OF assms] by auto
  have n: "0 < n" using inv by (simp add: queue_inv_def)
  have "contents (fst (push q x)) = [x]" using push_spec [OF inv(1), of x] inv n by simp
  moreover have "front (fst (push q x)) = Inl Out_Of_Bounds"
    using assms n by (auto simp: front_def push_def new_block_queue_def array_at_def)
  ultimately show ?thesis by blast
qed

theorem front_reads_wrong_cell_witness: "front (fst (push queue3 5)) = Inl Out_Of_Bounds"
  using front_reads_wrong_cell [of 0 3 queue3 5] by (simp add: queue3_def new_block_queue_def)

text \<open>
  The timed \<open>pop\<close> waits too short: the milliseconds below a second are turned into as many
  microseconds.
\<close>

theorem deadline_too_short:
  assumes "0 \<le> ms" and "ms < 1000"
  shows "deadline s ms = (s, ms * 1000) \<and> (0 < ms \<longrightarrow> snd (deadline s ms) < ms * 1000000)"
proof -
  have "ms sdiv 1000 = 0" using assms by (simp add: signed_divide_int_def)
  moreover have "ms smod 1000 = ms" using assms by (simp add: smod_mod)
  ultimately show ?thesis by (simp add: deadline_def)
qed

theorem deadline_too_short_witness: "deadline 100 500 = (100, 500000)"
  using deadline_too_short [of 500 100] by simp

end
