(* ===== verification/Signals.thy ===== *)
theory Signals
  imports Web_Server
begin

text \<open>
  The signals of the server: \<open>Utils::init\<close> and \<open>Utils::addsig\<close> (\<open>timer/lst_timer.cpp\<close>) and how
  \<open>eventListen\<close> (\<open>webserver.cpp\<close>) calls them. What becomes of a signal that arrives depends on the
  action installed for it; without an action of the program it ends the process.
\<close>

definition SIGPIPE :: nat where "SIGPIPE = 13"

datatype handler = SIG_IGN | Sig_Handler

record sigaction =
  sa_handler :: handler
  sa_restart :: bool
  sa_mask_full :: bool

type_synonym actions = "nat \<Rightarrow> sigaction option"

text \<open>\<open>addsig\<close>: the asserted \<open>sigaction\<close> fails for a number that is no signal, and the program aborts.\<close>

definition addsig :: "(nat \<Rightarrow> bool) \<Rightarrow> actions \<Rightarrow> nat \<Rightarrow> handler \<Rightarrow> bool \<Rightarrow> actions option" where
  "addsig valid acts sig handler restart =
     (let sa = \<lparr>sa_handler = handler, sa_restart = restart, sa_mask_full = True\<rparr>
      in if valid sig then Some (acts(sig \<mapsto> sa)) else None)"

text \<open>The members \<open>m_TIMESLOT\<close> and the actions after the calls in \<open>eventListen\<close>.\<close>

definition utils_init :: "int \<Rightarrow> int" where
  "utils_init timeslot = timeslot"

definition install_signals :: "(nat \<Rightarrow> bool) \<Rightarrow> actions \<Rightarrow> (int \<times> actions) option" where
  "install_signals valid acts =
     (case addsig valid acts SIGPIPE SIG_IGN True of
        None \<Rightarrow> None
      | Some a1 \<Rightarrow> (case addsig valid a1 SIGALRM Sig_Handler False of
          None \<Rightarrow> None
        | Some a2 \<Rightarrow> map_option (\<lambda>a3. (utils_init TIMESLOT, a3)) (addsig valid a2 SIGTERM Sig_Handler False)))"

text \<open>
  A signal that arrives while the main thread is in \<open>epoll_wait\<close>: the bytes in the pipe, and
  whether the call is interrupted; \<open>None\<close> when the process ends. \<open>epoll_wait\<close> is not taken up
  again after a handler, with \<open>SA_RESTART\<close> or without.
\<close>

definition arrives :: "actions \<Rightarrow> nat \<Rightarrow> nat list \<Rightarrow> (nat list \<times> bool) option" where
  "arrives acts sig pipe = (case acts sig of
     None \<Rightarrow> None
   | Some sa \<Rightarrow> (case sa_handler sa of
       SIG_IGN \<Rightarrow> Some (pipe, False)
     | Sig_Handler \<Rightarrow> Some (sig_handler pipe sig, True)))"

text \<open>
  Writing to a connection that its client has closed does not end the server. The alarm and
  \<open>SIGTERM\<close> leave their byte in the pipe and interrupt \<open>epoll_wait\<close>, whose error is then
  \<open>EINTR\<close>: the event loop goes on to its next round, where the byte is an event of the pipe.
\<close>

theorem signals_arrive:
  assumes "install_signals valid acts = Some (slot, a)"
  shows "arrives a SIGPIPE pipe = Some (pipe, False)"
    and "sig = SIGALRM \<or> sig = SIGTERM \<Longrightarrow> arrives a sig pipe = Some (pipe @ [sig], True)"
    and "slot = TIMESLOT"
  using assms
  by (auto simp: install_signals_def addsig_def Let_def arrives_def sig_handler_def utils_init_def
      SIGPIPE_def SIGALRM_def SIGTERM_def split: if_splits option.splits)

text \<open>The bytes that are then in the pipe set the flags of the loop.\<close>

lemma interrupted_loop_goes_on:
  assumes "install_signals valid acts = Some (slot, a)" and "sig = SIGALRM \<or> sig = SIGTERM"
  shows "\<exists>bytes. arrives a sig [] = Some (bytes, True) \<and> event_loop s (False, False) (Wait_Error True # rs) = event_loop s (False, False) rs
    \<and> dealwithsignal (Some bytes) (False, False) = ((sig = SIGALRM, sig = SIGTERM), True)"
  using signals_arrive(2) [OF assms(1,2), of "[]"] assms(2)
  by (auto simp: after_events_def dealwithsignal_def SIGALRM_def SIGTERM_def)

end
