(* ===== verification/Teardown.thy ===== *)
theory Teardown
  imports Server_Inv
begin

text \<open>
  The end of the server (\<open>webserver.cpp\<close>, \<open>timer/lst_timer.cpp\<close>, \<open>threadpool/threadpool.h\<close>): when the
  event loop returns, \<open>main\<close> destroys the \<open>WebServer\<close>. The body of its destructor closes four
  descriptors and frees \<open>m_root\<close>; then the members go, in the reverse of the order of their
  declarations, so the wheel inside \<open>utils\<close> goes before \<open>m_pool\<close>, whose destructor calls \<open>stop\<close>.

  The destructor of the wheel walks lists of pointers and is a \<open>partial_function\<close> like \<open>tick\<close>;
  the theorem is that it returns, frees every timer once and uses none that it has freed.
\<close>

section \<open>The destructor of the wheel\<close>

partial_function (option) clear_slot :: "time_wheel \<Rightarrow> int \<Rightarrow> addr option \<Rightarrow> time_wheel res option" where
  "clear_slot w i tmp =
     (case tmp of
        None \<Rightarrow> Some (Inr w)
      | Some a \<Rightarrow>
          (case rbind (deref w tmp) (\<lambda>t. rbind (set_slot w i (t_next t)) (\<lambda>w1.
             rbind (delete_timer w1 a) (\<lambda>w2. rbind (slot_at w2 i) (\<lambda>p. Inr (w2, p))))) of
             Inl e \<Rightarrow> Some (Inl e)
           | Inr r \<Rightarrow> clear_slot (fst r) i (snd r)))"

fun clear_slots :: "time_wheel \<Rightarrow> int list \<Rightarrow> time_wheel res option" where
  "clear_slots w [] = Some (Inr w)"
| "clear_slots w (i # js) =
     (case slot_at w i of
        Inl e \<Rightarrow> Some (Inl e)
      | Inr tmp \<Rightarrow>
          (case clear_slot w i tmp of
             None \<Rightarrow> None
           | Some (Inl e) \<Rightarrow> Some (Inl e)
           | Some (Inr w1) \<Rightarrow> clear_slots w1 js))"

definition destroy_wheel :: "time_wheel \<Rightarrow> time_wheel res option" where
  "destroy_wheel w = clear_slots w [0..WHEEL_N - 1]"

text \<open>Only the \<open>next\<close> pointers count here; a \<open>prev\<close> may point to a timer already freed.\<close>

fun next_chain :: "timers \<Rightarrow> addr option \<Rightarrow> addr list \<Rightarrow> bool" where
  "next_chain m h [] = (h = None)"
| "next_chain m h (x # xs) = (h = Some x \<and> (case m x of None \<Rightarrow> False | Some t \<Rightarrow> next_chain m (t_next t) xs))"

lemma next_chain_dll: "dll m p h xs \<Longrightarrow> next_chain m h xs"
proof (induction xs arbitrary: p h)
  case (Cons x xs)
  then obtain t where "m x = Some t" "h = Some x" "dll m (Some x) (t_next t) xs"
    by (auto simp: dll_def split: option.splits)
  with Cons.IH show ?case by simp
qed (simp add: dll_def)

lemma next_chain_off: "next_chain m h xs \<Longrightarrow> (\<And>x. x \<in> set xs \<Longrightarrow> m' x = m x) \<Longrightarrow> next_chain m' h xs"
  by (induction xs arbitrary: h) (auto split: option.splits)

definition without :: "timers \<Rightarrow> addr set \<Rightarrow> timers" where
  "without m A a = (if a \<in> A then None else m a)"

lemma clear_slot_ok:
  assumes "rep w m sl c" and "0 \<le> i" and "i < WHEEL_N" and "next_chain m (sl i) xs" and "distinct xs"
  shows "\<exists>w'. clear_slot w i (sl i) = Some (Inr w') \<and> rep w' (without m (set xs)) (sl(i := None)) c"
  using assms
proof (induction xs arbitrary: w m sl)
  case Nil
  then have "sl i = None" by simp
  moreover have "without m {} = m" by (simp add: without_def fun_eq_iff)
  ultimately show ?case using Nil(1) by (simp add: clear_slot.simps fun_upd_idem)
next
  case (Cons a xs)
  from Cons.prems(4) obtain t where h: "sl i = Some a" and t: "m a = Some t" "next_chain m (t_next t) xs"
    by (auto split: option.splits)
  obtain w1 where w1: "set_slot w i (t_next t) = Inr w1" "rep w1 m (sl(i := t_next t)) c"
    by (rule set_slotE [OF Cons.prems(1-3)])
  obtain w2 where w2: "delete_timer w1 a = Inr w2" "rep w2 (m(a := None)) (sl(i := t_next t)) c"
    using t(1) by (auto intro: deleteE [OF w1(2), of a])
  have s: "slot_at w2 i = Inr (t_next t)" using slot_at_rep [OF w2(2) Cons.prems(2,3)] by simp
  have step: "clear_slot w i (sl i) = clear_slot w2 i (t_next t)"
    using deref_rep [OF Cons.prems(1) t(1)] by (subst clear_slot.simps) (simp add: h w1(1) w2(1) s)
  have "next_chain (m(a := None)) ((sl(i := t_next t)) i) xs"
    using t(2) Cons.prems(5) by (auto intro: next_chain_off)
  moreover have "distinct xs" using Cons.prems(5) by simp
  ultimately obtain w' where w': "clear_slot w2 i ((sl(i := t_next t)) i) = Some (Inr w')"
      "rep w' (without (m(a := None)) (set xs)) ((sl(i := t_next t))(i := None)) c"
    using Cons.IH [OF w2(2) Cons.prems(2,3)] by blast
  have "without (m(a := None)) (set xs) = without m (set (a # xs))" by (auto simp: without_def fun_eq_iff)
  with w' have "rep w' (without m (set (a # xs))) (sl(i := None)) c" by (simp only: fun_upd_upd)
  moreover have "clear_slot w i (sl i) = Some (Inr w')" using w'(1) step by simp
  ultimately show ?case by blast
qed

lemma clear_slots_ok:
  assumes "rep w m sl c" and "\<forall>i \<in> set js. 0 \<le> i \<and> i < WHEEL_N \<and> next_chain m (sl i) (xs i) \<and> distinct (xs i)"
    and "distinct js" and "\<forall>i \<in> set js. \<forall>j \<in> set js. i \<noteq> j \<longrightarrow> set (xs i) \<inter> set (xs j) = {}"
  shows "\<exists>w'. clear_slots w js = Some (Inr w')
    \<and> rep w' (without m (\<Union>i \<in> set js. set (xs i))) (\<lambda>i. if i \<in> set js then None else sl i) c"
  using assms
proof (induction js arbitrary: w m sl)
  case Nil
  moreover have "without m {} = m" by (simp add: without_def fun_eq_iff)
  ultimately show ?case by simp
next
  case (Cons i js)
  have i: "0 \<le> i" "i < WHEEL_N" "next_chain m (sl i) (xs i)" "distinct (xs i)" using Cons.prems(2) by simp_all
  obtain w1 where w1: "clear_slot w i (sl i) = Some (Inr w1)" "rep w1 (without m (set (xs i))) (sl(i := None)) c"
    using clear_slot_ok [OF Cons.prems(1) i] by blast
  have "\<forall>j \<in> set js. 0 \<le> j \<and> j < WHEEL_N \<and> next_chain (without m (set (xs i))) ((sl(i := None)) j) (xs j) \<and> distinct (xs j)"
  proof
    fix j assume j: "j \<in> set js"
    then have "i \<noteq> j" using Cons.prems(3) by auto
    then have e: "(sl(i := None)) j = sl j" by simp
    have p: "0 \<le> j \<and> j < WHEEL_N \<and> next_chain m (sl j) (xs j) \<and> distinct (xs j)" using Cons.prems(2) j by simp
    have "set (xs i) \<inter> set (xs j) = {}" using Cons.prems(4) j \<open>i \<noteq> j\<close> by (meson list.set_intros)
    then have off: "without m (set (xs i)) x = m x" if "x \<in> set (xs j)" for x
      using that unfolding without_def by auto
    have "next_chain m (sl j) (xs j)" using p by blast
    then have "next_chain (without m (set (xs i))) (sl j) (xs j)" by (rule next_chain_off) (rule off)
    with p show "0 \<le> j \<and> j < WHEEL_N \<and> next_chain (without m (set (xs i))) ((sl(i := None)) j) (xs j) \<and> distinct (xs j)"
      unfolding e by blast
  qed
  moreover have "distinct js" "\<forall>i \<in> set js. \<forall>j \<in> set js. i \<noteq> j \<longrightarrow> set (xs i) \<inter> set (xs j) = {}"
    using Cons.prems(3,4) by simp_all
  ultimately obtain w' where w': "clear_slots w1 js = Some (Inr w')"
      "rep w' (without (without m (set (xs i))) (\<Union>j \<in> set js. set (xs j))) (\<lambda>j. if j \<in> set js then None else (sl(i := None)) j) c"
    using Cons.IH [OF w1(2)] by blast
  have "without (without m (set (xs i))) (\<Union>j \<in> set js. set (xs j)) = without m (\<Union>j \<in> set (i # js). set (xs j))"
    by (auto simp: without_def fun_eq_iff)
  moreover have "(\<lambda>j. if j \<in> set js then None else (sl(i := None)) j) = (\<lambda>j. if j \<in> set (i # js) then None else sl j)" by auto
  moreover have "clear_slots w (i # js) = clear_slots w1 js"
    using slot_at_rep [OF Cons.prems(1) i(1,2)] w1(1) by simp
  ultimately show ?case using w' by (intro exI [of _ w']) simp
qed

text \<open>The destructor returns, and no timer and no list is left.\<close>

theorem wheel_destroyed:
  assumes "wheel_inv w"
  shows "\<exists>w'. destroy_wheel w = Some (Inr w') \<and> (\<forall>a. timers_of w' a = None)
    \<and> (\<forall>i. 0 \<le> i \<and> i < WHEEL_N \<longrightarrow> slots w' i = None) \<and> pool_inv POOL_BLOCK (m_pool w')"
proof -
  obtain xs where xs: "wheel w xs" using assms by (auto simp: wheel_inv_def)
  have rep: "rep w (timers_of w) (slots w) (cur_slot w)" using xs by (simp add: rep_def wheel_def)
  have ins: "in_slot (timers_of w) i (slots w i) (xs i)" if "0 \<le> i" "i < WHEEL_N" for i
    using xs that by (simp add: wheel_def)
  have 1: "\<forall>i \<in> set [0..WHEEL_N - 1]. 0 \<le> i \<and> i < WHEEL_N \<and> next_chain (timers_of w) (slots w i) (xs i) \<and> distinct (xs i)"
  proof
    fix i assume "i \<in> set [0..WHEEL_N - 1]"
    then have i: "0 \<le> i" "i < WHEEL_N" by auto
    from ins [OF this] have "dll (timers_of w) None (slots w i) (xs i)" "distinct (xs i)" by (simp_all add: in_slot_def)
    with i next_chain_dll show "0 \<le> i \<and> i < WHEEL_N \<and> next_chain (timers_of w) (slots w i) (xs i) \<and> distinct (xs i)" by blast
  qed
  have slot: "\<exists>t. timers_of w a = Some t \<and> time_slot t = i" if "a \<in> set (xs i)" "0 \<le> i" "i < WHEEL_N" for a i
  proof -
    have "timers_of w a \<noteq> None" using ins [OF that(2,3)] that(1) dll_live unfolding in_slot_def by blast
    with ins [OF that(2,3)] that(1) show ?thesis unfolding in_slot_def by blast
  qed
  have 2: "\<forall>i \<in> set [0..WHEEL_N - 1]. \<forall>j \<in> set [0..WHEEL_N - 1]. i \<noteq> j \<longrightarrow> set (xs i) \<inter> set (xs j) = {}"
  proof (intro ballI impI)
    fix i j assume ij: "i \<in> set [0..WHEEL_N - 1]" "j \<in> set [0..WHEEL_N - 1]" "i \<noteq> j"
    then have "a \<notin> set (xs j)" if "a \<in> set (xs i)" for a
      using slot [of a i] slot [of a j] that by auto
    then show "set (xs i) \<inter> set (xs j) = {}" by blast
  qed
  obtain w' where w': "destroy_wheel w = Some (Inr w')"
      "rep w' (without (timers_of w) (\<Union>i \<in> set [0..WHEEL_N - 1]. set (xs i)))
        (\<lambda>i. if i \<in> set [0..WHEEL_N - 1] then None else slots w i) (cur_slot w)"
    unfolding destroy_wheel_def using clear_slots_ok [OF rep 1 _ 2] by auto
  have "timers_of w a = None \<or> a \<in> (\<Union>i \<in> set [0..WHEEL_N - 1]. set (xs i))" for a
  proof (cases "timers_of w a")
    case (Some t)
    then have "0 \<le> time_slot t" "time_slot t \<le> WHEEL_N - 1" "a \<in> set (xs (time_slot t))"
      using xs by (auto simp: wheel_def)
    then show ?thesis by (intro disjI2 UN_I [of "time_slot t"]) auto
  qed simp
  then have "timers_of w' a = None" for a using w'(2) by (auto simp: rep_def without_def)
  moreover have "slots w' i = None" if "0 \<le> i" "i < WHEEL_N" for i using w'(2) that by (simp add: rep_def)
  moreover have "pool_inv POOL_BLOCK (m_pool w')" using w'(2) by (simp add: rep_def)
  ultimately show ?thesis using w'(1) by blast
qed

section \<open>The destructor of the server\<close>

text \<open>
  The state between the steps of the destruction: the server, whether \<open>m_root\<close> is still allocated
  (every connection's \<open>doc_root\<close> points there), and whether the epoll descriptor is open.
\<close>

record ending =
  en_server :: server
  en_root :: bool
  en_epoll :: bool

definition before_end :: "server \<Rightarrow> ending" where
  "before_end s = \<lparr>en_server = s, en_root = True, en_epoll = True\<rparr>"

text \<open>The body of \<open>~WebServer\<close>; with its descriptor the epoll table goes.\<close>

definition destroy_body :: "ending \<Rightarrow> ending" where
  "destroy_body e =
     (let s = en_server e;
          k1 = (kernel s)\<lparr>ep_table := (\<lambda>_. None)\<rparr>;
          k2 = close_fd (close_fd (close_fd k1 (ws_listenfd s)) (ws_pipefd1 s)) (ws_pipefd0 s)
      in e\<lparr>en_server := s\<lparr>kernel := k2\<rparr>, en_root := False, en_epoll := False\<rparr>)"

text \<open>The members behind it: \<open>utils\<close> with the wheel, then \<open>m_pool\<close>, whose \<open>stop\<close> sets \<open>m_stop\<close> first.\<close>

definition destroy_utils :: "ending \<Rightarrow> ending res option" where
  "destroy_utils e = map_option (\<lambda>r. rbind r (\<lambda>w. Inr (e\<lparr>en_server := (en_server e)\<lparr>timer_lst := w\<rparr>\<rparr>)))
     (destroy_wheel (timer_lst (en_server e)))"

definition destroy_pool :: "ending \<Rightarrow> ending" where
  "destroy_pool e = e\<lparr>en_server := (en_server e)\<lparr>requests := (requests (en_server e))\<lparr>m_stop := True\<rparr>\<rparr>\<rparr>"

definition destroy_server :: "server \<Rightarrow> ending res option" where
  "destroy_server s = map_option (\<lambda>r. rbind r (\<lambda>e. Inr (destroy_pool e))) (destroy_utils (destroy_body (before_end s)))"

text \<open>A worker's access to \<open>doc_root\<close>, in \<open>do_request\<close>.\<close>

definition read_doc_root :: "ending \<Rightarrow> int \<Rightarrow> string res" where
  "read_doc_root e fd = (if en_root e then Inr (doc_root (conns (en_server e) fd)) else Inl Use_After_Free)"

text \<open>The destructor gets to \<open>stop\<close>, with all timers freed and the four descriptors closed.\<close>

theorem server_destroyed:
  assumes "srv_inv s"
  shows "\<exists>e. destroy_server s = Some (Inr e) \<and> (\<forall>a. timers_of (timer_lst (en_server e)) a = None)
    \<and> \<not> fd_open (kernel (en_server e)) (ws_listenfd s) \<and> \<not> fd_open (kernel (en_server e)) (ws_pipefd0 s)
    \<and> \<not> fd_open (kernel (en_server e)) (ws_pipefd1 s) \<and> m_stop (requests (en_server e))
    \<and> m_workqueue (requests (en_server e)) = m_workqueue (requests s)"
proof -
  obtain w where w: "destroy_wheel (timer_lst s) = Some (Inr w)" "\<forall>a. timers_of w a = None"
    using wheel_destroyed [OF inv_parts(1) [OF assms]] by blast
  then show ?thesis
    by (simp add: destroy_server_def destroy_utils_def destroy_body_def before_end_def destroy_pool_def close_fd_def Let_def)
qed

text \<open>
  The workers run until \<open>stop\<close> joins them, and \<open>stop\<close> comes last: a request that waits in the queue
  when the event loop ends is fetched by a worker after \<open>m_root\<close> has been freed, and after the
  epoll descriptor, on which its answer would be announced, has been closed.
\<close>

theorem queued_request_uses_freed_root:
  assumes "m_workqueue (requests s) = fd # q"
  defines "e \<equiv> destroy_body (before_end s)"
  shows "fetch (requests (en_server e)) = Some ((requests s)\<lparr>m_workqueue := q\<rparr>, fd)
    \<and> read_doc_root e fd = Inl Use_After_Free \<and> ep_table (kernel (en_server e)) fd = None \<and> \<not> en_epoll e
    \<and> m_stop (requests (en_server e)) = m_stop (requests s)"
  using assms by (simp add: destroy_body_def before_end_def fetch_def read_doc_root_def close_fd_def Let_def)

section \<open>The constructor of the thread pool\<close>

text \<open>
  The threads are made one by one; \<open>ok i\<close> says whether the system makes the \<open>i\<close>-th. When one fails,
  \<open>m_stop\<close> is set, those made are woken and joined, and the exception goes on.
\<close>

datatype 'r made = Bad_Argument | Made "'r thread_pool" nat | Thrown "'r thread_pool" nat

fun create_threads :: "(nat \<Rightarrow> bool) \<Rightarrow> nat \<Rightarrow> nat \<Rightarrow> nat \<times> bool" where
  "create_threads ok i 0 = (i, True)"
| "create_threads ok i (Suc n) = (if ok i then create_threads ok (Suc i) n else (i, False))"

definition thread_pool_ctor :: "int \<Rightarrow> int \<Rightarrow> int \<Rightarrow> (nat \<Rightarrow> bool) \<Rightarrow> 'r made" where
  "thread_pool_ctor actor_model thread_num max_requests ok =
     (case new_thread_pool actor_model thread_num max_requests of
        None \<Rightarrow> Bad_Argument
      | Some p \<Rightarrow>
          (case create_threads ok 0 (nat thread_num) of
             (k, True) \<Rightarrow> Made p k
           | (k, False) \<Rightarrow> Thrown (p\<lparr>m_stop := True\<rparr>) k))"

lemma create_threads_spec:
  "create_threads ok i n = (if \<forall>j. i \<le> j \<and> j < i + n \<longrightarrow> ok j then (i + n, True)
     else (LEAST j. i \<le> j \<and> \<not> ok j, False))"
proof (induction n arbitrary: i)
  case (Suc n)
  show ?case
  proof (cases "ok i")
    case True
    have "(i \<le> j \<and> \<not> ok j) = (Suc i \<le> j \<and> \<not> ok j)" for j using True by (metis Suc_leD le_antisym not_less_eq_eq)
    moreover have "(\<forall>j. i \<le> j \<and> j < i + Suc n \<longrightarrow> ok j) \<longleftrightarrow> (\<forall>j. Suc i \<le> j \<and> j < Suc i + n \<longrightarrow> ok j)"
      using True by (metis Suc_leD add_Suc add_Suc_right le_antisym not_less_eq_eq)
    ultimately show ?thesis using True Suc.IH [of "Suc i"] by simp
  next
    case False
    then have "(LEAST j. i \<le> j \<and> \<not> ok j) = i" by (intro Least_equality) auto
    with False show ?thesis by auto
  qed
qed simp

text \<open>
  With positive arguments the constructor makes all threads, or exactly those before the first
  that fails, and then leaves a pool that takes no request.
\<close>

theorem thread_pool_ctor_spec:
  assumes "0 < n" and "0 < maxr"
  shows "(\<forall>j < nat n. ok j) \<Longrightarrow> \<exists>p :: 'r thread_pool. thread_pool_ctor a n maxr ok = Made p (nat n) \<and> accepting p"
    and "k < nat n \<Longrightarrow> \<not> ok k \<Longrightarrow> (\<forall>j < k. ok j) \<Longrightarrow>
      \<exists>p :: 'r thread_pool. thread_pool_ctor a n maxr ok = Thrown p k \<and> (\<forall>r. append_p p r = (p, False))"
proof -
  obtain p :: "'r thread_pool" where p: "new_thread_pool a n maxr = Some p" "accepting p"
    using assms by (auto simp: new_thread_pool_def accepting_def)
  show "\<exists>p :: 'r thread_pool. thread_pool_ctor a n maxr ok = Made p (nat n) \<and> accepting p" if "\<forall>j < nat n. ok j"
    using that p by (simp add: thread_pool_ctor_def create_threads_spec)
  show "\<exists>p :: 'r thread_pool. thread_pool_ctor a n maxr ok = Thrown p k \<and> (\<forall>r. append_p p r = (p, False))"
    if k: "k < nat n" "\<not> ok k" "\<forall>j < k. ok j"
  proof -
    have "(LEAST j. 0 \<le> j \<and> \<not> ok j) = k" using k(2,3) by (intro Least_equality) (auto simp: not_less [symmetric])
    then have "create_threads ok 0 (nat n) = (k, False)" using k(1,2) by (auto simp: create_threads_spec)
    with p(1) show ?thesis by (simp add: thread_pool_ctor_def append_p_def)
  qed
qed

end
