(* ===== verification/Model_Inference.thy ===== *)
theory Model_Inference
  imports Diagnose
begin

text \<open>
  The neural networks: \<open>ModelInference\<close> (\<open>model_inference.h\<close>, \<open>model_inference.cpp\<close>), \<open>init_models\<close>
  (\<open>http/http_conn.cpp\<close>) and the worker of \<open>inference_worker.h\<close>.

  ONNX Runtime is not code of the repository. It is the parameter \<open>ort\<close>: a file is loaded as a
  session or an exception with a message is thrown, a session maps the elements and the shape of
  its input tensor to those of its first output or throws, and a negative dimension throws. The
  tensor refers to the caller's vector, so its elements are read where that vector may be too
  short. Redis and JSON are parameters of the worker.
\<close>

section \<open>ModelInference\<close>

record 'f session =
  s_run :: "'f list \<Rightarrow> int list \<Rightarrow> string + ('f list \<times> int list)"

record 'f ort =
  ort_load :: "string \<Rightarrow> string + 'f session"
  ort_bad_shape :: string

record 'f network =
  m_session :: "'f session"
  output_dim_ :: int

definition new_network :: "'f ort \<Rightarrow> string \<Rightarrow> string + 'f network" where
  "new_network o1 model_path = (case ort_load o1 model_path of
     Inl e \<Rightarrow> Inl e
   | Inr s \<Rightarrow> Inr \<lparr>m_session = s, output_dim_ = 0\<rparr>)"

definition int_mul :: "int \<Rightarrow> int \<Rightarrow> int res" where
  "int_mul a b = (if INT_MIN \<le> a * b \<and> a * b \<le> INT_MAX then Inr (a * b) else Inl Signed_Overflow)"

text \<open>The object after the call, and the result or the message of the exception.\<close>

definition predict :: "'f ort \<Rightarrow> 'f network \<Rightarrow> 'f list \<Rightarrow> int \<Rightarrow> int \<Rightarrow> ('f network \<times> (string + 'f list)) res" where
  "predict o1 n input_data seq_len Z_dim =
     rbind (int_mul seq_len Z_dim) (\<lambda>input_count.
     if seq_len < 0 \<or> Z_dim < 0 then Inr (n, Inl (ort_bad_shape o1))
     else if int (length input_data) < input_count then Inl Out_Of_Bounds
     else (case s_run (m_session n) (take (nat input_count) input_data) [1, seq_len, Z_dim] of
       Inl e \<Rightarrow> Inr (n, Inl e)
     | Inr (data, shape) \<Rightarrow>
         if shape = [] then Inl Out_Of_Bounds
         else Inr (n\<lparr>output_dim_ := to_int32 (last shape)\<rparr>, Inr data)))"

section \<open>Loading the models\<close>

record 'f models =
  classifier :: "'f network option"
  generators :: "'f network option list"

definition no_models :: "'f models" where
  "no_models = \<lparr>classifier = None, generators = replicate 8 None\<rparr>"

definition generator_path :: "nat \<Rightarrow> string" where
  "generator_path i = ''models/generator_'' @ show_int (int i) @ ''.onnx''"

fun load_generators :: "'f ort \<Rightarrow> nat list \<Rightarrow> 'f models \<Rightarrow> string + 'f models" where
  "load_generators o1 [] ms = Inr ms"
| "load_generators o1 (i # js) ms = (case new_network o1 (generator_path i) of
     Inl e \<Rightarrow> Inl e
   | Inr n \<Rightarrow> load_generators o1 js (ms\<lparr>generators := (generators ms)[i := Some n]\<rparr>))"

text \<open>An exception goes through \<open>main\<close>, which does not catch it, and ends the program.\<close>

definition init_models :: "'f ort \<Rightarrow> 'f models \<Rightarrow> string + 'f models" where
  "init_models o1 ms = (case new_network o1 ''models/classifier.onnx'' of
     Inl e \<Rightarrow> Inl e
   | Inr n \<Rightarrow> load_generators o1 [0..<8] (ms\<lparr>classifier := Some n\<rparr>))"

text \<open>
  The loaded models as the parameter that \<open>Diagnose\<close> has for them, over a parameter \<open>m\<close> for the
  floats and the noise. A call that is undefined has no value there; the claim below is that
  \<open>do_request\<close> makes no such call.
\<close>

definition prediction :: "('f network \<times> (string + 'f list)) res \<Rightarrow> string + 'f list" where
  "prediction r = (case r of Inl e \<Rightarrow> Inl [] | Inr (n, p) \<Rightarrow> p)"

definition ml_of :: "'f ort \<Rightarrow> 'f models \<Rightarrow> 'f ml \<Rightarrow> 'f ml" where
  "ml_of o1 ms m = m\<lparr>
     classify := (\<lambda>x. prediction (predict o1 (the (classifier ms)) x 64 3)),
     generator_loaded := (\<lambda>g. g < length (generators ms) \<and> generators ms ! g \<noteq> None),
     generate := (\<lambda>g x. prediction (predict o1 (the (generators ms ! g)) x 64 3))\<rparr>"

section \<open>The worker\<close>

record 'f task =
  task_id :: string
  task_data :: "'f list"

text \<open>
  The loop, over the texts that \<open>pop_task\<close> delivers, with what is given to \<open>set_result\<close>: the task,
  its label and the generated data. A text that is empty, does not parse, or makes a model throw
  is passed over.
\<close>

definition best_label :: "('f \<Rightarrow> 'f \<Rightarrow> bool) \<Rightarrow> 'f list \<Rightarrow> nat" where
  "best_label lt prob = (case prob of [] \<Rightarrow> 0 | x # xs \<Rightarrow> max_index lt x 0 1 xs)"

fun inference_worker :: "'f ort \<Rightarrow> ('f \<Rightarrow> 'f \<Rightarrow> bool) \<Rightarrow> (string \<Rightarrow> string + 'f task) \<Rightarrow> 'f network \<Rightarrow> 'f network \<Rightarrow>
    string list \<Rightarrow> (string \<times> nat \<times> 'f list) list res" where
  "inference_worker o1 lt parse cl gen [] = Inr []"
| "inference_worker o1 lt parse cl gen (task_str # rest) =
     (if task_str = [] then inference_worker o1 lt parse cl gen rest
      else case parse task_str of
        Inl e \<Rightarrow> inference_worker o1 lt parse cl gen rest
      | Inr t \<Rightarrow>
          rbind (predict o1 cl (task_data t) 64 3) (\<lambda>(cl1, p). case p of
            Inl e \<Rightarrow> inference_worker o1 lt parse cl1 gen rest
          | Inr prob \<Rightarrow>
              rbind (predict o1 gen (task_data t) 64 3) (\<lambda>(gen1, g). case g of
                Inl e \<Rightarrow> inference_worker o1 lt parse cl1 gen1 rest
              | Inr gen_data \<Rightarrow>
                  rbind (inference_worker o1 lt parse cl1 gen1 rest) (\<lambda>rs.
                  Inr ((task_id t, best_label lt prob, gen_data) # rs)))))"

section \<open>What predict reads\<close>

text \<open>A session that gives its output a shape of at least one dimension, as ONNX Runtime does for the models.\<close>

definition shaped :: "'f session \<Rightarrow> bool" where
  "shaped s \<longleftrightarrow> (\<forall>x sh e y. s_run s x sh = Inr (y, e) \<longrightarrow> e \<noteq> [])"

lemma predict_sample:
  assumes "192 \<le> length x" and "shaped (m_session n)"
  shows "\<exists>n'. predict o1 n x 64 3 = Inr (n', map_sum id fst (s_run (m_session n) (take 192 x) [1, 64, 3])) \<and> m_session n' = m_session n"
  using assms by (auto simp: predict_def int_mul_def INT_MIN_def INT_MAX_def shaped_def split: sum.split)

lemma predict_short:
  assumes "length x < 192"
  shows "predict o1 n x 64 3 = Inl Out_Of_Bounds"
  using assms by (simp add: predict_def int_mul_def INT_MIN_def INT_MAX_def)

lemma stof_all_length: "stof_all m cs = Inr xs \<Longrightarrow> length xs = length cs"
  by (induction cs arbitrary: xs) (auto split: option.splits sum.splits)

lemma csv_rows_lengths:
  assumes "csv_rows m ls samples cur k = Inr rs" and "\<forall>x \<in> set samples. length x = 192" and "length cur = 3 * k" and "k < 64"
  shows "\<forall>x \<in> set rs. length x = 192"
  using assms
proof (induction m ls samples cur k rule: csv_rows.induct)
  case (2 m line ls samples cur k)
  show ?case
  proof (cases "line = []")
    case True
    with 2 show ?thesis by (simp add: csv_rows.simps(2))
  next
    case False
    then obtain row where row: "stof_all m (getlines (CHR '','') line) = Inr row"
      using 2(4) by (auto simp: csv_rows.simps(2) split: sum.splits)
    have three: "length row = 3" using 2(4) False row by (auto simp: csv_rows.simps(2) split: if_splits)
    show ?thesis
    proof (cases "k + 1 = 64")
      case True
      have "csv_rows m ls (samples @ [cur @ row]) [] 0 = Inr rs"
        using 2(4) False row three True by (simp add: csv_rows.simps(2))
      moreover have "length (cur @ row) = 192" using 2(6) three True by simp
      then have "\<forall>x \<in> set (samples @ [cur @ row]). length x = 192" using 2(5) by auto
      ultimately show ?thesis by (intro 2(2) [OF False row _ True]) (use three in simp_all)
    next
      case more_rows: False
      have "csv_rows m ls samples (cur @ row) (k + 1) = Inr rs"
        using 2(4) False row three more_rows by (simp add: csv_rows.simps(2))
      then show ?thesis by (intro 2(3) [OF False row _ more_rows _ 2(5)]) (use three 2(6,7) more_rows in simp_all)
    qed
  qed
qed simp

lemma read_csv_lengths: "read_csv m s = Inr samples \<Longrightarrow> x \<in> set samples \<Longrightarrow> length x = 192"
  unfolding read_csv_def using csv_rows_lengths by fastforce

section \<open>The loaded models\<close>

lemma new_network_session: "new_network o1 path = Inr n \<Longrightarrow> ort_load o1 path = Inr (m_session n)"
  by (auto simp: new_network_def split: sum.splits)

lemma load_generators_ok:
  assumes "load_generators o1 js ms = Inr ms'"
  shows "classifier ms' = classifier ms \<and> length (generators ms') = length (generators ms)
    \<and> (\<forall>i. i \<notin> set js \<longrightarrow> generators ms' ! i = generators ms ! i)
    \<and> (\<forall>i \<in> set js. i < length (generators ms) \<longrightarrow>
        (\<exists>n. generators ms' ! i = Some n \<and> ort_load o1 (generator_path i) = Inr (m_session n)))"
  using assms
proof (induction js arbitrary: ms)
  case (Cons j js)
  then obtain n where n: "new_network o1 (generator_path j) = Inr n"
    and rest: "load_generators o1 js (ms\<lparr>generators := (generators ms)[j := Some n]\<rparr>) = Inr ms'"
    by (auto split: sum.splits)
  note ih = Cons.IH [OF rest]
  show ?case
  proof (intro conjI ballI impI allI)
    fix i assume i: "i \<in> set (j # js)" "i < length (generators ms)"
    show "\<exists>n. generators ms' ! i = Some n \<and> ort_load o1 (generator_path i) = Inr (m_session n)"
    proof (cases "i \<in> set js")
      case True
      with ih i(2) show ?thesis by simp
    next
      case False
      with ih i new_network_session [OF n] show ?thesis by auto
    qed
  qed (use ih in auto)
qed simp

lemma init_models_ok:
  assumes "init_models o1 no_models = Inr ms"
  obtains n where "classifier ms = Some n" and "ort_load o1 ''models/classifier.onnx'' = Inr (m_session n)"
    and "length (generators ms) = 8"
    and "\<And>g. g < 8 \<Longrightarrow> \<exists>n. generators ms ! g = Some n \<and> ort_load o1 (generator_path g) = Inr (m_session n)"
proof -
  obtain n where n: "new_network o1 ''models/classifier.onnx'' = Inr n"
    and l: "load_generators o1 [0..<8] (no_models\<lparr>classifier := Some n\<rparr>) = Inr ms"
    using assms by (auto simp: init_models_def split: sum.splits)
  from load_generators_ok [OF l] new_network_session [OF n] show ?thesis
    by (intro that [of n]) (simp_all add: no_models_def)
qed

lemma prediction_sample:
  assumes "192 \<le> length x" and "shaped (m_session n)" and "m_session n = m_session n0"
  shows "\<exists>n'. predict o1 n x 64 3 = Inr (n', prediction (predict o1 n0 x 64 3)) \<and> m_session n' = m_session n"
  using predict_sample [OF assms(1,2), of o1] predict_sample [OF assms(1), of n0 o1] assms(2,3)
  by (auto simp: prediction_def)

text \<open>The models that \<open>init_models\<close> has loaded keep the contract of \<open>Diagnose\<close>.\<close>

definition full_output :: "'f ort \<Rightarrow> bool" where
  "full_output o1 \<longleftrightarrow> (\<forall>path s. ort_load o1 path = Inr s \<longrightarrow> shaped s)
     \<and> (\<forall>g s x y sh. ort_load o1 (generator_path g) = Inr s \<and> s_run s x [1, 64, 3] = Inr (y, sh) \<longrightarrow> 192 \<le> length y)"

definition loaded_ml :: "'f ml \<Rightarrow> bool" where
  "loaded_ml m \<longleftrightarrow> (\<exists>o1 ms m0. full_output o1 \<and> init_models o1 no_models = Inr ms \<and> m = ml_of o1 ms m0)"

lemma prediction_full:
  assumes "shaped (m_session n)" and "\<And>y sh. s_run (m_session n) (take 192 x) [1, 64, 3] = Inr (y, sh) \<Longrightarrow> 192 \<le> length y"
    and "prediction (predict o1 n x 64 3) = Inr r"
  shows "192 \<le> length r"
proof (cases "192 \<le> length x")
  case True
  from predict_sample [OF this assms(1), of o1] assms(2,3) show ?thesis
    by (auto simp: prediction_def map_sum_def split: sum.splits)
next
  case False
  with assms(3) show ?thesis by (simp add: prediction_def predict_short)
qed

interpretation loaded: diagnosis_models loaded_ml
proof unfold_locales
  fix m :: "'a ml" and g :: nat
  assume "loaded_ml m" and g: "g < 8"
  then obtain o1 ms m0 where o1: "full_output o1" "init_models o1 no_models = Inr ms" "m = ml_of o1 ms m0"
    by (auto simp: loaded_ml_def)
  obtain len: "length (generators ms) = 8"
    and gens: "\<And>g. g < 8 \<Longrightarrow> \<exists>n. generators ms ! g = Some n \<and> ort_load o1 (generator_path g) = Inr (m_session n)"
    by (rule init_models_ok [OF o1(2)]) blast
  obtain n where n: "generators ms ! g = Some n" "ort_load o1 (generator_path g) = Inr (m_session n)" using gens [OF g] by blast
  show "generator_loaded m g" using n g len by (simp add: o1(3) ml_of_def)
  fix x r
  assume "generate m g x = Inr r"
  then have "prediction (predict o1 n x 64 3) = Inr r" using n by (simp add: o1(3) ml_of_def)
  moreover have "shaped (m_session n)" using o1(1) n(2) unfolding full_output_def by blast
  moreover have "192 \<le> length y" if "s_run (m_session n) (take 192 x) [1, 64, 3] = Inr (y, sh)" for y sh
    using o1(1) n(2) that unfolding full_output_def by blast
  ultimately show "192 \<le> length r" using prediction_full by blast
qed

text \<open>
  C26. After \<open>init_models\<close> the diagnosis only makes calls of \<open>predict\<close> that stay inside their input:
  every sample that \<open>read_csv\<close> returns, and every noise vector, has the 192 numbers that the
  tensor reads, so the parameter of \<open>Diagnose\<close> is what \<open>predict\<close> returns, whatever calls were made
  before. And, when the generators return the 64 rows of 3 numbers they are trained for, the whole
  diagnosis has no undefined behaviour and no answer about a missing model.
\<close>

theorem diagnosis_uses_loaded_models:
  assumes "init_models o1 no_models = Inr ms" and "full_output o1"
  shows "(\<forall>csv samples x n. read_csv m csv = Inr samples \<and> x \<in> set samples \<and> m_session n = m_session (the (classifier ms)) \<longrightarrow>
      (\<exists>n'. predict o1 n x 64 3 = Inr (n', classify (ml_of o1 ms m) x) \<and> m_session n' = m_session n))
    \<and> (\<forall>g i n. g < 8 \<and> m_session n = m_session (the (generators ms ! g)) \<longrightarrow>
      (\<exists>n'. predict o1 n (noise_vector m i) 64 3 = Inr (n', generate (ml_of o1 ms m) g (noise_vector m i)) \<and> m_session n' = m_session n))
    \<and> (\<exists>a. diagnose (ml_of o1 ms m) req = Inr a \<and> a \<noteq> Diag_Json No_Generator \<and> a \<noteq> Diag_Json Default_Missing)"
proof (intro conjI)
  obtain c where c: "classifier ms = Some c" "ort_load o1 ''models/classifier.onnx'' = Inr (m_session c)"
    and len: "length (generators ms) = 8"
    and gens: "\<And>g. g < 8 \<Longrightarrow> \<exists>n. generators ms ! g = Some n \<and> ort_load o1 (generator_path g) = Inr (m_session n)"
    by (rule init_models_ok [OF assms(1)]) blast
  have sh: "\<forall>path s. ort_load o1 path = Inr s \<longrightarrow> shaped s" using assms(2) unfolding full_output_def by blast
  have sc: "shaped (m_session c)" using c(2) sh by metis
  show "\<forall>csv samples x n. read_csv m csv = Inr samples \<and> x \<in> set samples \<and> m_session n = m_session (the (classifier ms)) \<longrightarrow>
      (\<exists>n'. predict o1 n x 64 3 = Inr (n', classify (ml_of o1 ms m) x) \<and> m_session n' = m_session n)"
  proof (intro allI impI)
    fix csv samples x and n :: "'a network"
    assume x: "read_csv m csv = Inr samples \<and> x \<in> set samples \<and> m_session n = m_session (the (classifier ms))"
    then have "192 \<le> length x" using read_csv_lengths by fastforce
    with x c(1) sc show "\<exists>n'. predict o1 n x 64 3 = Inr (n', classify (ml_of o1 ms m) x) \<and> m_session n' = m_session n"
      using prediction_sample [of x n c o1] by (simp add: ml_of_def)
  qed
  show "\<forall>g i n. g < 8 \<and> m_session n = m_session (the (generators ms ! g)) \<longrightarrow>
      (\<exists>n'. predict o1 n (noise_vector m i) 64 3 = Inr (n', generate (ml_of o1 ms m) g (noise_vector m i)) \<and> m_session n' = m_session n)"
  proof (intro allI impI)
    fix g i and n :: "'a network"
    assume g: "g < 8 \<and> m_session n = m_session (the (generators ms ! g))"
    then obtain n0 where "generators ms ! g = Some n0" "shaped (m_session n0)" using gens sh by metis
    with g show "\<exists>n'. predict o1 n (noise_vector m i) 64 3 = Inr (n', generate (ml_of o1 ms m) g (noise_vector m i)) \<and> m_session n' = m_session n"
      using prediction_sample [of "noise_vector m i" n n0 o1] by (simp add: ml_of_def noise_vector_def)
  qed
  show "\<exists>a. diagnose (ml_of o1 ms m) req = Inr a \<and> a \<noteq> Diag_Json No_Generator \<and> a \<noteq> Diag_Json Default_Missing"
    by (rule loaded.diagnose_ok) (use assms in \<open>auto simp: loaded_ml_def\<close>)
qed

definition demo_ort :: "nat ort" where
  "demo_ort = \<lparr>ort_load = (\<lambda>path. Inr \<lparr>s_run = (\<lambda>x sh. Inr (replicate 192 0, 1 # sh))\<rparr>), ort_bad_shape = ''negative''\<rparr>"

definition demo_ml :: "nat ml" where
  "demo_ml = \<lparr>stof = (\<lambda>s. Some (length s)), show_float = (\<lambda>n. replicate n CHR ''1''), less_float = (<),
     classify = Inr, generator_loaded = (\<lambda>g. False), generate = (\<lambda>g. Inr), noise = (\<lambda>i j. i + j)\<rparr>"

theorem diagnosis_uses_loaded_models_witness:
  "\<exists>ms. init_models demo_ort no_models = Inr ms
    \<and> (\<exists>a. diagnose (ml_of demo_ort ms demo_ml) (Inr \<lparr>csv_data = None, num_samples = Inr 2\<rparr>) = Inr a)"
proof -
  have net: "new_network demo_ort path = Inr \<lparr>m_session = \<lparr>s_run = (\<lambda>x sh. Inr (replicate 192 0, 1 # sh))\<rparr>, output_dim_ = 0\<rparr>" for path
    by (simp add: new_network_def demo_ort_def)
  have "\<exists>ms'. load_generators demo_ort js ms = Inr ms'" for js ms
    by (induction js arbitrary: ms) (simp_all add: net)
  then obtain ms where ms: "init_models demo_ort no_models = Inr ms"
    unfolding init_models_def net sum.case by blast
  have "full_output demo_ort" by (auto simp: full_output_def demo_ort_def shaped_def)
  from diagnosis_uses_loaded_models [OF ms this, of demo_ml "Inr \<lparr>csv_data = None, num_samples = Inr 2\<rparr>"] ms
  show ?thesis by (intro exI [of _ ms]) blast
qed

section \<open>What the worker answers\<close>

text \<open>The result of one task, by the sessions alone.\<close>

definition task_done :: "'f ort \<Rightarrow> ('f \<Rightarrow> 'f \<Rightarrow> bool) \<Rightarrow> (string \<Rightarrow> string + 'f task) \<Rightarrow> 'f network \<Rightarrow> 'f network \<Rightarrow>
    string \<Rightarrow> (string \<times> nat \<times> 'f list) list" where
  "task_done o1 lt parse cl gen s =
     (if s = [] then [] else case parse s of
        Inl e \<Rightarrow> []
      | Inr t \<Rightarrow> (case s_run (m_session cl) (take 192 (task_data t)) [1, 64, 3] of
          Inl e \<Rightarrow> []
        | Inr (prob, sh) \<Rightarrow> (case s_run (m_session gen) (take 192 (task_data t)) [1, 64, 3] of
            Inl e \<Rightarrow> []
          | Inr (g, sh') \<Rightarrow> [(task_id t, best_label lt prob, g)])))"

text \<open>
  Tasks with enough data are answered in their order, each by itself; a task that does not parse
  or makes a model throw leaves no result, and its client is not told.
\<close>

theorem worker_answers:
  assumes "\<forall>s \<in> set ss. \<forall>t. parse s = Inr t \<longrightarrow> 192 \<le> length (task_data t)"
    and "shaped (m_session cl)" and "shaped (m_session gen)"
  shows "inference_worker o1 lt parse cl gen ss = Inr (concat (map (task_done o1 lt parse cl gen) ss))"
  using assms
proof (induction ss arbitrary: cl gen)
  case (Cons s ss)
  have ih: "inference_worker o1 lt parse c g ss = Inr (concat (map (task_done o1 lt parse cl gen) ss))"
    if "m_session c = m_session cl" "m_session g = m_session gen" for c g
  proof -
    have "task_done o1 lt parse c g = task_done o1 lt parse cl gen" by (rule ext) (simp only: task_done_def that)
    with Cons.IH [of c g] Cons.prems that show ?thesis by simp
  qed
  show ?case
  proof (cases "s = [] \<or> (\<exists>e. parse s = Inl e)")
    case True
    then have d: "task_done o1 lt parse cl gen s = []" by (auto simp: task_done_def)
    from True show ?thesis by (auto simp: ih d)
  next
    case False
    then obtain t where s: "s \<noteq> []" "parse s = Inr t" by (cases "parse s") auto
    then have len: "192 \<le> length (task_data t)" using Cons.prems(1) by simp
    obtain c where c: "predict o1 cl (task_data t) 64 3 =
        Inr (c, map_sum id fst (s_run (m_session cl) (take 192 (task_data t)) [1, 64, 3]))" "m_session c = m_session cl"
      using predict_sample [OF len Cons.prems(2)] by blast
    obtain g where g: "predict o1 gen (task_data t) 64 3 =
        Inr (g, map_sum id fst (s_run (m_session gen) (take 192 (task_data t)) [1, 64, 3]))" "m_session g = m_session gen"
      using predict_sample [OF len Cons.prems(3)] by blast
    show ?thesis
    proof -
      define rest where "rest = concat (map (task_done o1 lt parse cl gen) ss)"
      have "inference_worker o1 lt parse cl gen (s # ss) = Inr (task_done o1 lt parse cl gen s @ rest)"
        using s by (auto simp: c g ih task_done_def simp flip: rest_def split: sum.split)
      then show ?thesis by (simp add: rest_def)
    qed
  qed
qed simp

text \<open>A task with fewer than 64 rows of 3 numbers makes the model read behind its data.\<close>

lemma short_task_reads_outside:
  assumes "s \<noteq> []" and "parse s = Inr t" and "length (task_data t) < 192"
  shows "inference_worker o1 lt parse cl gen (s # ss) = Inl Out_Of_Bounds"
  using assms by (simp add: predict_short)

text \<open>A file that cannot be loaded ends the program: \<open>init_models\<close> returns only with all nine.\<close>

lemma missing_classifier_throws:
  "ort_load o1 ''models/classifier.onnx'' = Inl e \<Longrightarrow> init_models o1 ms = Inl e"
  by (simp add: init_models_def new_network_def)

end
