(* ===== verification/Testdb.thy ===== *)
theory Testdb
  imports Prelude
begin

text \<open>
  The stand-alone program \<open>testdb.cpp\<close>: it opens one connection to MySQL and says whether that
  worked. The handle that \<open>mysql_init\<close> returns and the success of \<open>mysql_real_connect\<close> are given; the
  texts of the messages are names.
\<close>

datatype db_message = Init_Failed | Connect_Failed | Connected_Well

definition testdb :: "nat option \<Rightarrow> (nat \<Rightarrow> bool) \<Rightarrow> db_message \<times> nat list \<times> int" where
  "testdb mysql_init mysql_real_connect = (case mysql_init of
     None \<Rightarrow> (Init_Failed, [], 1)
   | Some con \<Rightarrow>
       if \<not> mysql_real_connect con then (Connect_Failed, [con], 1)
       else (Connected_Well, [con], 0))"

text \<open>The status is 0 exactly when the connection was made, and the handle is closed exactly once.\<close>

lemma testdb_spec:
  "snd (snd (testdb h connect)) = 0 \<longleftrightarrow> (\<exists>con. h = Some con \<and> connect con)"
  "fst (snd (testdb h connect)) = (case h of None \<Rightarrow> [] | Some con \<Rightarrow> [con])"
  by (auto simp: testdb_def split: option.splits)

end
