(* ===== verification/Webbench.thy ===== *)
theory Webbench
  imports Http_Request
begin

text \<open>
  The load generator \<open>test_presure/webbench-1.5\<close> (\<open>webbench.c\<close> and \<open>socket.c\<close>): the options, the
  request it builds, the loop of a client, and the parent that adds the results up.

  A URL and an option are C strings, given as lists without the NUL. \<open>host\<close> is an array of
  \<open>MAXHOSTNAMELEN\<close> (64) bytes and \<open>tmp\<close> one of 10, both zeroed before \<open>strncpy\<close> writes to them, so a
  text as long as the array has no terminator; \<open>request\<close> has 2048 bytes. The library calls of the
  network, \<open>fork\<close> and the pipe are answers given to the definitions. The texts on the terminal are
  left out, except the line that describes the benchmark.
\<close>

definition METHOD_GET :: int where "METHOD_GET = 0"
definition METHOD_HEAD :: int where "METHOD_HEAD = 1"
definition METHOD_OPTIONS :: int where "METHOD_OPTIONS = 2"
definition METHOD_TRACE :: int where "METHOD_TRACE = 3"
definition REQUEST_SIZE :: nat where "REQUEST_SIZE = 2048"
definition MAXHOSTNAMELEN :: nat where "MAXHOSTNAMELEN = 64"

lemmas webbench_consts = METHOD_GET_def METHOD_HEAD_def METHOD_OPTIONS_def METHOD_TRACE_def
  REQUEST_SIZE_def MAXHOSTNAMELEN_def

record webbench =
  wb_http10 :: int
  wb_method :: int
  wb_clients :: int
  wb_force :: int
  wb_force_reload :: int
  wb_proxyport :: int
  wb_proxyhost :: "string option"
  wb_benchtime :: int

definition new_webbench :: webbench where
  "new_webbench = \<lparr>wb_http10 = 1, wb_method = METHOD_GET, wb_clients = 1, wb_force = 0, wb_force_reload = 0,
     wb_proxyport = 80, wb_proxyhost = None, wb_benchtime = 30\<rparr>"

text \<open>A function of the program returns, ends the process with a status, or runs into undefined behaviour.\<close>

datatype 'a exits = Go 'a | Exits int | Broken ub

definition ebind :: "'a exits \<Rightarrow> ('a \<Rightarrow> 'b exits) \<Rightarrow> 'b exits" where
  "ebind m f = (case m of Go x \<Rightarrow> f x | Exits n \<Rightarrow> Exits n | Broken e \<Rightarrow> Broken e)"

lemma ebind_simps [simp]: "ebind (Go x) f = f x" "ebind (Exits n) f = Exits n" "ebind (Broken e) f = Broken e"
  by (simp_all add: ebind_def)

section \<open>The options\<close>

datatype long_action = Returns char | Sets_Force | Sets_Reload | Sets_Method int

definition long_options :: "(string \<times> bool \<times> long_action) list" where
  "long_options = [
     (''force'', False, Sets_Force),
     (''reload'', False, Sets_Reload),
     (''time'', True, Returns (CHR ''t'')),
     (''help'', False, Returns (CHR ''?'')),
     (''http09'', False, Returns (CHR ''9'')),
     (''http10'', False, Returns (CHR ''1'')),
     (''http11'', False, Returns (CHR ''2'')),
     (''get'', False, Sets_Method METHOD_GET),
     (''head'', False, Sets_Method METHOD_HEAD),
     (''options'', False, Sets_Method METHOD_OPTIONS),
     (''trace'', False, Sets_Method METHOD_TRACE),
     (''version'', False, Returns (CHR ''V'')),
     (''proxy'', True, Returns (CHR ''p'')),
     (''clients'', True, Returns (CHR ''c''))]"

text \<open>
  \<open>getopt_long\<close> takes a long name that is given in full, or one that only one option begins with.
\<close>

definition find_long :: "string \<Rightarrow> (bool \<times> long_action) option" where
  "find_long name = (case map_of long_options name of
     Some r \<Rightarrow> Some r
   | None \<Rightarrow> (case filter (\<lambda>o1. take (length name) (fst o1) = name) long_options of
       [o1] \<Rightarrow> Some (snd o1)
     | _ \<Rightarrow> None))"

definition bad_option :: "long_action \<times> string" where
  "bad_option = (Returns (CHR ''?''), [])"

text \<open>
  What the calls of \<open>getopt_long\<close> return, in order, and the arguments that are no options, which
  \<open>argv\<close> holds from \<open>optind\<close> on when it has returned \<open>EOF\<close>. The first argument of the function is the
  rest of a group of letters.
\<close>

definition cons_opt :: "long_action \<times> string \<Rightarrow> (long_action \<times> string) list \<times> string list \<Rightarrow> (long_action \<times> string) list \<times> string list" where
  "cons_opt x r = (x # fst r, snd r)"

definition cons_arg :: "string \<Rightarrow> (long_action \<times> string) list \<times> string list \<Rightarrow> (long_action \<times> string) list \<times> string list" where
  "cons_arg a r = (fst r, a # snd r)"

function getopt_long :: "string \<Rightarrow> string list \<Rightarrow> (long_action \<times> string) list \<times> string list" where
  "getopt_long [] [] = ([], [])"
| "getopt_long [] (a # args) =
     (if a = ''--'' then ([], args)
      else if take 2 a = ''--'' then
        (let name = takeWhile (\<lambda>c. c \<noteq> CHR ''='') (drop 2 a);
             val = drop (length name) (drop 2 a)
         in (case find_long name of
               None \<Rightarrow> cons_opt bad_option (getopt_long [] args)
             | Some (needs_arg, act) \<Rightarrow>
                 if \<not> needs_arg then cons_opt (if val = [] then (act, []) else bad_option) (getopt_long [] args)
                 else if val \<noteq> [] then cons_opt (act, tl val) (getopt_long [] args)
                 else (case args of
                         [] \<Rightarrow> ([bad_option], [])
                       | optarg # rest \<Rightarrow> cons_opt (act, optarg) (getopt_long [] rest))))
      else if length a > 1 \<and> hd a = CHR ''-'' then getopt_long (tl a) args
      else cons_arg a (getopt_long [] args))"
| "getopt_long (c # cs) args =
     (if c \<in> set ''912Vfrh?'' then cons_opt (Returns c, []) (getopt_long cs args)
      else if c \<in> set ''tpc'' then
        (if cs \<noteq> [] then cons_opt (Returns c, cs) (getopt_long [] args)
         else (case args of
                 [] \<Rightarrow> ([bad_option], [])
               | optarg # rest \<Rightarrow> cons_opt (Returns c, optarg) (getopt_long [] rest)))
      else cons_opt bad_option (getopt_long cs args))"
  by pat_completeness auto
termination
  by (relation "measure (\<lambda>(cs, args). length cs + (\<Sum>a \<leftarrow> args. length a + 1))") auto

text \<open>\<open>-p server:port\<close>.\<close>

definition proxy_option :: "webbench \<Rightarrow> string \<Rightarrow> webbench exits" where
  "proxy_option w optarg = (case last_index (CHR '':'') optarg of
     None \<Rightarrow> Go (w\<lparr>wb_proxyhost := Some optarg\<rparr>)
   | Some k \<Rightarrow>
       if k = 0 then Exits 2
       else if k = length optarg - 1 then Exits 2
       else Go (w\<lparr>wb_proxyhost := Some (take k optarg), wb_proxyport := atoi (drop (k + 1) optarg)\<rparr>))"

definition wb_switch :: "webbench \<Rightarrow> long_action \<times> string \<Rightarrow> webbench exits" where
  "wb_switch w = (\<lambda>(act, optarg). case act of
     Sets_Force \<Rightarrow> Go (w\<lparr>wb_force := 1\<rparr>)
   | Sets_Reload \<Rightarrow> Go (w\<lparr>wb_force_reload := 1\<rparr>)
   | Sets_Method m \<Rightarrow> Go (w\<lparr>wb_method := m\<rparr>)
   | Returns opt \<Rightarrow>
       if opt = CHR ''f'' then Go (w\<lparr>wb_force := 1\<rparr>)
       else if opt = CHR ''r'' then Go (w\<lparr>wb_force_reload := 1\<rparr>)
       else if opt = CHR ''9'' then Go (w\<lparr>wb_http10 := 0\<rparr>)
       else if opt = CHR ''1'' then Go (w\<lparr>wb_http10 := 1\<rparr>)
       else if opt = CHR ''2'' then Go (w\<lparr>wb_http10 := 2\<rparr>)
       else if opt = CHR ''V'' then Exits 0
       else if opt = CHR ''t'' then Go (w\<lparr>wb_benchtime := atoi optarg\<rparr>)
       else if opt = CHR ''p'' then proxy_option w optarg
       else if opt = CHR ''h'' \<or> opt = CHR ''?'' then Exits 2
       else if opt = CHR ''c'' then Go (w\<lparr>wb_clients := atoi optarg\<rparr>)
       else Go w)"

fun wb_options :: "webbench \<Rightarrow> (long_action \<times> string) list \<Rightarrow> webbench exits" where
  "wb_options w [] = Go w"
| "wb_options w (o1 # os) = ebind (wb_switch w o1) (\<lambda>w1. wb_options w1 os)"

text \<open>The part of \<open>main\<close> before \<open>build_request\<close>: the settings and the URL.\<close>

definition wb_arguments :: "string list \<Rightarrow> (webbench \<times> string) exits" where
  "wb_arguments args =
     (if args = [] then Exits 2
      else case getopt_long [] args of (os, rest) \<Rightarrow>
        ebind (wb_options new_webbench os) (\<lambda>w.
        (case rest of
           [] \<Rightarrow> Exits 2
         | url # _ \<Rightarrow>
             let w1 = (if wb_clients w = 0 then w\<lparr>wb_clients := 1\<rparr> else w);
                 w2 = (if wb_benchtime w1 = 0 then w1\<lparr>wb_benchtime := 60\<rparr> else w1)
             in Go (w2, url))))"

section \<open>The request\<close>

text \<open>\<open>strcat(request, s)\<close>, \<open>strncpy(a, s, k)\<close> into a zeroed array of \<open>n\<close> bytes, and reading such an array.\<close>

definition cat :: "string \<Rightarrow> string \<Rightarrow> string exits" where
  "cat req s = (if length req + length s < REQUEST_SIZE then Go (req @ s) else Broken Out_Of_Bounds)"

definition copy_n :: "nat \<Rightarrow> string \<Rightarrow> nat \<Rightarrow> string exits" where
  "copy_n n s k = (if k \<le> n then Go (take k s) else Broken Out_Of_Bounds)"

definition read_array :: "nat \<Rightarrow> string \<Rightarrow> string exits" where
  "read_array n s = (if length s < n then Go s else Broken Out_Of_Bounds)"

text \<open>\<open>atoi\<close> reads an array up to the first character that does not belong to the number.\<close>

definition number_ends :: "string \<Rightarrow> bool" where
  "number_ends s =
     (let t = dropWhile is_space s;
          u = (if t \<noteq> [] \<and> (hd t = CHR ''-'' \<or> hd t = CHR ''+'') then tl t else t)
      in dropWhile is_digit u \<noteq> [])"

definition atoi_array :: "nat \<Rightarrow> string \<Rightarrow> int exits" where
  "atoi_array n s = (if length s < n \<or> number_ends s then Go (atoi s) else Broken Out_Of_Bounds)"

definition index_of :: "char \<Rightarrow> string \<Rightarrow> nat option" where
  "index_of c s = (let k = length (takeWhile (\<lambda>x. x \<noteq> c) s) in if k < length s then Some k else None)"

fun strstr :: "string \<Rightarrow> string \<Rightarrow> nat option" where
  "strstr [] pat = (if pat = [] then Some 0 else None)"
| "strstr (c # s) pat = (if take (length pat) (c # s) = pat then Some 0 else map_option Suc (strstr s pat))"

definition wb_method_name :: "int \<Rightarrow> string" where
  "wb_method_name m =
     (if m = METHOD_HEAD then ''HEAD'' else if m = METHOD_OPTIONS then ''OPTIONS''
      else if m = METHOD_TRACE then ''TRACE'' else ''GET'')"

definition wb_protocol :: "webbench \<Rightarrow> webbench" where
  "wb_protocol w =
     (let w1 = (if wb_force_reload w \<noteq> 0 \<and> wb_proxyhost w \<noteq> None \<and> wb_http10 w < 1 then w\<lparr>wb_http10 := 1\<rparr> else w);
          w2 = (if wb_method w1 = METHOD_HEAD \<and> wb_http10 w1 < 1 then w1\<lparr>wb_http10 := 1\<rparr> else w1);
          w3 = (if wb_method w2 = METHOD_OPTIONS \<and> wb_http10 w2 < 2 then w2\<lparr>wb_http10 := 2\<rparr> else w2)
      in if wb_method w3 = METHOD_TRACE \<and> wb_http10 w3 < 2 then w3\<lparr>wb_http10 := 2\<rparr> else w3)"

text \<open>The host and the port from the part \<open>h\<close> of the URL behind \<open>://\<close>, in which \<open>slash\<close> is the first slash.\<close>

definition wb_host :: "webbench \<Rightarrow> string \<Rightarrow> nat \<Rightarrow> (webbench \<times> string) exits" where
  "wb_host w h slash = (case index_of (CHR '':'') h of
     Some colon \<Rightarrow>
       if colon < slash then
         ebind (copy_n MAXHOSTNAMELEN h colon) (\<lambda>host.
         ebind (copy_n 10 (drop (colon + 1) h) (slash - colon - 1)) (\<lambda>tmp.
         ebind (atoi_array 10 tmp) (\<lambda>port.
         Go (w\<lparr>wb_proxyport := (if port = 0 then 80 else port)\<rparr>, host))))
       else ebind (copy_n MAXHOSTNAMELEN h slash) (\<lambda>host. Go (w, host))
   | None \<Rightarrow> ebind (copy_n MAXHOSTNAMELEN h slash) (\<lambda>host. Go (w, host)))"

text \<open>What follows the URL: the version, the headers and the empty line.\<close>

definition wb_headers :: "webbench \<Rightarrow> string \<Rightarrow> string \<Rightarrow> string exits" where
  "wb_headers w host req =
     ebind (if wb_http10 w = 1 then cat req '' HTTP/1.0''
            else if wb_http10 w = 2 then cat req '' HTTP/1.1'' else Go req) (\<lambda>r.
     ebind (cat r [CR, LF]) (\<lambda>r.
     ebind (if wb_http10 w > 0 then cat r (''User-Agent: WebBench 1.5'' @ [CR, LF]) else Go r) (\<lambda>r.
     ebind (if wb_proxyhost w = None \<and> wb_http10 w > 0
            then ebind (cat r ''Host: '') (\<lambda>r. ebind (read_array MAXHOSTNAMELEN host) (\<lambda>h.
                 ebind (cat r h) (\<lambda>r. cat r [CR, LF])))
            else Go r) (\<lambda>r.
     ebind (if wb_force_reload w \<noteq> 0 \<and> wb_proxyhost w \<noteq> None then cat r (''Pragma: no-cache'' @ [CR, LF]) else Go r) (\<lambda>r.
     ebind (if wb_http10 w > 1 then cat r (''Connection: close'' @ [CR, LF]) else Go r) (\<lambda>r.
     if wb_http10 w > 0 then cat r [CR, LF] else Go r))))))"

text \<open>\<open>build_request\<close>: the settings it changes, \<open>host\<close> and \<open>request\<close>.\<close>

definition build_request :: "webbench \<Rightarrow> string \<Rightarrow> (webbench \<times> string \<times> string) exits" where
  "build_request w0 url =
     (let w = wb_protocol w0 in
      ebind (cat (wb_method_name (wb_method w)) '' '') (\<lambda>req.
      (case strstr url ''://'' of
         None \<Rightarrow> Exits 2
       | Some k \<Rightarrow>
           if length url > 1500 then Exits 2
           else if wb_proxyhost w = None \<and> \<not> casecmp_eq (take 7 url) ''http://'' then Exits 2
           else (case index_of (CHR ''/'') (drop (k + 3) url) of
             None \<Rightarrow> Exits 2
           | Some slash \<Rightarrow>
               (let h = drop (k + 3) url in
                if wb_proxyhost w = None
                then ebind (wb_host w h slash) (\<lambda>(w1, host).
                     ebind (cat req (drop slash h)) (\<lambda>r.
                     ebind (wb_headers w1 host r) (\<lambda>r. Go (w1, host, r))))
                else ebind (cat req url) (\<lambda>r.
                     ebind (wb_headers w [] r) (\<lambda>r. Go (w, [], r))))))))"

text \<open>The line about the benchmark.\<close>

definition bench_info :: "webbench \<Rightarrow> string \<Rightarrow> string" where
  "bench_info w url =
     LF # ''Benchmarking: '' @ wb_method_name (wb_method w) @ SPC # url
     @ (if wb_http10 w = 0 then '' (using HTTP/0.9)'' else if wb_http10 w = 2 then '' (using HTTP/1.1)'' else [])
     @ LF # (if wb_clients w = 1 then ''1 client'' else show_int (wb_clients w) @ '' clients'')
     @ '', running '' @ show_int (wb_benchtime w) @ '' sec''
     @ (if wb_force w \<noteq> 0 then '', early socket close'' else [])
     @ (case wb_proxyhost w of None \<Rightarrow> [] | Some p \<Rightarrow> '', via proxy server '' @ p @ CHR '':'' # show_int (wb_proxyport w))
     @ (if wb_force_reload w \<noteq> 0 then '', forcing reload'' else [])
     @ [CHR ''.'', LF]"

section \<open>The request as a text\<close>

lemma index_of_none: "index_of c s = None \<longleftrightarrow> c \<notin> set s"
proof -
  have "length (takeWhile (\<lambda>x. x \<noteq> c) s) < length s \<longleftrightarrow> c \<in> set s"
    by (induction s) auto
  then show ?thesis by (simp add: index_of_def Let_def)
qed

lemma takeWhile_skip: "c \<notin> set a \<Longrightarrow> takeWhile (\<lambda>x. x \<noteq> c) (a @ b) = a @ takeWhile (\<lambda>x. x \<noteq> c) b"
  by (rule takeWhile_append2) auto

lemma index_of_first: "c \<notin> set a \<Longrightarrow> index_of c (a @ c # b) = Some (length a)"
  by (simp add: index_of_def takeWhile_skip)

lemma index_of_skip: "c \<notin> set a \<Longrightarrow> index_of c (a @ b) = map_option (\<lambda>k. length a + k) (index_of c b)"
  by (simp add: index_of_def Let_def takeWhile_skip)

lemma index_of_split:
  assumes "index_of c s = Some k"
  shows "s = take k s @ c # drop (Suc k) s" and "c \<notin> set (take k s)" and "k < length s"
proof -
  from assms have k: "k = length (takeWhile (\<lambda>x. x \<noteq> c) s)" "k < length s"
    by (auto simp: index_of_def Let_def split: if_splits)
  then have t: "take k s = takeWhile (\<lambda>x. x \<noteq> c) s" by (metis takeWhile_eq_take)
  show "c \<notin> set (take k s)" unfolding t by (auto dest: set_takeWhileD)
  have "s ! k = c" using nth_length_takeWhile [of "\<lambda>x. x \<noteq> c" s] k by simp
  with k(2) show "s = take k s @ c # drop (Suc k) s" by (metis id_take_nth_drop)
  show "k < length s" by (rule k(2))
qed

definition wb_tail :: "webbench \<Rightarrow> string \<Rightarrow> string" where
  "wb_tail w host =
     (if wb_http10 w = 1 then '' HTTP/1.0'' else if wb_http10 w = 2 then '' HTTP/1.1'' else [])
     @ [CR, LF]
     @ (if wb_http10 w > 0 then ''User-Agent: WebBench 1.5'' @ [CR, LF] else [])
     @ (if wb_proxyhost w = None \<and> wb_http10 w > 0 then ''Host: '' @ host @ [CR, LF] else [])
     @ (if wb_force_reload w \<noteq> 0 \<and> wb_proxyhost w \<noteq> None then ''Pragma: no-cache'' @ [CR, LF] else [])
     @ (if wb_http10 w > 1 then ''Connection: close'' @ [CR, LF] else [])
     @ (if wb_http10 w > 0 then [CR, LF] else [])"

lemma wb_tail_length: "length (wb_tail w host) \<le> 100 + length host"
  by (simp add: wb_tail_def)

lemma cat_room: "length req + length s < REQUEST_SIZE \<Longrightarrow> cat req s = Go (req @ s)"
  by (simp add: cat_def)

lemma cat_if:
  "length req + length (if b then s else []) < REQUEST_SIZE \<Longrightarrow>
    (if b then cat req s else Go req) = Go (req @ (if b then s else []))"
  by (cases b) (simp_all add: cat_def)

definition host_read :: "webbench \<Rightarrow> bool" where
  "host_read w \<longleftrightarrow> wb_proxyhost w = None \<and> 0 < wb_http10 w"

lemma wb_headers_text:
  assumes "length req + length (wb_tail w host) < REQUEST_SIZE" and "host_read w \<Longrightarrow> length host < MAXHOSTNAMELEN"
  shows "wb_headers w host req = Go (req @ wb_tail w host)"
proof -
  define ua pragma conn where "ua = ''User-Agent: WebBench 1.5'' @ [CR, LF]"
    and "pragma = ''Pragma: no-cache'' @ [CR, LF]" and "conn = ''Connection: close'' @ [CR, LF]"
  define v where "v = (if wb_http10 w = 1 then '' HTTP/1.0'' else if wb_http10 w = 2 then '' HTTP/1.1'' else [])"
  define h where "h = (if host_read w then ''Host: '' @ host @ [CR, LF] else [])"
  define p where "p = (if wb_force_reload w \<noteq> 0 \<and> wb_proxyhost w \<noteq> None then pragma else [])"
  define u where "u = (if wb_http10 w > 0 then ua else [])"
  define e where "e = (if wb_http10 w > 1 then conn else [])"
  define z where "z = (if wb_http10 w > 0 then [CR, LF] else [])"
  have tail: "wb_tail w host = v @ [CR, LF] @ u @ h @ p @ e @ z"
    by (simp only: wb_tail_def v_def u_def h_def p_def e_def z_def host_read_def ua_def pragma_def conn_def)
  have room: "length req + (length v + (2 + (length u + (length h + (length p + (length e + length z)))))) < REQUEST_SIZE"
    using assms(1) by (simp add: tail)
  have 1: "(if wb_http10 w = 1 then cat req '' HTTP/1.0'' else if wb_http10 w = 2 then cat req '' HTTP/1.1'' else Go req) = Go (req @ v)"
    using room by (auto simp: v_def cat_def split: if_splits)
  have 2: "(if host_read w then ebind (cat r ''Host: '') (\<lambda>r. ebind (read_array MAXHOSTNAMELEN host) (\<lambda>h.
      ebind (cat r h) (\<lambda>r. cat r [CR, LF]))) else Go r) = Go (r @ h)" if "length r + length h < REQUEST_SIZE" for r
    using that assms(2) by (cases "host_read w") (simp_all add: h_def cat_def read_array_def)
  have 3: "(if wb_http10 w > 0 then cat r ua else Go r) = Go (r @ u)" if "length r + length u < REQUEST_SIZE" for r
    using that unfolding u_def by (rule cat_if)
  have 4: "(if wb_force_reload w \<noteq> 0 \<and> wb_proxyhost w \<noteq> None then cat r pragma else Go r) = Go (r @ p)"
    if "length r + length p < REQUEST_SIZE" for r
    using that unfolding p_def by (rule cat_if)
  have 5: "(if wb_http10 w > 1 then cat r conn else Go r) = Go (r @ e)" if "length r + length e < REQUEST_SIZE" for r
    using that unfolding e_def by (rule cat_if)
  have 6: "(if wb_http10 w > 0 then cat r [CR, LF] else Go r) = Go (r @ z)" if "length r + length z < REQUEST_SIZE" for r
    using that unfolding z_def by (rule cat_if)
  have nl: "cat (req @ v) [CR, LF] = Go (req @ v @ [CR, LF])" using room by (simp add: cat_room)
  show ?thesis
    unfolding wb_headers_def ua_def [symmetric] pragma_def [symmetric] conn_def [symmetric] host_read_def [symmetric] 1 tail
      ebind_simps nl
    apply (subst 3) using room apply simp unfolding ebind_simps
    apply (subst 2) using room apply simp unfolding ebind_simps
    apply (subst 4) using room apply simp unfolding ebind_simps
    apply (subst 5) using room apply simp unfolding ebind_simps
    apply (subst 6) using room by simp_all
qed

lemma wb_headers_broken:
  assumes "host_read w" and "MAXHOSTNAMELEN \<le> length host"
  shows "wb_headers w host req = Broken Out_Of_Bounds"
  using assms by (simp add: wb_headers_def read_array_def host_read_def cat_def)

section \<open>What becomes of a URL\<close>

text \<open>
  The authority of a URL is what lies between \<open>://\<close> and the first slash; a colon in it separates
  the host from the port. \<open>authority_fits\<close> says that host and port have room in their arrays.
\<close>

definition authority :: "string \<Rightarrow> string" where
  "authority url = takeWhile (\<lambda>x. x \<noteq> CHR ''/'') (drop 7 url)"

definition direct_url :: "string \<Rightarrow> bool" where
  "direct_url url \<longleftrightarrow> length url \<le> 1500 \<and> casecmp_eq (take 7 url) ''http://'' \<and> CHR ''/'' \<in> set (drop 7 url)"

definition host_part :: "string \<Rightarrow> string" where
  "host_part a = (case index_of (CHR '':'') a of None \<Rightarrow> a | Some k \<Rightarrow> take k a)"

definition port_part :: "string \<Rightarrow> string option" where
  "port_part a = (case index_of (CHR '':'') a of None \<Rightarrow> None | Some k \<Rightarrow> Some (drop (k + 1) a))"

definition port_fits :: "string \<Rightarrow> bool" where
  "port_fits p \<longleftrightarrow> length p < 10 \<or> length p = 10 \<and> number_ends p"

definition authority_fits :: "webbench \<Rightarrow> string \<Rightarrow> bool" where
  "authority_fits w a \<longleftrightarrow> length (host_part a) \<le> MAXHOSTNAMELEN \<and> (host_read w \<longrightarrow> length (host_part a) < MAXHOSTNAMELEN)
     \<and> (\<forall>p. port_part a = Some p \<longrightarrow> port_fits p)"

definition url_port :: "webbench \<Rightarrow> string \<Rightarrow> webbench" where
  "url_port w a = (case port_part a of None \<Rightarrow> w
     | Some p \<Rightarrow> w\<lparr>wb_proxyport := (if atoi p = 0 then 80 else atoi p)\<rparr>)"

lemma url_port_frame [simp]: "wb_proxyhost (url_port w a) = wb_proxyhost w" "wb_http10 (url_port w a) = wb_http10 w"
  "wb_force_reload (url_port w a) = wb_force_reload w" "wb_method (url_port w a) = wb_method w"
  by (simp_all add: url_port_def split: option.split)

lemma url_port_tail [simp]: "wb_tail (url_port w a) host = wb_tail w host" "host_read (url_port w a) = host_read w"
  by (simp_all add: wb_tail_def host_read_def)

lemma protocol_frame [simp]: "wb_proxyhost (wb_protocol w) = wb_proxyhost w"
  "wb_force_reload (wb_protocol w) = wb_force_reload w" "wb_method (wb_protocol w) = wb_method w"
  by (simp_all add: wb_protocol_def Let_def)

lemma wb_host_authority:
  assumes "CHR ''/'' \<notin> set a"
  shows "wb_host w (a @ CHR ''/'' # p) (length a) =
    (if length (host_part a) \<le> MAXHOSTNAMELEN \<and> (\<forall>p. port_part a = Some p \<longrightarrow> port_fits p)
     then Go (url_port w a, host_part a) else Broken Out_Of_Bounds)"
proof (cases "index_of (CHR '':'') a")
  case None
  then have skip: "index_of (CHR '':'') (a @ CHR ''/'' # p) = map_option (\<lambda>k. length a + k) (index_of (CHR '':'') (CHR ''/'' # p))"
    by (intro index_of_skip) (simp add: index_of_none)
  show ?thesis
    by (cases "index_of (CHR '':'') (CHR ''/'' # p)")
      (simp_all add: wb_host_def skip copy_n_def host_part_def port_part_def url_port_def None)
next
  case (Some k)
  note a = index_of_split [OF Some]
  let ?b = "drop (Suc k) a"
  have h: "a @ CHR ''/'' # p = take k a @ CHR '':'' # ?b @ CHR ''/'' # p" using a(1) by (metis append_Cons append_assoc)
  have len: "length (take k a) = k" using a(3) by simp
  have i: "index_of (CHR '':'') (a @ CHR ''/'' # p) = Some k"
    unfolding h using index_of_first [OF a(2)] len by metis
  have "take (length a - k - 1) (drop (Suc k) (a @ CHR ''/'' # p)) = ?b" by simp
  moreover have "take k (a @ CHR ''/'' # p) = take k a" using a(3) by simp
  ultimately show ?thesis
    using a(3)
    by (simp add: wb_host_def i copy_n_def host_part_def port_part_def url_port_def Some port_fits_def atoi_array_def
        le_eq_less_or_eq [of _ 10])
qed

lemma tolower_low:
  assumes "tolower c = x" and "of_char x < (97::nat)"
  shows "c = x"
proof (cases "65 \<le> (of_char c :: nat) \<and> (of_char c :: nat) \<le> 90")
  case True
  then have "(of_char x :: nat) = (of_char c + 32) mod 256" unfolding assms(1) [symmetric] by (simp add: tolower_def Let_def)
  with True assms(2) show ?thesis by simp
qed (use assms(1) in \<open>simp add: tolower_def Let_def split: if_splits\<close>)

lemma http_scheme:
  assumes "casecmp_eq (take 7 url) ''http://''"
  shows "strstr url ''://'' = Some 4"
proof -
  from assms have 7: "map tolower (take 7 url) = map tolower ''http://''" by (simp add: casecmp_eq_def)
  then have "length (map tolower (take 7 url)) = 7" by (simp only: length_map) simp
  then have "7 \<le> length url" by simp
  then obtain a b c d e f g r where url: "url = a # b # c # d # e # f # g # r"
    by (auto simp: Suc_le_length_iff eval_nat_numeral)
  have eq: "tolower a = CHR ''h''" "tolower b = CHR ''t''" "tolower c = CHR ''t''" "tolower d = CHR ''p''"
    "tolower e = CHR '':''" "tolower f = CHR ''/''" "tolower g = CHR ''/''"
    using 7 by (simp_all add: url tolower_def)
  have "a \<noteq> CHR '':''" "b \<noteq> CHR '':''" "c \<noteq> CHR '':''" "d \<noteq> CHR '':''" using eq by (auto simp: tolower_def)
  moreover have "e = CHR '':''" "f = CHR ''/''" "g = CHR ''/''" using eq(5-7) by (auto intro: tolower_low)
  ultimately show ?thesis by (simp add: url)
qed

lemma authority_split:
  assumes "CHR ''/'' \<in> set (drop 7 url)"
  obtains p where "drop 7 url = authority url @ CHR ''/'' # p" and "CHR ''/'' \<notin> set (authority url)"
    and "index_of (CHR ''/'') (drop 7 url) = Some (length (authority url))"
proof -
  obtain k where k: "index_of (CHR ''/'') (drop 7 url) = Some k"
    using assms index_of_none by (metis not_None_eq)
  note sp = index_of_split [OF k]
  have a: "authority url = take k (drop 7 url)"
    unfolding authority_def by (subst sp(1), subst takeWhile_skip [OF sp(2)]) simp
  show ?thesis
    by (rule that [of "drop (Suc k) (drop 7 url)"]) (use sp k a in simp_all)
qed

definition request_line :: "webbench \<Rightarrow> string \<Rightarrow> string" where
  "request_line w path = wb_method_name (wb_method w) @ SPC # path"

lemma method_name_length: "length (wb_method_name m) \<le> 7"
  by (simp add: wb_method_name_def)

text \<open>Without a proxy: a URL that is refused, one that does not fit, and one that is taken.\<close>

lemma build_request_refused:
  assumes "wb_proxyhost w = None" and "\<not> direct_url url"
  shows "build_request w url = Exits 2"
proof -
  have c: "cat (wb_method_name m) '' '' = Go (wb_method_name m @ '' '')" for m
    using method_name_length [of m] by (intro cat_room) (simp add: REQUEST_SIZE_def)
  show ?thesis
  proof (cases "casecmp_eq (take 7 url) ''http://''")
    case True
    with assms have "1500 < length url \<or> index_of (CHR ''/'') (drop 7 url) = None"
      by (auto simp: direct_url_def index_of_none)
    with assms(1) show ?thesis by (auto simp: build_request_def Let_def c http_scheme [OF True])
  next
    case False
    with assms(1) show ?thesis by (auto simp: build_request_def Let_def c split: option.split)
  qed
qed

lemma build_request_direct:
  fixes w0 :: webbench
  defines "w \<equiv> wb_protocol w0"
  assumes "wb_proxyhost w0 = None" and "direct_url url"
  shows "build_request w0 url =
    (if authority_fits w (authority url)
     then Go (url_port w (authority url), host_part (authority url),
       request_line w (drop (length (authority url)) (drop 7 url)) @ wb_tail w (host_part (authority url)))
     else Broken Out_Of_Bounds)"
proof -
  let ?a = "authority url" and ?h = "drop 7 url" and ?m = "wb_method_name (wb_method w)"
  have d: "length url \<le> 1500" "casecmp_eq (take 7 url) ''http://''" "CHR ''/'' \<in> set ?h"
    using assms(3) by (simp_all add: direct_url_def)
  obtain p where p: "?h = ?a @ CHR ''/'' # p" "CHR ''/'' \<notin> set ?a" "index_of (CHR ''/'') ?h = Some (length ?a)"
    by (rule authority_split [OF d(3)])
  have none: "wb_proxyhost w = None" using assms(2) by (simp add: w_def)
  let ?path = "drop (length ?a) ?h"
  have len: "length ?m \<le> 7" "length ?path \<le> 1493" using method_name_length d(1) by simp_all
  have 1: "cat ?m '' '' = Go (?m @ '' '')" using len by (intro cat_room) (simp add: REQUEST_SIZE_def)
  have 2: "cat (?m @ '' '') ?path = Go (request_line w ?path)"
    using len by (subst cat_room) (simp_all add: REQUEST_SIZE_def request_line_def)
  have 3: "wb_headers (url_port w ?a) (host_part ?a) (request_line w ?path) =
      Go (request_line w ?path @ wb_tail w (host_part ?a))"
    if "length (host_part ?a) \<le> MAXHOSTNAMELEN" "host_read w \<longrightarrow> length (host_part ?a) < MAXHOSTNAMELEN"
    using that len wb_tail_length [of w "host_part ?a"]
    by (subst wb_headers_text) (simp_all add: request_line_def webbench_consts)
  have 4: "wb_headers (url_port w ?a) (host_part ?a) (request_line w ?path) = Broken Out_Of_Bounds"
    if "host_read w" "MAXHOSTNAMELEN \<le> length (host_part ?a)"
    by (rule wb_headers_broken) (use that in simp_all)
  have host: "wb_host w ?h (length ?a) =
    (if length (host_part ?a) \<le> MAXHOSTNAMELEN \<and> (\<forall>p. port_part ?a = Some p \<longrightarrow> port_fits p)
     then Go (url_port w ?a, host_part ?a) else Broken Out_Of_Bounds)"
    using wb_host_authority [OF p(2), of w p] p(1) by simp
  have "build_request w0 url = ebind (wb_host w ?h (length ?a)) (\<lambda>(w1, host).
      ebind (cat (?m @ '' '') ?path) (\<lambda>r. ebind (wb_headers w1 host r) (\<lambda>r. Go (w1, host, r))))"
    using d none p(3) by (simp add: build_request_def Let_def 1 http_scheme flip: w_def)
  then show ?thesis unfolding host using 3 4 by (auto simp: 2 authority_fits_def simp del: drop_drop)
qed

end
