(* ===== verification/Webbench_Server.thy ===== *)
theory Webbench_Server
  imports Webbench
begin

text \<open>
  The load generator's request at this server: what \<open>build_request\<close> of
  \<open>test_presure/webbench-1.5/webbench.c\<close> writes is given to the parser of \<open>http/http_conn.cpp\<close>.
\<close>

section \<open>A URL in its parts\<close>

lemma authority_of:
  assumes "CHR ''/'' \<notin> set a" and "wf_url path"
  shows "authority (''http://'' @ a @ path) = a" and "drop (length a) (drop 7 (''http://'' @ a @ path)) = path"
    and "length (''http://'' @ a @ path) \<le> 1500 \<Longrightarrow> direct_url (''http://'' @ a @ path)"
proof -
  obtain p where p: "path = CHR ''/'' # p" using assms(2) by (cases path) (auto simp: wf_url_def)
  show "authority (''http://'' @ a @ path) = a" using assms(1) by (simp add: authority_def p takeWhile_skip)
  show "drop (length a) (drop 7 (''http://'' @ a @ path)) = path" by simp
  show "length (''http://'' @ a @ path) \<le> 1500 \<Longrightarrow> direct_url (''http://'' @ a @ path)"
    by (simp add: direct_url_def p casecmp_eq_def)
qed

lemma host_part_subset: "set (host_part a) \<subseteq> set a"
  by (auto simp: host_part_def dest: in_set_takeD split: option.splits)

text \<open>What the server gets: the request for \<open>path\<close> at the authority \<open>a\<close>.\<close>

definition sent_request :: "webbench \<Rightarrow> string \<Rightarrow> string \<Rightarrow> string" where
  "sent_request w a path = request_line w path @ wb_tail w (host_part a)"

lemma request_built:
  assumes "wb_proxyhost w = None" and "CHR ''/'' \<notin> set a" and "wf_url path"
    and "length (''http://'' @ a @ path) \<le> 1500" and "authority_fits (wb_protocol w) a"
  shows "build_request w (''http://'' @ a @ path) =
      Go (url_port (wb_protocol w) a, host_part a, sent_request (wb_protocol w) a path)"
    and "length (sent_request w' a path) < REQUEST_SIZE"
proof -
  note u = authority_of [OF assms(2,3)]
  show "build_request w (''http://'' @ a @ path) =
      Go (url_port (wb_protocol w) a, host_part a, sent_request (wb_protocol w) a path)"
    using build_request_direct [OF assms(1) u(3) [OF assms(4)]] assms(5) unfolding u(1,2) by (simp add: sent_request_def)
  have "length (host_part a) \<le> MAXHOSTNAMELEN" using assms(5) by (simp add: authority_fits_def)
  then show "length (sent_request w' a path) < REQUEST_SIZE"
    using method_name_length [of "wb_method w'"] wb_tail_length [of w' "host_part a"] assms(4)
    by (simp add: sent_request_def request_line_def webbench_consts)
qed

lemma sent_get:
  assumes "wb_proxyhost w = None" and "wb_http10 w = 2" and "wb_method w = METHOD_GET"
  shows "sent_request w a path = render_request (method_name GET) path
    [''User-Agent: WebBench 1.5'', ''Host: '' @ host_part a, ''Connection: close''] []"
  using assms by (simp add: sent_request_def request_line_def wb_method_name_def wb_tail_def render_request_def
      method_name_def render_headers_def webbench_consts)

lemma protocol_get: "wb_method w = METHOD_GET \<Longrightarrow> wb_http10 w = 2 \<Longrightarrow> wb_protocol w = w"
  by (simp add: wb_protocol_def webbench_consts)

text \<open>
  With \<open>-2\<close> and the method GET the server understands the load generator: for every URL whose
  host and port fit, \<open>build_request\<close> ends without undefined behaviour, and the parser of the
  server, which receives the request, dispatches a GET of exactly the URL's path, without
  keep-alive, cookie or body.
\<close>

theorem load_request_understood:
  assumes "wb_proxyhost w = None" and "wb_http10 w = 2" and "wb_method w = METHOD_GET"
    and "CHR ''/'' \<notin> set a" and "no_eol a" and "NUL \<notin> set a" and "wf_url path"
    and "length (''http://'' @ a @ path) \<le> 1500" and "authority_fits w a"
  shows "\<exists>w1 host req c1 u. build_request w (''http://'' @ a @ path) = Go (w1, host, req)
    \<and> read_loop (store (init c) req) LINE_OK = Inr (c1, Dispatch)
    \<and> m_method c1 = GET \<and> m_url c1 = Some u \<and> c_str READ_BUFFER_SIZE (m_read_buf c1) u = Inr path
    \<and> \<not> m_linger c1 \<and> m_cookie c1 = [] \<and> m_content_length c1 = 0"
proof -
  define hs where "hs = [''User-Agent: WebBench 1.5'', ''Host: '' @ host_part a, ''Connection: close'']"
  have w: "wb_protocol w = w" by (rule protocol_get [OF assms(3,2)])
  note b = request_built [OF assms(1,4,7,8), unfolded w, OF assms(9)]
  have host: "no_eol (host_part a)" "NUL \<notin> set (host_part a)"
    using assms(5,6) host_part_subset [of a] by (auto simp: no_eol_def)
  then have hs: "\<forall>h \<in> set hs. wf_header h" by (simp add: hs_def wf_header_def)
  have sent: "sent_request w a path = render_request (method_name GET) path hs []"
    unfolding hs_def by (rule sent_get [OF assms(1-3)])
  have room: "int (length (render_request (method_name GET) path hs [])) < READ_BUFFER_SIZE"
    using b(2) [of w] unfolding sent by (simp add: webbench_consts READ_BUFFER_SIZE_def)
  have step: "foldl clen_step 0 hs = 0" "foldl linger_step False hs = False" "foldl cookie_step [] hs = []"
    by (simp_all add: hs_def clen_step_def linger_step_def cookie_step_def is_header_def header_value_def casecmp_eq_def tolower_def)
  obtain c1 u where "read_loop (store (init c) (sent_request w a path)) LINE_OK = Inr (c1, Dispatch)" "m_method c1 = GET"
      "m_url c1 = Some u" "c_str READ_BUFFER_SIZE (m_read_buf c1) u = Inr path" "\<not> m_linger c1" "m_cookie c1 = []"
      "m_content_length c1 = 0"
    using rendered_request_parsed [OF _ assms(7) hs _ room, of c] unfolding sent step by auto
  with b(1) show ?thesis by blast
qed

theorem load_request_understood_witness:
  "\<exists>w1 host req c1. build_request (new_webbench\<lparr>wb_http10 := 2\<rparr>) ''http://localhost:9006/a.html'' = Go (w1, host, req)
    \<and> read_loop (store (init zero_conn) req) LINE_OK = Inr (c1, Dispatch) \<and> m_method c1 = GET"
proof -
  have "authority_fits (new_webbench\<lparr>wb_http10 := 2\<rparr>) ''localhost:9006''"
    by (simp add: authority_fits_def host_part_def port_part_def index_of_def port_fits_def MAXHOSTNAMELEN_def)
  then show ?thesis
    using load_request_understood [of "new_webbench\<lparr>wb_http10 := 2\<rparr>" "''localhost:9006''" "''/a.html''" zero_conn]
    by (auto simp: new_webbench_def no_eol_def wf_url_def no_blank_def)
qed

section \<open>The other requests\<close>

lemma parse_line_refused:
  assumes line: "c_str N (m_read_buf c) t = Inr (m @ SPC # path @ v)" and m: "no_blank m"
    and path: "wf_url path" and v: "v = [] \<or> v = '' HTTP/1.0'' \<or> set_method c m = None"
  shows "\<exists>c1. parse_request_line c t = Inr (c1, BAD_REQUEST)"
proof -
  let ?c2 = "c\<lparr>m_read_buf := (m_read_buf c)(t + int (length m) := NUL), m_url := Some (t + int (length m) + 1)\<rparr>"
  note some = request_method_some [OF line m]
  show ?thesis
  proof (cases "set_method ?c2 m")
    case None
    with some show ?thesis by (simp add: parse_request_line_def)
  next
    case (Some c3)
    have "set_method c m \<noteq> None" using Some by (auto simp: set_method_def split: if_splits)
    with v have v: "v = [] \<or> v = '' HTTP/1.0''" by simp
    have buf: "m_read_buf c3 = (m_read_buf c)(t + int (length m) := NUL)"
      using Some by (auto simp: set_method_def split: if_splits)
    let ?u = "t + int (length m) + 1"
    have s: "c_str N (m_read_buf c3) ?u = Inr (path @ v)" using cut_string(4) [OF line] by (simp add: buf)
    have p: "path \<noteq> []" "no_blank path" using path by (simp_all add: wf_url_def)
    from v have "\<exists>c4. request_version c3 ?u = Inr (c4, None)"
    proof
      assume "v = []"
      with s show ?thesis using request_version_none [of c3 ?u "[]" path] p(2) by (simp add: all_blank_def)
    next
      assume v: "v = '' HTTP/1.0''"
      have "c_str N (m_read_buf c3) ?u = Inr ([] @ path @ SPC # [] @ ''HTTP/1.0'')" using s by (simp add: v)
      from request_version_some [OF this _ p] show ?thesis by (simp add: all_blank_def casecmp_eq_def tolower_def)
    qed
    with some Some show ?thesis by (auto simp: parse_request_line_def)
  qed
qed

text \<open>
  Every other request of the load generator, above all the one it sends when no option is
  given, a GET of HTTP/1.0, is answered with \<open>BAD_REQUEST\<close>: the server accepts HTTP/1.1 and the
  methods GET and POST only. The load generator reads the error page and counts a success.
\<close>

theorem load_request_refused:
  assumes "wb_proxyhost w = None" and "\<not> (wb_http10 (wb_protocol w) = 2 \<and> wb_method_name (wb_method w) = ''GET'')"
    and "CHR ''/'' \<notin> set a" and "wf_url path"
    and "length (''http://'' @ a @ path) \<le> 1500" and "authority_fits (wb_protocol w) a"
  shows "\<exists>w1 host req c1. build_request w (''http://'' @ a @ path) = Go (w1, host, req)
    \<and> read_loop (store (init c) req) LINE_OK = Inr (c1, Return BAD_REQUEST)"
proof -
  let ?w = "wb_protocol w" and ?m = "wb_method_name (wb_method w)"
  note b = request_built [OF assms(1,3-6)]
  define v where "v = (if wb_http10 ?w = 1 then '' HTTP/1.0'' else if wb_http10 ?w = 2 then '' HTTP/1.1'' else [])"
  define l where "l = ?m @ SPC # path @ v"
  obtain rest where req: "sent_request ?w a path = l @ CR # LF # rest"
    by (simp add: sent_request_def request_line_def wb_tail_def l_def v_def)
  let ?c = "store (init c) (sent_request ?w a path)"
  have room: "int (length (sent_request ?w a path)) < N" using b(2) [of ?w] by (simp add: webbench_consts READ_BUFFER_SIZE_def)
  have c: "at_line ?c" "pending ?c = l @ CR # LF # rest" "m_check_state ?c = CHECK_STATE_REQUESTLINE"
    using ready_stored [OF room] by (simp_all add: ready_conn_def req)
  have ns: "no_eol l" "NUL \<notin> set l" "no_blank ?m"
    using assms(4) by (auto simp: l_def v_def wb_method_name_def wf_url_def no_blank_def)
  note e = end_line_step(4) [OF c(1,2) ns(1,2)]
  have "v = [] \<or> v = '' HTTP/1.0'' \<or> set_method (end_line ?c l) ?m = None"
  proof (cases "wb_http10 ?w = 2")
    case True
    with assms(2) show ?thesis
      by (auto simp: wb_method_name_def set_method_def casecmp_eq_def tolower_def split: if_splits)
  qed (simp add: v_def)
  then obtain c1 where "parse_request_line (end_line ?c l) (m_checked_idx ?c) = Inr (c1, BAD_REQUEST)"
    using parse_line_refused [OF e [unfolded l_def] ns(3) assms(4)] unfolding l_def by blast
  then have "read_loop ?c LINE_OK = Inr (c1, Return BAD_REQUEST)"
    using read_loop_request_line [OF c(1,2) ns(1) c(3)] by simp
  with b(1) show ?thesis by blast
qed

theorem load_request_refused_witness:
  "\<exists>w1 host req c1. build_request new_webbench ''http://localhost:9006/a.html'' = Go (w1, host, req)
    \<and> read_loop (store (init zero_conn) req) LINE_OK = Inr (c1, Return BAD_REQUEST)"
proof -
  have "authority_fits (wb_protocol new_webbench) ''localhost:9006''"
    by (simp add: authority_fits_def host_part_def port_part_def index_of_def port_fits_def MAXHOSTNAMELEN_def)
  moreover have "wb_http10 (wb_protocol new_webbench) = 1" by (simp add: wb_protocol_def new_webbench_def webbench_consts)
  ultimately show ?thesis
    using load_request_refused [of new_webbench "''localhost:9006''" "''/a.html''" zero_conn]
    by (simp add: new_webbench_def wf_url_def no_blank_def)
qed

section \<open>The arrays\<close>

lemma build_request_proxy:
  assumes "wb_proxyhost w = Some p"
  shows "build_request w url = Exits 2 \<or> (\<exists>req. build_request w url = Go (wb_protocol w, [], req))"
proof -
  let ?w = "wb_protocol w" and ?m = "wb_method_name (wb_method w)"
  have len: "length ?m \<le> 7" by (rule method_name_length)
  have 1: "cat ?m '' '' = Go (?m @ '' '')" using len by (intro cat_room) (simp add: REQUEST_SIZE_def)
  have 2: "cat (?m @ '' '') url = Go (?m @ '' '' @ url)" if "length url \<le> 1500"
    using len that by (subst cat_room) (simp_all add: REQUEST_SIZE_def)
  have 3: "wb_headers ?w [] (?m @ '' '' @ url) = Go ((?m @ '' '' @ url) @ wb_tail ?w [])" if "length url \<le> 1500"
    using that len wb_tail_length [of ?w "[]"] assms
    by (intro wb_headers_text) (simp_all add: webbench_consts host_read_def)
  show ?thesis
    using assms 2 3 by (auto simp: build_request_def Let_def 1 split: option.split)
qed

text \<open>
  C37. \<open>build_request\<close> writes or reads outside \<open>host\<close>, \<open>tmp\<close> or \<open>request\<close> exactly for a URL that
  it accepts, without a proxy, and whose host or port does not fit: a host of more than 64
  characters is written past the end of its array; one of exactly 64 characters is left without
  a terminator, which is read past the end when a \<open>Host\<close> header is made of it (that is, unless
  the request is one of HTTP/0.9); and a port text fits when it is shorter than ten characters,
  or has ten, one of which ends the number that \<open>atoi\<close> reads (\<open>port_fits\<close>). With a proxy nothing
  overflows, and \<open>request\<close> is always long enough.
\<close>

theorem load_request_bounds:
  "(\<exists>e. build_request w url = Broken e) \<longleftrightarrow>
     wb_proxyhost w = None \<and> direct_url url
     \<and> \<not> (length (host_part (authority url)) \<le> (if 0 < wb_http10 (wb_protocol w) then 63 else 64)
          \<and> (case port_part (authority url) of None \<Rightarrow> True | Some p \<Rightarrow> port_fits p))"
proof (cases "wb_proxyhost w")
  case None
  have fits: "authority_fits (wb_protocol w) a \<longleftrightarrow>
      length (host_part a) \<le> (if 0 < wb_http10 (wb_protocol w) then 63 else 64)
      \<and> (case port_part a of None \<Rightarrow> True | Some p \<Rightarrow> port_fits p)" for a
    using None by (auto simp: authority_fits_def host_read_def MAXHOSTNAMELEN_def split: option.split)
  from None show ?thesis
    by (cases "direct_url url") (simp_all add: build_request_refused build_request_direct fits)
next
  case (Some p)
  with build_request_proxy [OF Some, of url] show ?thesis by auto
qed

end
