(* ===== verification/Webbench_Run.thy ===== *)
theory Webbench_Run
  imports Webbench
begin

text \<open>
  The load generator at work: \<open>Socket\<close> of \<open>test_presure/webbench-1.5/socket.c\<close>, and \<open>benchcore\<close>,
  \<open>bench\<close> and \<open>main\<close> of \<open>webbench.c\<close>.

  What the network, the alarm, \<open>fork\<close> and the pipe do is given to the definitions: a run of a
  client is the list of its attempts, each with the results of its system calls and with the
  places where the test of \<open>timerexpired\<close> finds the alarm gone off. \<open>None\<close> is a call that does not
  return. The three counters are \<open>int\<close>s, whose overflow is undefined.
\<close>

section \<open>Connecting\<close>

record net =
  n_inet_addr :: "string \<Rightarrow> int"
  n_gethostbyname :: "string \<Rightarrow> int option"
  n_socket :: int
  n_connect :: "int \<Rightarrow> int \<Rightarrow> int"

definition INADDR_NONE :: int where "INADDR_NONE = 4294967295"

text \<open>The result and the descriptors that the call leaves open.\<close>

definition Socket :: "net \<Rightarrow> string \<Rightarrow> int \<Rightarrow> int \<times> int list" where
  "Socket n host clientPort =
     (let inaddr = n_inet_addr n host
      in case (if inaddr \<noteq> INADDR_NONE then Some inaddr else n_gethostbyname n host) of
           None \<Rightarrow> (- 1, [])
         | Some addr \<Rightarrow>
             (let sock = n_socket n
              in if sock < 0 then (sock, [])
                 else if n_connect n addr (clientPort mod 65536) < 0 then (- 1, [sock])
                 else (sock, [sock])))"

section \<open>A client\<close>

record counts =
  speed :: int
  failed :: int
  bytes :: int

definition no_counts :: counts where
  "no_counts = \<lparr>speed = 0, failed = 0, bytes = 0\<rparr>"

datatype read_step = Alarm | Got int

record attempt =
  at_expired :: bool
  at_net :: net
  at_write :: int
  at_shutdown :: int
  at_reads :: "read_step list"
  at_close :: int

text \<open>The loop that reads the answer: the bytes so far, and whether no call failed.\<close>

fun read_page :: "int \<Rightarrow> read_step list \<Rightarrow> (int \<times> bool) option res" where
  "read_page b [] = Inr None"
| "read_page b (Alarm # rs) = Inr (Some (b, True))"
| "read_page b (Got i # rs) =
     (if i < 0 then Inr (Some (b, False))
      else if i = 0 then Inr (Some (b, True))
      else rbind (int_add b i) (\<lambda>b1. read_page b1 rs))"

definition count_failed :: "counts \<Rightarrow> counts option res" where
  "count_failed c = rbind (int_add (failed c) 1) (\<lambda>n. Inr (Some (c\<lparr>failed := n\<rparr>)))"

definition count_page :: "counts \<Rightarrow> counts option res" where
  "count_page c = rbind (int_add (speed c) 1) (\<lambda>n. Inr (Some (c\<lparr>speed := n\<rparr>)))"

definition try_once :: "webbench \<Rightarrow> string \<Rightarrow> string \<Rightarrow> counts \<Rightarrow> attempt \<Rightarrow> counts option res" where
  "try_once w hostname req c a =
     (if fst (Socket (at_net a) hostname (wb_proxyport w)) < 0 then count_failed c
      else if int (length req) \<noteq> at_write a then count_failed c
      else if wb_http10 w = 0 \<and> at_shutdown a \<noteq> 0 then count_failed c
      else rbind (if wb_force w = 0 then read_page (bytes c) (at_reads a) else Inr (Some (bytes c, True))) (\<lambda>r.
        case r of
          None \<Rightarrow> Inr None
        | Some (b, ok) \<Rightarrow>
            if \<not> ok then count_failed (c\<lparr>bytes := b\<rparr>)
            else if at_close a \<noteq> 0 then count_failed (c\<lparr>bytes := b\<rparr>)
            else count_page (c\<lparr>bytes := b\<rparr>)))"

fun benchcore :: "webbench \<Rightarrow> string \<Rightarrow> string \<Rightarrow> counts \<Rightarrow> attempt list \<Rightarrow> counts option res" where
  "benchcore w hostname req c [] = Inr None"
| "benchcore w hostname req c (a # as) =
     (if at_expired a then Inr (Some (if failed c > 0 then c\<lparr>failed := failed c - 1\<rparr> else c))
      else rbind (try_once w hostname req c a) (\<lambda>r. case r of
        None \<Rightarrow> Inr None
      | Some c1 \<Rightarrow> benchcore w hostname req c1 as))"

section \<open>The processes\<close>

text \<open>
  The pipe has two ends, and a process has those open that it got from \<open>pipe\<close> or \<open>fork\<close> and has
  not closed. \<open>be_text\<close> is all that the children write, \<open>be_child_left\<close> says whether a child that
  has its writing end open is left when the parent has read it.
\<close>

datatype pipe_end = Read_End | Write_End

definition pipe_ends :: "pipe_end list" where
  "pipe_ends = [Read_End, Write_End]"

record bench_env =
  be_probe :: net
  be_pipe :: int
  be_fork :: "nat \<Rightarrow> int"
  be_sigaction :: int
  be_attempts :: "attempt list"
  be_fdopen :: bool
  be_text :: string
  be_child_left :: bool
  be_per_min :: "int \<Rightarrow> int \<Rightarrow> int"
  be_per_sec :: "int \<Rightarrow> int \<Rightarrow> int"

text \<open>The loop of \<open>fork\<close>: the values of \<open>i\<close> and \<open>pid\<close> behind it, for \<open>n\<close> rounds still to do.\<close>

fun fork_loop :: "(nat \<Rightarrow> int) \<Rightarrow> nat \<Rightarrow> int \<Rightarrow> nat \<Rightarrow> int \<times> int" where
  "fork_loop fork i pid 0 = (int i, pid)"
| "fork_loop fork i pid (Suc n) = (if fork i \<le> 0 then (int i, fork i) else fork_loop fork (Suc i) (fork i) n)"

text \<open>
  A child's line in the pipe, and \<open>fscanf\<close> with \<open>%d\<close> up to three times: the numbers and the rest.
  What \<open>fscanf\<close> does where the text ends depends on \<open>open_end\<close>, whether any process has the
  writing end of the pipe open: then it waits for more, and else it gets the end of file, which
  ends a number and is no number itself.
\<close>

definition child_line :: "counts \<Rightarrow> string" where
  "child_line c = show_int (speed c) @ SPC # show_int (failed c) @ SPC # show_int (bytes c) @ [LF]"

datatype scanned = Waits | Mismatch | Number int string

definition scan_int :: "bool \<Rightarrow> string \<Rightarrow> scanned" where
  "scan_int open_end s =
     (let t = dropWhile is_space s;
          u = (if t \<noteq> [] \<and> (hd t = CHR ''-'' \<or> hd t = CHR ''+'') then tl t else t)
      in if u = [] then (if open_end then Waits else Mismatch)
         else if takeWhile is_digit u = [] then Mismatch
         else if dropWhile is_digit u = [] \<and> open_end then Waits
         else Number (atoi t) (dropWhile is_digit u))"

fun scan_ints :: "bool \<Rightarrow> nat \<Rightarrow> string \<Rightarrow> (int list \<times> string) option" where
  "scan_ints open_end 0 s = Some ([], s)"
| "scan_ints open_end (Suc n) s = (case scan_int open_end s of
     Waits \<Rightarrow> None
   | Mismatch \<Rightarrow> Some ([], s)
   | Number x r \<Rightarrow> map_option (\<lambda>(xs, r1). (x # xs, r1)) (scan_ints open_end n r))"

text \<open>
  The loop of the parent, over the text of the pipe, with \<open>clients\<close> rounds to go: the sums and the
  variable \<open>i\<close>. The variable \<open>k\<close> has no value at first.
\<close>

fun collect :: "bool \<Rightarrow> counts \<Rightarrow> int \<Rightarrow> int option \<Rightarrow> nat \<Rightarrow> string \<Rightarrow> (counts \<times> int) option res" where
  "collect open_end c i k 0 s = Inr (Some (c, i))"
| "collect open_end c i k (Suc clients) s = (case scan_ints open_end 3 s of
     None \<Rightarrow> Inr None
   | Some (l, r) \<Rightarrow>
       (let i1 = (case l of [] \<Rightarrow> i | x # _ \<Rightarrow> x);
            k1 = (if length l < 3 then k else Some (l ! 2))
        in if length l < 2 then Inr (Some (c, i1))
           else rbind (int_add (speed c) i1) (\<lambda>s1.
                rbind (int_add (failed c) (l ! 1)) (\<lambda>f1.
                case k1 of
                  None \<Rightarrow> Inl Uninitialised
                | Some x \<Rightarrow>
                    rbind (int_add (bytes c) x) (\<lambda>b1.
                    collect open_end \<lparr>speed = s1, failed = f1, bytes = b1\<rparr> i1 k1 clients r)))))"

text \<open>
  The parent's report. The two quotients are computed with \<open>float\<close>s and converted to \<open>int\<close>;
  \<open>be_per_min n t\<close> is \<open>(int)(n / (t / 60.0f))\<close> and \<open>be_per_sec n t\<close> is \<open>(int)(n / (float)t)\<close>.
\<close>

definition report :: "bench_env \<Rightarrow> webbench \<Rightarrow> counts \<Rightarrow> string res" where
  "report env w c = rbind (int_add (speed c) (failed c)) (\<lambda>n.
     Inr (LF # ''Speed='' @ show_int (be_per_min env n (wb_benchtime w)) @ '' pages/min, ''
       @ show_int (be_per_sec env (bytes c) (wb_benchtime w)) @ '' bytes/sec.'' @ LF # ''Requests: ''
       @ show_int (speed c) @ '' susceed, '' @ show_int (failed c) @ '' failed.'' @ [LF]))"

text \<open>What a process writes: nothing, a child's line in the pipe, or the parent's report.\<close>

datatype bench_output = Silent | Child_Line string | Summary string

text \<open>
  \<open>bench\<close>. The parent comes to \<open>fscanf\<close> with the ends of the pipe that \<open>pipe\<close> gave it: no
  \<open>close\<close> of \<open>mypipe[1]\<close> is in its way.
\<close>

definition bench :: "webbench \<Rightarrow> string \<Rightarrow> string \<Rightarrow> bench_env \<Rightarrow> (int \<times> bench_output) option res" where
  "bench w host req env =
     (let hostname = (case wb_proxyhost w of None \<Rightarrow> host | Some p \<Rightarrow> p)
      in if fst (Socket (be_probe env) hostname (wb_proxyport w)) < 0 then Inr (Some (1, Silent))
         else if be_pipe env \<noteq> 0 then Inr (Some (3, Silent))
         else (let mypipe = pipe_ends in
           case fork_loop (be_fork env) 0 0 (nat (wb_clients w)) of (i, pid) \<Rightarrow>
           if pid < 0 then Inr (Some (3, Silent))
           else if pid = 0 then
             (if be_sigaction env \<noteq> 0 then Inr (Some (3, Silent))
              else rbind (benchcore w hostname req no_counts (be_attempts env)) (\<lambda>r. case r of
                  None \<Rightarrow> Inr None
                | Some c \<Rightarrow> if \<not> be_fdopen env then Inr (Some (3, Silent)) else Inr (Some (0, Child_Line (child_line c)))))
           else if \<not> be_fdopen env then Inr (Some (3, Silent))
           else rbind (collect (Write_End \<in> set mypipe \<or> be_child_left env)
               no_counts i None (nat (wb_clients w)) (be_text env)) (\<lambda>r. case r of
               None \<Rightarrow> Inr None
             | Some (c, i1) \<Rightarrow> rbind (report env w c) (\<lambda>t. Inr (Some (i1, Summary t))))))"

text \<open>\<open>main\<close>: the line about the benchmark, what was left, and the status.\<close>

definition wb_main :: "string list \<Rightarrow> bench_env \<Rightarrow> (string \<times> bench_output \<times> int) exits option" where
  "wb_main args env =
     (case ebind (wb_arguments args) (\<lambda>(w, url). ebind (build_request w url) (\<lambda>(w1, host, req). Go (w1, url, host, req))) of
        Exits n \<Rightarrow> Some (Exits n)
      | Broken e \<Rightarrow> Some (Broken e)
      | Go (w, url, host, req) \<Rightarrow>
          (case bench w host req env of
             Inl e \<Rightarrow> Some (Broken e)
           | Inr None \<Rightarrow> None
           | Inr (Some (status, out)) \<Rightarrow> Some (Go (bench_info w url, out, status))))"

section \<open>What a client counts\<close>

text \<open>
  The answer as it should be counted: the sum of the bytes read before the end, an error or the
  alarm; whether it ends at all; and whether the attempt succeeds.
\<close>

fun page_bytes :: "read_step list \<Rightarrow> int" where
  "page_bytes (Got i # rs) = (if 0 < i then i + page_bytes rs else 0)"
| "page_bytes rs = 0"

fun page_ends :: "read_step list \<Rightarrow> bool" where
  "page_ends (Got i # rs) = (0 < i \<longrightarrow> page_ends rs)"
| "page_ends (Alarm # rs) = True"
| "page_ends [] = False"

fun page_read :: "read_step list \<Rightarrow> bool" where
  "page_read (Got i # rs) = (if 0 < i then page_read rs else i = 0)"
| "page_read rs = True"

definition request_sent :: "webbench \<Rightarrow> string \<Rightarrow> string \<Rightarrow> attempt \<Rightarrow> bool" where
  "request_sent w hostname req a \<longleftrightarrow> 0 \<le> fst (Socket (at_net a) hostname (wb_proxyport w))
     \<and> at_write a = int (length req) \<and> (wb_http10 w = 0 \<longrightarrow> at_shutdown a = 0)"

definition waits :: "webbench \<Rightarrow> bool" where "waits w \<longleftrightarrow> wb_force w = 0"

definition succeeds :: "webbench \<Rightarrow> string \<Rightarrow> string \<Rightarrow> attempt \<Rightarrow> bool" where
  "succeeds w hostname req a \<longleftrightarrow> request_sent w hostname req a \<and> (waits w \<longrightarrow> page_read (at_reads a)) \<and> at_close a = 0"

definition answer_bytes :: "webbench \<Rightarrow> string \<Rightarrow> string \<Rightarrow> attempt \<Rightarrow> int" where
  "answer_bytes w hostname req a = (if request_sent w hostname req a \<and> waits w then page_bytes (at_reads a) else 0)"

definition attempt_ends :: "webbench \<Rightarrow> string \<Rightarrow> string \<Rightarrow> attempt \<Rightarrow> bool" where
  "attempt_ends w hostname req a \<longleftrightarrow> \<not> at_expired a \<and> (request_sent w hostname req a \<and> waits w \<longrightarrow> page_ends (at_reads a))"

lemma page_bytes_nonneg: "0 \<le> page_bytes rs"
  by (induction rs rule: page_bytes.induct) auto

lemma read_page_spec:
  assumes "0 \<le> b" and "b \<le> INT_MAX" and "page_ends rs"
  shows "read_page b rs = (if b + page_bytes rs \<le> INT_MAX then Inr (Some (b + page_bytes rs, page_read rs)) else Inl Signed_Overflow)"
  using assms
proof (induction b rs rule: read_page.induct)
  case (3 b i rs)
  show ?case
  proof (cases "0 < i")
    case True
    show ?thesis
    proof (cases "b + i \<le> INT_MAX")
      case False
      with True 3(2) page_bytes_nonneg [of rs] show ?thesis by (simp add: int_add_def)
    next
      case room: True
      with True 3(2) have "int_add b i = Inr (b + i)" by (intro int_add_ok) (simp_all add: INT_MIN_def)
      with 3(1) [of "b + i"] True room 3(2,4) show ?thesis by (simp add: add.assoc)
    qed
  qed (use 3 in auto)
qed auto

lemma count_ok:
  "0 \<le> failed c \<Longrightarrow> failed c < INT_MAX \<Longrightarrow> count_failed c = Inr (Some (c\<lparr>failed := failed c + 1\<rparr>))"
  "0 \<le> speed c \<Longrightarrow> speed c < INT_MAX \<Longrightarrow> count_page c = Inr (Some (c\<lparr>speed := speed c + 1\<rparr>))"
  by (simp_all add: count_failed_def count_page_def int_add_def INT_MIN_def)

text \<open>The counters and what an attempt adds to them.\<close>

definition counts_ok :: "counts \<Rightarrow> bool" where
  "counts_ok c \<longleftrightarrow> 0 \<le> speed c \<and> 0 \<le> failed c \<and> 0 \<le> bytes c \<and> bytes c \<le> INT_MAX"

definition after_try :: "webbench \<Rightarrow> string \<Rightarrow> string \<Rightarrow> counts \<Rightarrow> attempt \<Rightarrow> counts" where
  "after_try w hostname req c a = \<lparr>speed = speed c + (if succeeds w hostname req a then 1 else 0),
     failed = failed c + (if succeeds w hostname req a then 0 else 1), bytes = bytes c + answer_bytes w hostname req a\<rparr>"

lemma answer_bytes_nonneg: "0 \<le> answer_bytes w hostname req a"
  by (simp add: answer_bytes_def page_bytes_nonneg)

lemma try_once_spec:
  assumes "attempt_ends w hostname req a" and "counts_ok c" and "speed c < INT_MAX" and "failed c < INT_MAX"
  shows "try_once w hostname req c a =
    (if bytes c + answer_bytes w hostname req a \<le> INT_MAX then Inr (Some (after_try w hostname req c a)) else Inl Signed_Overflow)"
proof (cases "request_sent w hostname req a")
  case False
  then have s: "\<not> succeeds w hostname req a" "answer_bytes w hostname req a = 0" by (simp_all add: succeeds_def answer_bytes_def)
  have "try_once w hostname req c a = count_failed c" using False by (auto simp: try_once_def request_sent_def)
  then show ?thesis using assms by (simp add: s after_try_def counts_ok_def count_ok)
next
  case sent: True
  have t: "try_once w hostname req c a = rbind (if waits w then read_page (bytes c) (at_reads a) else Inr (Some (bytes c, True))) (\<lambda>r.
        case r of None \<Rightarrow> Inr None
        | Some (b, ok) \<Rightarrow>
            if \<not> ok then count_failed (c\<lparr>bytes := b\<rparr>)
            else if at_close a \<noteq> 0 then count_failed (c\<lparr>bytes := b\<rparr>)
            else count_page (c\<lparr>bytes := b\<rparr>))"
  proof -
    have "\<not> fst (Socket (at_net a) hostname (wb_proxyport w)) < 0" "int (length req) = at_write a"
      "\<not> (wb_http10 w = 0 \<and> at_shutdown a \<noteq> 0)" using sent by (auto simp: request_sent_def)
    then show ?thesis by (simp only: try_once_def waits_def if_False if_True simp_thms)
  qed
  show ?thesis
  proof (cases "waits w")
    case True
    with assms(1) sent have "page_ends (at_reads a)" by (simp add: attempt_ends_def)
    with read_page_spec [OF _ _ this, of "bytes c"] assms(2-4) sent True show ?thesis
      by (simp add: t answer_bytes_def succeeds_def after_try_def counts_ok_def count_ok)
  next
    case False
    with assms(2-4) sent show ?thesis
      by (simp add: t answer_bytes_def succeeds_def after_try_def counts_ok_def count_ok)
  qed
qed

definition pages :: "webbench \<Rightarrow> string \<Rightarrow> string \<Rightarrow> attempt list \<Rightarrow> int" where
  "pages w hostname req as = int (length (filter (succeeds w hostname req) as))"

definition errors :: "webbench \<Rightarrow> string \<Rightarrow> string \<Rightarrow> attempt list \<Rightarrow> int" where
  "errors w hostname req as = int (length (filter (\<lambda>a. \<not> succeeds w hostname req a) as))"

definition total_bytes :: "webbench \<Rightarrow> string \<Rightarrow> string \<Rightarrow> attempt list \<Rightarrow> int" where
  "total_bytes w hostname req as = (\<Sum>a \<leftarrow> as. answer_bytes w hostname req a)"

lemma total_bytes_nonneg: "0 \<le> total_bytes w hostname req as"
  unfolding total_bytes_def by (rule sum_list_nonneg) (auto simp: answer_bytes_nonneg)

lemma benchcore_spec:
  assumes "\<forall>a \<in> set as. attempt_ends w hostname req a" and "at_expired e" and "counts_ok c"
    and "speed c + int (length as) \<le> INT_MAX" and "failed c + int (length as) \<le> INT_MAX"
  shows "benchcore w hostname req c (as @ e # rest) =
    (if bytes c + total_bytes w hostname req as \<le> INT_MAX
     then Inr (Some \<lparr>speed = speed c + pages w hostname req as,
       failed = (let n = failed c + errors w hostname req as in if 0 < n then n - 1 else n),
       bytes = bytes c + total_bytes w hostname req as\<rparr>)
     else Inl Signed_Overflow)"
  using assms(1,3-5)
proof (induction as arbitrary: c)
  case Nil
  then show ?case using assms(2) by (simp add: pages_def errors_def total_bytes_def counts_ok_def Let_def)
next
  case (Cons a as)
  note once = try_once_spec [of w hostname req a c]
  have a: "\<not> at_expired a" "attempt_ends w hostname req a" using Cons.prems(1) by (simp_all add: attempt_ends_def)
  have t: "total_bytes w hostname req (a # as) = answer_bytes w hostname req a + total_bytes w hostname req as"
    by (simp add: total_bytes_def)
  show ?case
  proof (cases "bytes c + answer_bytes w hostname req a \<le> INT_MAX")
    case False
    with once a Cons.prems total_bytes_nonneg [of w hostname req as] show ?thesis by (simp add: t)
  next
    case True
    have ok: "counts_ok (after_try w hostname req c a)"
      using Cons.prems(2) True answer_bytes_nonneg [of w hostname req a] by (simp add: counts_ok_def after_try_def)
    have "benchcore w hostname req c ((a # as) @ e # rest) = benchcore w hostname req (after_try w hostname req c a) (as @ e # rest)"
      using once a Cons.prems True by simp
    also have "\<dots> = (if bytes c + total_bytes w hostname req (a # as) \<le> INT_MAX
     then Inr (Some \<lparr>speed = speed c + pages w hostname req (a # as),
       failed = (let n = failed c + errors w hostname req (a # as) in if 0 < n then n - 1 else n),
       bytes = bytes c + total_bytes w hostname req (a # as)\<rparr>)
     else Inl Signed_Overflow)"
      using Cons.IH [OF _ ok] Cons.prems
      by (simp add: t after_try_def pages_def errors_def Let_def add.assoc)
    finally show ?thesis .
  qed
qed

text \<open>
  C38. A client that makes the attempts \<open>as\<close> before the alarm counts the successful ones and the
  bytes of all answers, and one failure less than there were: the decrement meant for the attempt
  that the alarm cuts short is taken from any failure. When the answers have more than
  \<open>INT_MAX\<close> bytes together the counter overflows, which is undefined.
\<close>

theorem client_counts:
  assumes "\<forall>a \<in> set as. attempt_ends w hostname req a" and "at_expired e" and "int (length as) \<le> INT_MAX"
  shows "benchcore w hostname req no_counts (as @ e # rest) =
    (if total_bytes w hostname req as \<le> INT_MAX
     then Inr (Some \<lparr>speed = pages w hostname req as,
       failed = (if 0 < errors w hostname req as then errors w hostname req as - 1 else 0),
       bytes = total_bytes w hostname req as\<rparr>)
     else Inl Signed_Overflow)"
proof -
  have "0 \<le> errors w hostname req as" by (simp add: errors_def)
  then show ?thesis
    using benchcore_spec [OF assms(1,2), of no_counts rest] assms(3)
    by (simp add: no_counts_def counts_ok_def INT_MAX_def Let_def)
qed

definition demo_net :: "int \<Rightarrow> net" where
  "demo_net r = \<lparr>n_inet_addr = (\<lambda>_. 16777343), n_gethostbyname = (\<lambda>_. None), n_socket = 3, n_connect = (\<lambda>_ _. r)\<rparr>"

definition demo_attempt :: "int \<Rightarrow> int \<Rightarrow> attempt" where
  "demo_attempt r n = \<lparr>at_expired = False, at_net = demo_net r, at_write = n, at_shutdown = 0,
     at_reads = [Got 100, Got 20, Got 0], at_close = 0\<rparr>"

theorem client_counts_witness:
  "benchcore new_webbench ''h'' ''GET'' no_counts
     ([demo_attempt 0 3, demo_attempt (- 1) 3, demo_attempt 0 3] @ [(demo_attempt 0 3)\<lparr>at_expired := True\<rparr>])
   = Inr (Some \<lparr>speed = 2, failed = 0, bytes = 240\<rparr>)"
proof -
  let ?as = "[demo_attempt 0 3, demo_attempt (- 1) 3, demo_attempt 0 3]"
  have s: "fst (Socket (demo_net 0) ''h'' 80) = 3" "fst (Socket (demo_net (- 1)) ''h'' 80) = - 1"
    by (simp_all add: Socket_def demo_net_def INADDR_NONE_def)
  have f: "waits new_webbench" "wb_proxyport new_webbench = 80" by (simp_all add: waits_def new_webbench_def)
  have r: "request_sent new_webbench ''h'' ''GET'' (demo_attempt 0 3)" "\<not> request_sent new_webbench ''h'' ''GET'' (demo_attempt (- 1) 3)"
    by (simp_all add: request_sent_def demo_attempt_def s f)
  have "pages new_webbench ''h'' ''GET'' ?as = 2" "errors new_webbench ''h'' ''GET'' ?as = 1"
    "total_bytes new_webbench ''h'' ''GET'' ?as = 240" "\<forall>a \<in> set ?as. attempt_ends new_webbench ''h'' ''GET'' a"
    by (simp_all add: pages_def errors_def total_bytes_def succeeds_def answer_bytes_def attempt_ends_def r f)
      (simp_all add: demo_attempt_def)
  then show ?thesis
    using client_counts [of ?as new_webbench "''h''" "''GET''" "(demo_attempt 0 3)\<lparr>at_expired := True\<rparr>" "[]"]
    by (simp add: INT_MAX_def)
qed

section \<open>What the parent adds up\<close>

lemma scan_int_show:
  assumes "0 \<le> n" and "n \<le> INT_MAX" and "\<not> is_digit x" and "\<forall>y \<in> set bl. is_space y"
  shows "scan_int open_end (bl @ show_int n @ x # s) = Number n (x # s)"
proof -
  obtain c cs where c: "show_int n = c # cs" using assms(1) by (cases "show_nat (nat n)") (auto simp: show_int_def)
  have all: "\<forall>y \<in> set (c # cs). is_digit y" using show_nat_digits [of "nat n"] assms(1) c by (simp add: show_int_def)
  then have d: "is_digit c" by simp
  have t: "dropWhile is_space (bl @ show_int n @ x # s) = show_int n @ x # s"
    using assms(4) is_space_digit [OF d] by (simp add: c dropWhile_append2)
  have "takeWhile is_digit (show_int n @ x # s) = show_int n" "dropWhile is_digit (show_int n @ x # s) = x # s"
    using all assms(3) unfolding c by (simp_all add: takeWhile_append2 dropWhile_append2)
  moreover have "atoi (show_int n @ x # s) = n"
    using strtol10_show_int [of n "x # s"] assms(1-3)
    by (simp add: atoi_def to_int32_id INT_MIN_def INT_MAX_def LONG_MIN_def LONG_MAX_def)
  ultimately show ?thesis using is_space_digit [OF d] by (simp add: scan_int_def t) (simp add: c)
qed

lemma scan_line:
  assumes "0 \<le> speed r" and "0 \<le> failed r" and "0 \<le> bytes r"
    and "speed r \<le> INT_MAX" and "failed r \<le> INT_MAX" and "bytes r \<le> INT_MAX" and "\<forall>y \<in> set bl. is_space y"
  shows "scan_ints open_end 3 (bl @ child_line r @ s) = Some ([speed r, failed r, bytes r], LF # s)"
proof -
  have b: "\<not> is_digit SPC" "\<not> is_digit LF" "is_space SPC" by (simp_all add: is_digit_def is_space_def)
  have 1: "scan_int open_end (bl @ child_line r @ s) = Number (speed r) (SPC # show_int (failed r) @ SPC # show_int (bytes r) @ LF # s)"
    using scan_int_show [OF assms(1,4) b(1) assms(7)] by (simp add: child_line_def)
  have 2: "scan_int open_end (SPC # show_int (failed r) @ SPC # show_int (bytes r) @ LF # s) = Number (failed r) (SPC # show_int (bytes r) @ LF # s)"
    using scan_int_show [OF assms(2,5) b(1), of "[SPC]"] b(3) by simp
  have 3: "scan_int open_end (SPC # show_int (bytes r) @ LF # s) = Number (bytes r) (LF # s)"
    using scan_int_show [OF assms(3,6) b(2), of "[SPC]"] b(3) by simp
  show ?thesis by (simp add: numeral_3_eq_3 1 2 3)
qed

lemma fork_all:
  assumes "\<forall>k < i + n. 0 < fork k"
  shows "fork_loop fork i pid n = (int (i + n), if n = 0 then pid else fork (i + n - 1))"
  using assms
proof (induction n arbitrary: i pid)
  case (Suc n)
  have "\<not> fork i \<le> 0" using Suc.prems by (simp add: not_le)
  then show ?case using Suc.IH [of "Suc i" "fork i"] Suc.prems by (cases n) simp_all
qed simp

lemma collect_lines:
  assumes "\<forall>r \<in> set rs. 0 \<le> speed r \<and> 0 \<le> failed r \<and> 0 \<le> bytes r" and "counts_ok c" and "\<forall>y \<in> set bl. is_space y"
    and "speed c + sum_list (map speed rs) \<le> INT_MAX" and "failed c + sum_list (map failed rs) \<le> INT_MAX"
    and "bytes c + sum_list (map bytes rs) \<le> INT_MAX"
  shows "collect open_end c i k (length rs + n) (bl @ concat (map child_line rs)) =
    (if n = 0 \<or> \<not> open_end then Inr (Some (\<lparr>speed = speed c + sum_list (map speed rs), failed = failed c + sum_list (map failed rs),
      bytes = bytes c + sum_list (map bytes rs)\<rparr>, if rs = [] then i else speed (last rs))) else Inr None)"
  using assms
proof (induction rs arbitrary: c i k bl)
  case Nil
  have "dropWhile is_space bl = []" using Nil(3) by simp
  then have "scan_ints open_end 3 bl = (if open_end then None else Some ([], bl))"
    by (simp add: numeral_3_eq_3 scan_int_def)
  then show ?case by (cases n) simp_all
next
  case (Cons r rs)
  have sums: "0 \<le> sum_list (map speed rs)" "0 \<le> sum_list (map failed rs)" "0 \<le> sum_list (map bytes rs)"
    using Cons.prems(1) by (auto intro!: sum_list_nonneg)
  have r: "0 \<le> speed r" "0 \<le> failed r" "0 \<le> bytes r" using Cons.prems(1) by simp_all
  have c: "0 \<le> speed c" "0 \<le> failed c" "0 \<le> bytes c" using Cons.prems(2) by (simp_all add: counts_ok_def)
  define c1 where "c1 = \<lparr>speed = speed c + speed r, failed = failed c + failed r, bytes = bytes c + bytes r\<rparr>"
  have add: "int_add (speed c) (speed r) = Inr (speed c + speed r)" "int_add (failed c) (failed r) = Inr (failed c + failed r)"
    "int_add (bytes c) (bytes r) = Inr (bytes c + bytes r)"
    using sums r c Cons.prems(4-6) by (auto intro!: int_add_ok simp: INT_MIN_def)
  have c1: "counts_ok c1" using r c sums Cons.prems(6) by (simp add: counts_ok_def c1_def)
  have "scan_ints open_end 3 (bl @ child_line r @ concat (map child_line rs)) =
      Some ([speed r, failed r, bytes r], [LF] @ concat (map child_line rs))"
    using scan_line [OF r _ _ _ Cons.prems(3)] sums c Cons.prems(4-6) by simp
  then have "collect open_end c i k (length (r # rs) + n) (bl @ concat (map child_line (r # rs))) =
      collect open_end c1 (speed r) (Some (bytes r)) (length rs + n) ([LF] @ concat (map child_line rs))"
    by (simp add: add c1_def Let_def)
  also have "\<dots> = (if n = 0 \<or> \<not> open_end then Inr (Some (\<lparr>speed = speed c1 + sum_list (map speed rs), failed = failed c1 + sum_list (map failed rs),
          bytes = bytes c1 + sum_list (map bytes rs)\<rparr>, if rs = [] then speed r else speed (last rs))) else Inr None)"
    using Cons.prems c1 by (intro Cons.IH) (simp_all add: c1_def add.assoc is_space_def)
  finally show ?case by (simp add: c1_def add.assoc)
qed

text \<open>The sum of the children's lines, and the parent's variable \<open>i\<close> behind the last.\<close>

definition added_up :: "counts list \<Rightarrow> counts" where
  "added_up rs = \<lparr>speed = sum_list (map speed rs), failed = sum_list (map failed rs), bytes = sum_list (map bytes rs)\<rparr>"

lemma collect_all:
  fixes rs :: "counts list"
  assumes "\<forall>r \<in> set rs. 0 \<le> speed r \<and> 0 \<le> failed r \<and> 0 \<le> bytes r"
    and "sum_list (map speed rs) + sum_list (map failed rs) \<le> INT_MAX" and "sum_list (map bytes rs) \<le> INT_MAX"
  shows "collect open_end no_counts i None (length rs + n) (concat (map child_line rs)) =
    (if n = 0 \<or> \<not> open_end then Inr (Some (added_up rs, if rs = [] then i else speed (last rs))) else Inr None)"
proof -
  have s: "0 \<le> sum_list (map speed rs)" "0 \<le> sum_list (map failed rs)"
    using assms(1) by (auto intro!: sum_list_nonneg)
  have "collect open_end no_counts i None (length rs + n) ([] @ concat (map child_line rs)) =
      (if n = 0 \<or> \<not> open_end then Inr (Some (\<lparr>speed = speed no_counts + sum_list (map speed rs), failed = failed no_counts + sum_list (map failed rs),
        bytes = bytes no_counts + sum_list (map bytes rs)\<rparr>, if rs = [] then i else speed (last rs))) else Inr None)"
    using assms s by (intro collect_lines) (simp_all add: counts_ok_def no_counts_def INT_MAX_def)
  then show ?thesis by (simp add: no_counts_def added_up_def)
qed

text \<open>The parent when the children that have written their lines are \<open>rs\<close>.\<close>

lemma bench_parent:
  fixes rs :: "counts list"
  assumes "0 \<le> fst (Socket (be_probe env) (case wb_proxyhost w of None \<Rightarrow> host | Some p \<Rightarrow> p) (wb_proxyport w))"
    and "be_pipe env = 0" and "be_fdopen env" and "wb_clients w = int (length rs + n)" and "0 < length rs + n"
    and "\<forall>k < length rs + n. 0 < be_fork env k" and "be_text env = concat (map child_line rs)"
    and "\<forall>r \<in> set rs. 0 \<le> speed r \<and> 0 \<le> failed r \<and> 0 \<le> bytes r"
    and "sum_list (map speed rs) + sum_list (map failed rs) \<le> INT_MAX" and "sum_list (map bytes rs) \<le> INT_MAX"
  shows "bench w host req env = (if n = 0
    then rbind (report env w (added_up rs)) (\<lambda>t. Inr (Some (speed (last rs), Summary t)))
    else Inr None)"
proof -
  have f: "fork_loop (be_fork env) 0 0 (length rs + n) = (int (length rs + n), be_fork env (length rs + n - 1))"
    using fork_all [of 0 "length rs + n" "be_fork env" 0] assms(5,6) by auto
  have n: "nat (wb_clients w) = length rs + n" using assms(4) by simp
  have p: "0 < be_fork env (length rs + n - 1)" using assms(5,6) by simp
  note collect_all [OF assms(8-10), of True "int (length rs + n)" n]
  then show ?thesis
    using assms(1-3,5,7) f p n by (auto simp: bench_def pipe_ends_def Let_def)
qed

text \<open>
  C39. When the server can be reached and every child writes its line, in whatever order, the
  parent reads the lines back and reports the sums of the children's counts. The status it
  returns is not an error code: it is the number of pages in the line read last.
\<close>

theorem parent_adds_up:
  fixes rs :: "counts list"
  assumes "0 \<le> fst (Socket (be_probe env) (case wb_proxyhost w of None \<Rightarrow> host | Some p \<Rightarrow> p) (wb_proxyport w))"
    and "be_pipe env = 0" and "be_fdopen env" and "wb_clients w = int (length rs)" and "rs \<noteq> []"
    and "\<forall>k < length rs. 0 < be_fork env k" and "be_text env = concat (map child_line rs)"
    and "\<forall>r \<in> set rs. 0 \<le> speed r \<and> 0 \<le> failed r \<and> 0 \<le> bytes r"
    and "sum_list (map speed rs) + sum_list (map failed rs) \<le> INT_MAX" and "sum_list (map bytes rs) \<le> INT_MAX"
  shows "\<exists>t. bench w host req env = Inr (Some (speed (last rs), Summary t))
    \<and> report env w \<lparr>speed = sum_list (map speed rs), failed = sum_list (map failed rs), bytes = sum_list (map bytes rs)\<rparr> = Inr t"
proof -
  have s: "0 \<le> sum_list (map speed rs)" "0 \<le> sum_list (map failed rs)"
    using assms(8) by (auto intro!: sum_list_nonneg)
  then have "int_add (sum_list (map speed rs)) (sum_list (map failed rs)) = Inr (sum_list (map speed rs) + sum_list (map failed rs))"
    using assms(9) by (intro int_add_ok) (simp_all add: INT_MIN_def)
  then show ?thesis
    using bench_parent [of env host w rs 0 req] assms by (simp add: report_def added_up_def)
qed

text \<open>
  C40. When a child dies before it has written its line, the parent waits for ever, also when no
  child is left: it has the writing end of the pipe open itself, so the end of file that the
  message \<open>Some of our childrens died\<close> is meant for never comes. Without an open writing end the
  same loop over the same text ends, with the sums of the lines that came.
\<close>

theorem lost_child_hangs:
  fixes rs :: "counts list"
  assumes "0 \<le> fst (Socket (be_probe env) (case wb_proxyhost w of None \<Rightarrow> host | Some p \<Rightarrow> p) (wb_proxyport w))"
    and "be_pipe env = 0" and "be_fdopen env" and "wb_clients w = int n" and "length rs < n"
    and "\<forall>k < n. 0 < be_fork env k" and "be_text env = concat (map child_line rs)"
    and "\<forall>r \<in> set rs. 0 \<le> speed r \<and> 0 \<le> failed r \<and> 0 \<le> bytes r"
    and "sum_list (map speed rs) + sum_list (map failed rs) \<le> INT_MAX" and "sum_list (map bytes rs) \<le> INT_MAX"
  shows "bench w host req env = Inr None
    \<and> collect False no_counts (int n) None n (be_text env) =
      Inr (Some (added_up rs, if rs = [] then int n else speed (last rs)))"
  using bench_parent [of env host w rs "n - length rs" req] collect_all [OF assms(8-10), of False "int n" "n - length rs"] assms
  by simp

definition demo_env :: bench_env where
  "demo_env = \<lparr>be_probe = demo_net 0, be_pipe = 0, be_fork = (\<lambda>k. int k + 100), be_sigaction = 0, be_attempts = [],
     be_fdopen = True, be_text = ''5 1 900'' @ LF # ''7 0 1100'' @ [LF], be_child_left = False,
     be_per_min = (\<lambda>n t. n * 60 div t), be_per_sec = (\<lambda>n t. n div t)\<rparr>"

theorem parent_adds_up_witness:
  "\<exists>t. wb_main [''-2'', ''-c'', ''2'', ''http://h/a''] demo_env =
     Some (Go (bench_info (new_webbench\<lparr>wb_http10 := 2, wb_clients := 2\<rparr>) ''http://h/a'', Summary t, 7))"
proof -
  let ?w = "new_webbench\<lparr>wb_http10 := 2, wb_clients := 2\<rparr>"
  let ?rs = "[\<lparr>speed = 5, failed = 1, bytes = 900\<rparr>, \<lparr>speed = 7, failed = 0, bytes = 1100\<rparr>] :: counts list"
  have 1: "wb_arguments [''-2'', ''-c'', ''2'', ''http://h/a''] = Go (?w, ''http://h/a'')" by code_simp
  let ?req = "''GET /a HTTP/1.1'' @ [CR, LF] @ ''User-Agent: WebBench 1.5'' @ [CR, LF] @ ''Host: h'' @ [CR, LF]
    @ ''Connection: close'' @ [CR, LF, CR, LF]"
  have 2: "build_request ?w ''http://h/a'' = Go (?w, ''h'', ?req)" by code_simp
  have pipe: "concat (map child_line ?rs) = be_text demo_env" by code_simp
  obtain t where "bench ?w ''h'' ?req demo_env = Inr (Some (7, Summary t))"
    using parent_adds_up [of demo_env "''h''" ?w ?rs ?req] pipe [symmetric]
    by (auto simp: demo_env_def new_webbench_def Socket_def demo_net_def INADDR_NONE_def INT_MAX_def)
  with 1 2 show ?thesis by (simp add: wb_main_def)
qed

theorem lost_child_hangs_witness:
  "bench (new_webbench\<lparr>wb_clients := 3\<rparr>) ''h'' ''GET'' demo_env = Inr None
   \<and> collect False no_counts 3 None 3 (be_text demo_env) = Inr (Some (\<lparr>speed = 12, failed = 1, bytes = 2000\<rparr>, 7))"
proof -
  let ?rs = "[\<lparr>speed = 5, failed = 1, bytes = 900\<rparr>, \<lparr>speed = 7, failed = 0, bytes = 1100\<rparr>] :: counts list"
  have pipe: "concat (map child_line ?rs) = be_text demo_env" by code_simp
  show ?thesis
    using lost_child_hangs [of demo_env "''h''" "new_webbench\<lparr>wb_clients := 3\<rparr>" 3 ?rs "''GET''"] pipe [symmetric]
    by (simp add: added_up_def demo_env_def new_webbench_def Socket_def demo_net_def INADDR_NONE_def INT_MAX_def)
qed

text \<open>
  With a negative number of clients \<open>fork\<close> is never called and \<open>pid\<close> keeps its first value: the
  parent takes itself for a child, measures alone and prints nothing.
\<close>

lemma negative_clients_act_as_child:
  assumes "0 \<le> fst (Socket (be_probe env) (case wb_proxyhost w of None \<Rightarrow> host | Some p \<Rightarrow> p) (wb_proxyport w))"
    and "be_pipe env = 0" and "wb_clients w \<le> 0" and "be_sigaction env = 0" and "be_fdopen env"
    and "benchcore w (case wb_proxyhost w of None \<Rightarrow> host | Some p \<Rightarrow> p) req no_counts (be_attempts env) = Inr (Some c)"
  shows "bench w host req env = Inr (Some (0, Child_Line (child_line c)))"
  using assms by (simp add: bench_def Let_def)

text \<open>A connection that is refused leaves its descriptor open: \<open>Socket\<close> does not close it.\<close>

lemma refused_connection_leaks:
  assumes "n_inet_addr n host \<noteq> INADDR_NONE" and "0 \<le> n_socket n"
    and "n_connect n (n_inet_addr n host) (port mod 65536) < 0"
  shows "Socket n host port = (- 1, [n_socket n])"
  using assms by (simp add: Socket_def)

end
