(* ===== verification/Webbench_Serve.thy ===== *)
theory Webbench_Serve
  imports Server_Serve Webbench_Server Webbench_Run
begin

text \<open>
  One page of the benchmark from end to end: the load generator builds its request, the server's
  main thread and a worker answer it, and the load generator reads the answer and counts it. The
  two programs meet in the bytes of the request and of the response.
\<close>

lemma chunks_read:
  assumes "\<forall>n \<in> set ns. 0 < n"
  shows "page_bytes (map (Got \<circ> int) ns @ [Got 0]) = int (sum_list ns)"
    and "page_ends (map (Got \<circ> int) ns @ [Got 0])" and "page_read (map (Got \<circ> int) ns @ [Got 0])"
  using assms by (induction ns) simp_all

text \<open>A client whose request is sent and whose answer comes in pieces counts a page.\<close>

lemma page_counted:
  assumes "\<not> at_expired t" and "request_sent w host req t" and "waits w" and "at_close t = 0"
    and "at_reads t = map (Got \<circ> int) ns @ [Got 0]" and "\<forall>n \<in> set ns. 0 < n"
    and "counts_ok c" and "speed c < INT_MAX" and "failed c < INT_MAX" and "bytes c + int (sum_list ns) \<le> INT_MAX"
  shows "try_once w host req c t = Inr (Some (c\<lparr>speed := speed c + 1, bytes := bytes c + int (sum_list ns)\<rparr>))"
proof -
  note r = chunks_read [OF assms(6), folded assms(5)]
  have ends: "attempt_ends w host req t" using assms(1) r(2) by (simp add: attempt_ends_def)
  have got: "answer_bytes w host req t = int (sum_list ns)" "succeeds w host req t"
    using assms(2-4) r(1,3) by (simp_all add: answer_bytes_def succeeds_def)
  show ?thesis using try_once_spec [OF ends assms(7-9)] assms(10) by (simp add: got after_try_def)
qed

definition wb_lines :: "string \<Rightarrow> string list" where
  "wb_lines a = [''User-Agent: WebBench 1.5'', ''Host: '' @ host_part a, ''Connection: close'']"

lemma wb_lines_ok:
  assumes "no_eol a" and "NUL \<notin> set a"
  shows "\<forall>h \<in> set (wb_lines a). wf_header h" and "foldl clen_step 0 (wb_lines a) = 0"
    and "foldl linger_step False (wb_lines a) = False"
proof -
  have "no_eol (host_part a)" "NUL \<notin> set (host_part a)" using assms host_part_subset [of a] by (auto simp: no_eol_def)
  then show "\<forall>h \<in> set (wb_lines a). wf_header h" by (simp add: wb_lines_def wf_header_def)
  show "foldl clen_step 0 (wb_lines a) = 0" "foldl linger_step False (wb_lines a) = False"
    by (simp_all add: wb_lines_def clen_step_def linger_step_def is_header_def header_value_def casecmp_eq_def tolower_def)
qed

text \<open>
  C10. A page of the benchmark: the request of a load generator set to HTTP/1.1 reaches an idle
  connection, goes through queue and worker, and is answered with the file; the server closes
  the connection and keeps its invariant; and the client, in whatever pieces it receives the
  answer, counts one page and all the bytes of head and file.
\<close>

theorem benchmark_page:
  assumes gen: "wb_proxyhost w = None" "wb_http10 w = 2" "wb_method w = METHOD_GET"
      "CHR ''/'' \<notin> set a" "no_eol a" "NUL \<notin> set a" "wf_url path"
      "length (''http://'' @ a @ path) \<le> 1500" "authority_fits w a"
    and srv: "srv_inv s" "fd_of s tm = Some fd" "ws_actormodel s \<noteq> 1" "conns s fd = init cn"
      "m_workqueue (requests s) = []" "\<not> m_stop (requests s)" "0 < m_max_requests (requests s)"
    and pool: "connList p = con # rest" "0 < reserve p"
    and url: "path \<noteq> root_url" "path \<noteq> diagnose_url" "after_slash path \<noteq> CHR ''4''"
    and conn: "NUL \<notin> set (doc_root cn)" "length (doc_root cn) \<le> 180"
    and fil: "file_stat ext (doc_root cn @ target (doc_root cn) path) = Some \<lparr>st_size = int (length b), st_iroth = True, st_isdir = False\<rparr>"
      "open_mmap ext (doc_root cn @ target (doc_root cn) path) (int (length b)) = FA_Mapped b"
      "b \<noteq> []" "int (length b) + WRITE_BUFFER_SIZE \<le> INT_MAX"
  defines "resp \<equiv> plain_head 200 ''OK'' (int (length b)) False @ b"
  assumes n: "length resp \<le> n"
    and client: "\<not> at_expired t" "0 \<le> fst (Socket (at_net t) (host_part a) (wb_proxyport (url_port w a)))"
      "at_write t = int (length (sent_request w a path))" "wb_force w = 0"
      "at_reads t = map (Got \<circ> int) ns @ [Got 0]" "\<forall>n \<in> set ns. 0 < n" "sum_list ns = length resp" "at_close t = 0"
    and counters: "counts_ok c" "speed c < INT_MAX" "failed c < INT_MAX" "bytes c + int (length resp) \<le> INT_MAX"
  shows "\<exists>w1 req s1 q k c1 s2 s3 c2.
    build_request w (''http://'' @ a @ path) = Go (w1, host_part a, req)
    \<and> handle_event s now flags (input_event fd req) = Inr (s1, flags) \<and> fetch (requests s1) = Some (q, fd)
    \<and> serve ext (ws_actormodel s) (Some p) (kernel s1) wd (conns s1 fd) = Some (Inr (Some (p\<lparr>connList := rest @ [con]\<rparr>), k, wd, c1))
    \<and> s2 = s1\<lparr>kernel := k, conns := (conns s1)(fd := c1), requests := q\<rparr>
    \<and> write_conn k c1 [Sent n] = Inr (modfd k fd EPOLLIN (m_TRIGMode cn), c2, resp, False)
    \<and> handle_event s2 now2 flags (output_event fd n) = Inr (s3, flags) \<and> srv_inv s3 \<and> \<not> fd_open (kernel s3) fd
    \<and> try_once w1 (host_part a) req c t = Inr (Some (c\<lparr>speed := speed c + 1, bytes := bytes c + int (length resp)\<rparr>))"
proof -
  have w: "wb_protocol w = w" by (rule protocol_get [OF gen(3,2)])
  note b = request_built [OF gen(1,4,7,8), unfolded w, OF gen(9)]
  have sent: "sent_request w a path = render_request (method_name GET) path (wb_lines a) []"
    unfolding wb_lines_def by (rule sent_get [OF gen(1-3)])
  note h = wb_lines_ok [OF gen(5,6)]
  have room: "int (length (render_request (method_name GET) path (wb_lines a) [])) < READ_BUFFER_SIZE"
    using b(2) [of w] unfolding sent by (simp add: webbench_consts READ_BUFFER_SIZE_def)
  have slash: "CHR ''/'' \<in> set path" using gen(7) by (cases path) (auto simp: wf_url_def)
  have n': "length (plain_head 200 ''OK'' (int (length b)) (foldl linger_step False (wb_lines a)) @ b) \<le> n"
    using n by (simp add: resp_def h(3))
  obtain s1 q k c1 s2 s3 c2 where way:
    "handle_event s now flags (input_event fd (sent_request w a path)) = Inr (s1, flags)" "fetch (requests s1) = Some (q, fd)"
    "serve ext (ws_actormodel s) (Some p) (kernel s1) wd (conns s1 fd) = Some (Inr (Some (p\<lparr>connList := rest @ [con]\<rparr>), k, wd, c1))"
    "s2 = s1\<lparr>kernel := k, conns := (conns s1)(fd := c1), requests := q\<rparr>"
    "write_conn k c1 [Sent n] = Inr (modfd k fd EPOLLIN (m_TRIGMode cn), c2, resp, False)"
    "handle_event s2 now2 flags (output_event fd n) = Inr (s3, flags)" "srv_inv s3" "\<not> fd_open (kernel s3) fd"
    using request_way [OF srv pool gen(7) h(1,2) room slash url conn fil n', of now flags wd now2]
    unfolding sent h(3) resp_def by auto
  have "request_sent (url_port w a) (host_part a) (sent_request w a path) t" "waits (url_port w a)"
    using client gen(2) by (simp_all add: request_sent_def waits_def url_port_def split: option.split)
  from page_counted [OF client(1) this client(8,5,6) counters(1-3)] counters(4)
  have "try_once (url_port w a) (host_part a) (sent_request w a path) c t =
      Inr (Some (c\<lparr>speed := speed c + 1, bytes := bytes c + int (length resp)\<rparr>))" by (simp add: client(7))
  with b(1) way show ?thesis by blast
qed

definition demo_web :: webbench where
  "demo_web = new_webbench\<lparr>wb_http10 := 2\<rparr>"

definition demo_resp :: string where
  "demo_resp = plain_head 200 ''OK'' 5 False @ ''hello''"

definition demo_client :: attempt where
  "demo_client = \<lparr>at_expired = False, at_net = demo_net 0, at_write = int (length (sent_request demo_web ''h'' ''/a.html'')),
     at_shutdown = 0, at_reads = [Got (int (length demo_resp)), Got 0], at_close = 0\<rparr>"

theorem benchmark_page_witness:
  "\<exists>s w1 req s1 q k c1 p.
    build_request demo_web ''http://h/a.html'' = Go (w1, ''h'', req)
    \<and> handle_event s 0 (False, False) (input_event 7 req) = Inr (s1, (False, False)) \<and> fetch (requests s1) = Some (q, 7)
    \<and> serve demo_ext (ws_actormodel s) (Some p) (kernel s1) demo_world (conns s1 7) = Some (Inr (Some p, k, demo_world, c1))
    \<and> try_once w1 ''h'' req no_counts demo_client = Inr (Some \<lparr>speed = 1, failed = 0, bytes = int (length demo_resp)\<rparr>)"
proof -
  obtain s tm where s: "srv_inv s" "fd_of s tm = Some 7" "ws_actormodel s \<noteq> 1" "conns s 7 = init seven"
    and q: "requests s = \<lparr>m_actor_model = 0, m_max_requests = 10, m_workqueue = [], m_stop = False\<rparr>"
    by (rule demo_idle)
  have rq: "m_workqueue (requests s) = []" "\<not> m_stop (requests s)" "0 < m_max_requests (requests s)" by (simp_all add: q)
  define p where "p = new_pool\<lparr>connList := [5], reserve := 1\<rparr>"
  have p: "connList p = [5]" "0 < reserve p" by (simp_all add: p_def)
  have same: "p\<lparr>connList := [] @ [5]\<rparr> = p" using p(1) by simp
  have fits: "authority_fits demo_web ''h''"
    by (simp add: authority_fits_def host_part_def port_part_def index_of_def MAXHOSTNAMELEN_def)
  have host: "host_part ''h'' = ''h''" "url_port demo_web ''h'' = demo_web"
    by (simp_all add: host_part_def url_port_def port_part_def index_of_def)
  have gen: "wb_proxyhost demo_web = None" "wb_http10 demo_web = 2" "wb_method demo_web = METHOD_GET" "wb_force demo_web = 0"
    by (simp_all add: demo_web_def new_webbench_def)
  have url: "CHR ''/'' \<notin> set ''h''" "no_eol ''h''" "NUL \<notin> set ''h''" "wf_url ''/a.html''"
    "length (''http://'' @ ''h'' @ ''/a.html'') \<le> 1500"
    "''/a.html'' \<noteq> root_url" "''/a.html'' \<noteq> diagnose_url" "after_slash ''/a.html'' \<noteq> CHR ''4''"
    by (simp_all add: wf_url_def no_eol_def no_blank_def root_url_def diagnose_url_def after_slash_def)
  have conn: "NUL \<notin> set (doc_root seven)" "length (doc_root seven) \<le> 180" by (simp_all add: seven_def)
  have fil: "file_stat demo_ext (doc_root seven @ target (doc_root seven) ''/a.html'') =
      Some \<lparr>st_size = int (length ''hello''), st_iroth = True, st_isdir = False\<rparr>"
    "open_mmap demo_ext (doc_root seven @ target (doc_root seven) ''/a.html'') (int (length ''hello'')) = FA_Mapped ''hello''"
    "''hello'' \<noteq> []" "int (length ''hello'') + WRITE_BUFFER_SIZE \<le> INT_MAX"
    by (simp_all add: demo_ext_def WRITE_BUFFER_SIZE_def INT_MAX_def)
  have resp: "plain_head 200 ''OK'' (int (length ''hello'')) False @ ''hello'' = demo_resp" by (simp add: demo_resp_def)
  have small: "length demo_resp \<le> 1000" "0 < length demo_resp"
    by (simp_all add: demo_resp_def plain_head_def message_defs crlf_def show_int_def show_nat.simps)
  have client: "\<not> at_expired demo_client"
    "0 \<le> fst (Socket (at_net demo_client) (host_part ''h'') (wb_proxyport (url_port demo_web ''h'')))"
    "at_write demo_client = int (length (sent_request demo_web ''h'' ''/a.html''))" "wb_force demo_web = 0"
    "at_reads demo_client = map (Got \<circ> int) [length demo_resp] @ [Got 0]" "\<forall>n \<in> set [length demo_resp]. 0 < n"
    "sum_list [length demo_resp] = length demo_resp" "at_close demo_client = 0"
    using small(2) gen(4) by (simp_all add: demo_client_def Socket_def demo_net_def INADDR_NONE_def)
  have cnt: "counts_ok no_counts" "speed no_counts < INT_MAX" "failed no_counts < INT_MAX"
    "bytes no_counts + int (length demo_resp) \<le> INT_MAX"
    using small(1) by (simp_all add: counts_ok_def no_counts_def INT_MAX_def)
  note page = benchmark_page [OF gen(1-3) url(1-5) fits s rq p url(6-8) conn fil, unfolded resp, OF small(1) client cnt,
      of 0 "(False, False)" demo_world 0, unfolded host same]
  have c: "no_counts\<lparr>speed := speed no_counts + 1, bytes := bytes no_counts + int (length demo_resp)\<rparr> =
      \<lparr>speed = 1, failed = 0, bytes = int (length demo_resp)\<rparr>" by (simp add: no_counts_def)
  from page [unfolded c] show ?thesis by fastforce
qed

end
