(* ===== verification/Spec2Isabelle.thy ===== *)
theory Spec2Isabelle
  imports Server_Start Server_Threads Block_Queue Signals Teardown Model_Inference Testdb
    Webbench_Serve
begin

text \<open>
  A verification library for TimeGANWebServer, a web server in C++: an epoll loop with a time
  wheel, a pool of worker threads, a hand-written HTTP parser and response writer, user accounts
  in MySQL, sessions in Redis, and a service that classifies and generates sensor data with
  neural networks.

  \<^bold>\<open>How the program works.\<close> The main thread (\<open>WebServer::eventLoop\<close>) waits for epoll. It accepts
  connections and gives each one a timer in the time wheel, reads the bytes of a request into the
  \<open>http_conn\<close> object of the descriptor (\<open>read_once\<close>) and appends that object to the queue of the
  thread pool. A worker fetches it, takes a database connection from the pool, and runs
  \<open>process\<close>: \<open>process_read\<close> scans lines and parses them, \<open>do_request\<close> decides what the request is
  for, \<open>process_write\<close> puts the response into the write buffer, and \<open>modfd\<close> asks for \<open>EPOLLOUT\<close>.
  The main thread then sends it (\<open>write\<close>). An alarm every five seconds ticks the wheel, which
  closes idle connections. A static log object writes lines, directly or by a thread of its own.

  \<^bold>\<open>What a definition returns.\<close> \<open>'a res\<close> is a sum: \<open>Inr\<close> is a normal return, and \<open>Inl\<close> says that the
  C++ code has reached undefined behaviour (theory \<open>Prelude\<close>). So every theorem with \<open>Inr\<close> in its
  conclusion also says that the code stays inside its arrays, dereferences no null pointer and
  uses nothing that was freed. \<open>None\<close> is a call that blocks, a loop that does not return, or an
  abort; the text of each definition says which. What the kernel, MySQL, Redis, the JSON library
  and the neural networks answer is an argument.

  \<^bold>\<open>The theories, from the bottom up\<close>, with the sources below \<open>src/\<close>:

  \<^item> \<open>Prelude\<close>, \<open>CString\<close>: undefined behaviour as a value, 32-bit conversion, decimal numbers;
    \<open>char\<close> arrays and the C string functions. A pointer into an array is an index.
  \<^item> \<open>Memory_Pool\<close> (\<open>lock/memory_pool.h\<close>): blocks, cells and the embedded free list. An object
    from the pool is at an address that no living object has.
  \<^item> \<open>Timer_List\<close>, \<open>Time_Wheel\<close> (\<open>timer/lst_timer.cpp\<close>): the sixty doubly linked lists over the
    heap of the pool. \<open>due\<close> abstracts the wheel to a map from timers to the ticks they have left;
    \<open>add_timer\<close>, \<open>del_timer\<close> and \<open>tick\<close> refine an insertion, a deletion and a countdown of that
    map, and \<open>tick\<close> ends, when the callbacks of the timers in the wheel are safe for the arguments
    that these timers have (\<open>callbacks_ok\<close>), as those of the server are.
  \<^item> \<open>Epoll\<close>, \<open>Http_Conn\<close> (\<open>http/http_conn.h\<close>, parts of \<open>http/http_conn.cpp\<close>): descriptors and
    the epoll table; the record \<open>http_conn\<close>, its initialisation and closing.
  \<^item> \<open>Http_Parse\<close>, \<open>Http_Request\<close>, \<open>Http_Segments\<close> (\<open>http/http_conn.cpp\<close>): receiving, the line
    scanner, the parsers and the loop of \<open>process_read\<close>. A printed request is parsed back; the
    way its bytes arrive does not matter up to the body, whose parts are not put together; the
    positions stay in order, but for a failed \<open>recv\<close> in level-triggered mode.
  \<^item> \<open>Diagnose\<close>, \<open>Session\<close>, \<open>Http_Route\<close>, \<open>Http_Account\<close> (\<open>http/http_conn.cpp\<close>,
    \<open>redis_manager.cpp\<close>): \<open>do_request\<close> with the CSV reader, the sessions (the locale
    \<open>session_store\<close>, interpreted by the code over any Redis that keeps its documentation), login
    check, registration, login, logout and static files.
  \<^item> \<open>Http_Response\<close>, \<open>Http_Write\<close> (\<open>http/http_conn.cpp\<close>): the response text and its bounds, and
    \<open>write\<close> against any sequence of partial writes.
  \<^item> \<open>Bounded_Fifo\<close>, \<open>Block_Queue\<close> (\<open>log/block_queue.h\<close>): the locale of a bounded queue and the
    circular array that implements it.
  \<^item> \<open>Locker\<close>, \<open>Sql_Pool\<close>, \<open>Thread_Pool\<close> (\<open>lock/locker.h\<close>, \<open>CGImysql/sql_connection_pool.cpp\<close>,
    \<open>threadpool/threadpool.h\<close>): the primitives, and two step relations in which threads
    interleave, with invariants by rule induction. \<open>append\<close> and \<open>stop\<close> are split at the places
    where a worker can come between: after the \<open>unlock\<close>, and after the flag.
  \<^item> \<open>Http_Process\<close> (\<open>http/http_conn.cpp\<close>, \<open>threadpool/threadpool.h\<close>): \<open>process\<close>, the body of a
    worker around it, and \<open>initmysql_result\<close>. Here parser, routes and response writer are
    composed: from the bytes of a GET to the bytes of the answer.
  \<^item> \<open>Web_Server\<close>, \<open>Server_Inv\<close>, \<open>Server_Loop\<close> (\<open>webserver.cpp\<close>, \<open>Utils\<close> of
    \<open>timer/lst_timer.cpp\<close>): the state of the main thread, its operations and the event loop.
    \<open>fd_of\<close> abstracts the state to a map from timers to descriptors; \<open>srv_inv\<close> ties wheel,
    \<open>users_timer\<close>, epoll table and user count together, \<open>no_leak\<close> says that an open descriptor which
    is not the server's own has a timer, and every step keeps both. The two trigger modes have no
    value until \<open>trig_mode\<close> gives them one, and reading one before is undefined.
  \<^item> \<open>Server_Serve\<close>: a request's way through main thread, queue, worker and main thread again, by the
    theorems of the components.
  \<^item> \<open>Server_Run\<close>, \<open>Server_Threads\<close> (\<open>webserver.cpp\<close> against \<open>threadpool/threadpool.h\<close>): main thread
    and workers interleaved over the shared connections, queue, epoll table and database pool.
    What keeps them apart is \<open>EPOLLONESHOT\<close>: \<open>claims_ok\<close> says that a connection has at most one
    holder (armed entry, reported event, place in the queue, worker), and every step keeps it
    unless a timer closes a connection in use.
  \<^item> \<open>Signals\<close>, \<open>Teardown\<close> (\<open>timer/lst_timer.cpp\<close>, \<open>webserver.cpp\<close>, \<open>threadpool/threadpool.h\<close>): the
    actions for signals; the destructors of server, wheel and pool in their order, and the
    constructor of the pool with the threads it makes.
  \<^item> \<open>Model_Inference\<close> (\<open>model_inference.cpp\<close>, \<open>inference_worker.h\<close>, \<open>init_models\<close> of
    \<open>http/http_conn.cpp\<close>): loading and calling the neural networks over a parameter for ONNX
    Runtime. The parameter \<open>ml\<close> of \<open>Diagnose\<close> is shown to be what \<open>predict\<close> returns.
  \<^item> \<open>Testdb\<close> (\<open>testdb.cpp\<close>): the test of the database connection.
  \<^item> \<open>Webbench\<close>, \<open>Webbench_Server\<close>, \<open>Webbench_Run\<close>, \<open>Webbench_Serve\<close> (\<open>test_presure/webbench-1.5\<close>):
    the load generator. Its options and \<open>build_request\<close> with the bounds of its arrays; its request
    given to the server's parser; the loop of a client, the pipe with its ends and the parent's sums; and one
    page of the benchmark from the generator through the whole server and back.
  \<^item> \<open>Log_File\<close> (\<open>log/log.cpp\<close>): lines, files of a day and the double buffer.
  \<^item> \<open>Config_Args\<close> (\<open>config.cpp\<close>): the options of the command line.
  \<^item> \<open>Server_Start\<close> (\<open>main.cpp\<close>, \<open>webserver.cpp\<close>): the whole start, which leads to a state from
    which the event loop is safe.

  \<^bold>\<open>Loops and fuel.\<close> Loops over data are structural or have a measure. \<open>tick\<close> follows pointers and
  \<open>write\<close> may spin, so \<open>tick_loop\<close> (and \<open>clear_slot\<close>, the loop of the wheel's destructor) is a partial
  function whose result is proved to exist, and
  \<open>write_loop\<close> recurses over the list of the kernel's answers. No definition takes fuel. The
  event loop recurses over the results of \<open>epoll_wait\<close>; \<open>loop_ok\<close> says which results the kernel
  can give (descriptors that \<open>accept\<close> returns are new and below \<open>MAX_FD\<close>, events are for
  registered descriptors, the sends do not split a response head twice).

  \<^bold>\<open>What the theorems do not cover.\<close> In the interleaving of \<open>Server_Run\<close> the call of \<open>process\<close> is one
  step: its effect on the other threads is the \<open>modfd\<close> it ends with. The waiting of the workers
  is in \<open>Thread_Pool\<close> and the phases inside the operations of the database pool in \<open>Sql_Pool\<close>, each
  with its own relation. The member \<open>mysql\<close> of a connection is not protected by ownership, as
  \<open>two_workers_share_mysql\<close> shows, and \<open>timer_takes_connection\<close> shows why the condition on the timers is
  needed. Spurious wake-ups of a condition variable, which C++ allows, are left out of
  \<open>Thread_Pool\<close>: the hang of \<open>stop_can_hang\<close> is one that lasts as long as none comes. An object \<open>http_conn\<close> that was never used has an
  arbitrary \<open>m_TRIGMode\<close> when \<open>init\<close> first reads it. Log output is modelled in \<open>Log_File\<close> but not threaded through the other components, so
  the overflow of \<open>long_message_overflows\<close> does not show there. \<open>main_start\<close> does not contain
  \<open>init_models\<close>, which touches no state of the server.

  \<^bold>\<open>Not modelled.\<close> Of the classes modelled, the destructors of \<open>Log\<close>, of \<open>block_queue\<close>, of the
  database pool and of the memory pool, which only free memory at the end of the process, are
  left out, and so are the buffering inside stdio, console output, and the usage text and the
  messages of the load generator. The quotients of \<open>float\<close>s in its report are a parameter.
\<close>

end
